(* ===== verification/Prelude.thy ===== *)
theory Prelude
  imports Complex_Main "HOL-Library.List_Lexorder" "HOL-Library.Char_ord" "HOL-Library.Product_Lexorder"
    "HOL-Library.AList" "HOL-Library.Multiset"
begin

text \<open>
  What every component shares: Go's 64-bit integers as \<open>int\<close> with the wrap-around
  written out, Go maps as association lists with distinct keys, insertion into a
  slice used as a set, \<open>sort.Search\<close>, the chunked loop
  \<open>for start := 0; start < len; start += n\<close>, and decimal printing.
\<close>

named_theorems i64_simps \<open>64-bit arithmetic that does not leave its range\<close>
named_theorems gomap_simps \<open>lookups after insertions into Go maps\<close>

section \<open>Machine integers\<close>

text \<open>Two's complement wrap-around of \<open>int64\<close> (and of Go's 64-bit \<open>int\<close>).\<close>

definition i64 :: "int \<Rightarrow> int" where
  "i64 x = (x + 2 ^ 63) mod 2 ^ 64 - 2 ^ 63"

definition in_i64 :: "int \<Rightarrow> bool" where
  "in_i64 x \<longleftrightarrow> - (2 ^ 63) \<le> x \<and> x < 2 ^ 63"

text \<open>\<open>math.MaxInt64\<close>, the engine's infinity, and \<open>math.MaxInt32\<close>.\<close>

definition max_int64 :: int where "max_int64 = 2 ^ 63 - 1"
definition max_int32 :: int where "max_int32 = 2 ^ 31 - 1"

lemma i64_id [i64_simps]: "in_i64 x \<Longrightarrow> i64 x = x"
  unfolding i64_def in_i64_def by (subst mod_pos_pos_trivial) auto

lemma in_i64_i64 [simp, intro]: "in_i64 (i64 x)"
proof -
  have "0 \<le> (x + 2 ^ 63) mod 2 ^ 64" "(x + 2 ^ 63) mod 2 ^ 64 < 2 ^ 64" by auto
  then show ?thesis unfolding i64_def in_i64_def by simp
qed

lemma in_i64I: "- (2 ^ 63) \<le> x \<Longrightarrow> x < 2 ^ 63 \<Longrightarrow> in_i64 x"
  by (simp add: in_i64_def)

lemma i64_plus [i64_simps]:
  "0 \<le> x \<Longrightarrow> x < 2 ^ 62 \<Longrightarrow> 0 \<le> y \<Longrightarrow> y < 2 ^ 62 \<Longrightarrow> i64 (x + y) = x + y"
  by (rule i64_id, simp add: in_i64_def)

section \<open>Go maps\<close>

text \<open>
  A Go map that the code ranges over is an association list with distinct keys, whose
  order is one of the iteration orders the runtime may choose. A missing key reads as
  the zero value of the element type.
\<close>

type_synonym ('k, 'v) gomap = "('k \<times> 'v) list"

definition gm_keys :: "('k, 'v) gomap \<Rightarrow> 'k list" where
  "gm_keys m = map fst m"

definition gm_ok :: "('k, 'v) gomap \<Rightarrow> bool" where
  "gm_ok m \<longleftrightarrow> distinct (map fst m)"

definition gm_get :: "('k, 'v) gomap \<Rightarrow> 'k \<Rightarrow> 'v \<Rightarrow> 'v" where
  "gm_get m k zero = (case map_of m k of None \<Rightarrow> zero | Some v \<Rightarrow> v)"

abbreviation gm_put :: "'k \<Rightarrow> 'v \<Rightarrow> ('k, 'v) gomap \<Rightarrow> ('k, 'v) gomap" where
  "gm_put \<equiv> AList.update"

lemma map_of_gm_put [gomap_simps]: "map_of (gm_put k v m) = (map_of m)(k \<mapsto> v)"
  by (simp add: update_conv')

lemma gm_ok_put [intro]: "gm_ok m \<Longrightarrow> gm_ok (gm_put k v m)"
  unfolding gm_ok_def by (rule distinct_update)

lemma gm_ok_Nil [simp]: "gm_ok []"
  by (simp add: gm_ok_def)

lemma fst_gm_put: "fst ` set (gm_put k v m) = insert k (fst ` set m)"
  by (simp add: dom_map_of_conv_image_fst [symmetric] update_conv')

text \<open>Two iteration orders of the same map read alike.\<close>

lemma map_of_mset_eq:
  assumes "mset m = mset m'" "gm_ok m"
  shows "map_of m = map_of m'"
proof -
  have ok': "gm_ok m'"
    using assms by (metis gm_ok_def mset_eq_imp_distinct_iff mset_map)
  show ?thesis
    using assms ok' by (intro map_of_inject_set [THEN iffD2]) (auto simp: gm_ok_def dest: mset_eq_setD)
qed

section \<open>Slices used as sets\<close>

definition add_new :: "'a \<Rightarrow> 'a list \<Rightarrow> 'a list" where
  "add_new x xs = (if x \<in> set xs then xs else xs @ [x])"

lemma set_add_new [simp]: "set (add_new x xs) = insert x (set xs)"
  by (auto simp: add_new_def)

lemma distinct_add_new [simp]: "distinct (add_new x xs) = distinct xs"
  by (auto simp: add_new_def)

section \<open>Binary search\<close>

text \<open>
  \<open>sort.Search(n, f)\<close>: the loop of Go's standard library over the interval
  \<open>[i, j)\<close>, with the midpoint \<open>(i + j) / 2\<close>.
\<close>

function sort_search_loop :: "(nat \<Rightarrow> bool) \<Rightarrow> nat \<Rightarrow> nat \<Rightarrow> nat" where
  "sort_search_loop f i j =
     (if i < j
      then let h = (i + j) div 2 in
        if \<not> f h then sort_search_loop f (h + 1) j else sort_search_loop f i h
      else i)"
  by pat_completeness auto
termination
  by (relation "measure (\<lambda>(f, i, j). j - i)") auto

declare sort_search_loop.simps [simp del]

definition sort_search :: "nat \<Rightarrow> (nat \<Rightarrow> bool) \<Rightarrow> nat" where
  "sort_search n f = sort_search_loop f 0 n"

lemma sort_search_loop_inv:
  assumes "i \<le> j" "j \<le> n" "\<And>a b. a \<le> b \<Longrightarrow> b < n \<Longrightarrow> f a \<Longrightarrow> f b"
    and "\<And>a. a < i \<Longrightarrow> \<not> f a" "\<And>b. j \<le> b \<Longrightarrow> b < n \<Longrightarrow> f b"
  shows "sort_search_loop f i j \<le> n \<and> (\<forall>b < n. f b \<longleftrightarrow> sort_search_loop f i j \<le> b)"
  using assms
proof (induction f i j rule: sort_search_loop.induct)
  case (1 f i j)
  show ?case
  proof (cases "i < j")
    case False
    with "1.prems" have "\<And>b. b < n \<Longrightarrow> f b \<longleftrightarrow> i \<le> b" "i \<le> n"
      by (metis le_neq_implies_less not_le, linarith)
    with False show ?thesis by (auto simp: sort_search_loop.simps [of f i j])
  next
    case True
    let ?h = "(i + j) div 2"
    from True have h: "i \<le> ?h" "?h < j" by auto
    show ?thesis
    proof (cases "f ?h")
      case fh: True
      have "\<And>b. ?h \<le> b \<Longrightarrow> b < n \<Longrightarrow> f b" using "1.prems"(3) fh by blast
      with "1.IH"(2) [OF True refl] fh h "1.prems"
      have "sort_search_loop f i ?h \<le> n \<and> (\<forall>b < n. f b \<longleftrightarrow> sort_search_loop f i ?h \<le> b)"
        by fastforce
      with True fh show ?thesis by (simp add: sort_search_loop.simps [of f i j] Let_def)
    next
      case fh: False
      have "\<not> f a" if "a < ?h + 1" for a
      proof -
        have "a \<le> ?h" "?h < n" using that h "1.prems"(2) by linarith+
        then show ?thesis using "1.prems"(3) [of a ?h] fh by blast
      qed
      with "1.IH"(1) [OF True refl fh] h "1.prems"
      have "sort_search_loop f (?h + 1) j \<le> n \<and> (\<forall>b < n. f b \<longleftrightarrow> sort_search_loop f (?h + 1) j \<le> b)"
        by fastforce
      with True fh show ?thesis by (simp add: sort_search_loop.simps [of f i j] Let_def)
    qed
  qed
qed

text \<open>On a monotone predicate the loop finds the boundary; it never exceeds \<open>n\<close>.\<close>

lemma sort_search_correct:
  assumes "\<And>a b. a \<le> b \<Longrightarrow> b < n \<Longrightarrow> f a \<Longrightarrow> f b"
  shows "sort_search n f \<le> n" and "\<And>b. b < n \<Longrightarrow> f b \<longleftrightarrow> sort_search n f \<le> b"
  using sort_search_loop_inv [of 0 n n f] assms by (auto simp: sort_search_def)

section \<open>Chunked loops\<close>

text \<open>
  \<open>for start := 0; start < len(xs); start += n\<close> with \<open>end\<close> clipped to
  \<open>len(xs)\<close>: the slices the body sees. The callers make \<open>n\<close> positive.
\<close>

function chunks :: "nat \<Rightarrow> 'a list \<Rightarrow> 'a list list" where
  "chunks n xs = (if n = 0 \<or> xs = [] then [] else take n xs # chunks n (drop n xs))"
  by pat_completeness auto
termination
  by (relation "measure (\<lambda>(n, xs). length xs)") auto

declare chunks.simps [simp del]

lemma chunks_Nil [simp]: "chunks n [] = []"
  by (simp add: chunks.simps)

lemma concat_chunks: "0 < n \<Longrightarrow> concat (chunks n xs) = xs"
proof (induction n xs rule: chunks.induct)
  case (1 n xs)
  then show ?case by (cases "xs = []") (simp_all add: chunks.simps [of n xs])
qed

lemma chunks_length: "c \<in> set (chunks n xs) \<Longrightarrow> c \<noteq> [] \<and> length c \<le> n"
proof (induction n xs rule: chunks.induct)
  case (1 n xs)
  then show ?case by (cases "n = 0 \<or> xs = []") (auto simp: chunks.simps [of n xs])
qed

section \<open>Decimal printing\<close>

definition digit_char :: "nat \<Rightarrow> char" where
  "digit_char d = char_of (48 + d)"

definition is_digit :: "char \<Rightarrow> bool" where
  "is_digit c \<longleftrightarrow> 48 \<le> (of_char c :: nat) \<and> (of_char c :: nat) \<le> 57"

definition digit_val :: "char \<Rightarrow> nat" where
  "digit_val c = (of_char c :: nat) - 48"

lemma of_char_digit_char [simp]: "d < 10 \<Longrightarrow> (of_char (digit_char d) :: nat) = 48 + d"
  by (simp add: digit_char_def)

lemma digit_char_simps [simp]:
  "d < 10 \<Longrightarrow> is_digit (digit_char d)" "d < 10 \<Longrightarrow> digit_val (digit_char d) = d"
  by (simp_all add: is_digit_def digit_val_def)

lemma digit_char_val [simp]: "is_digit c \<Longrightarrow> digit_char (digit_val c) = c"
  by (simp add: is_digit_def digit_val_def digit_char_def)

lemma digit_val_less [simp]: "is_digit c \<Longrightarrow> digit_val c < 10"
  unfolding is_digit_def digit_val_def by linarith

fun show_nat :: "nat \<Rightarrow> string" where
  "show_nat n = (if n < 10 then [digit_char n] else show_nat (n div 10) @ [digit_char (n mod 10)])"

declare show_nat.simps [simp del]

definition show_int :: "int \<Rightarrow> string" where
  "show_int n = (if n < 0 then CHR ''-'' # show_nat (nat (- n)) else show_nat (nat n))"

text \<open>The value of a string of digits, most significant first.\<close>

definition digits_val :: "string \<Rightarrow> nat" where
  "digits_val s = foldl (\<lambda>n c. 10 * n + digit_val c) 0 s"

lemma digits_val_snoc [simp]: "digits_val (s @ [c]) = 10 * digits_val s + digit_val c"
  by (simp add: digits_val_def)

lemma show_nat_digits: "c \<in> set (show_nat n) \<Longrightarrow> is_digit c"
proof (induction n rule: show_nat.induct)
  case (1 n)
  then show ?case by (cases "n < 10") (auto simp: show_nat.simps [of n])
qed

lemma digits_val_show_nat [simp]: "digits_val (show_nat n) = n"
proof (induction n rule: show_nat.induct)
  case (1 n)
  show ?case
  proof (cases "n < 10")
    case True
    then show ?thesis by (simp add: show_nat.simps [of n] digits_val_def)
  next
    case False
    with 1 show ?thesis by (simp add: show_nat.simps [of n])
  qed
qed

lemma show_nat_inject [simp]: "show_nat m = show_nat n \<longleftrightarrow> m = n"
  by (metis digits_val_show_nat)

lemma show_nat_not_Nil [simp]: "show_nat n \<noteq> []"
  by (simp add: show_nat.simps)

lemma minus_not_digit [simp]: "\<not> is_digit (CHR ''-'')"
  by (simp add: is_digit_def)

lemma show_int_inject: "show_int m = show_int n \<longleftrightarrow> m = n"
proof -
  have "CHR ''-'' # s \<noteq> show_nat k" for s k
    using show_nat_digits [of "CHR ''-''" k] by (metis list.set_intros(1) minus_not_digit)
  moreover from this have "show_nat k \<noteq> CHR ''-'' # s" for s k by metis
  ultimately show ?thesis by (auto simp: show_int_def)
qed

end
