(* ===== verification/Breaker.thy ===== *)
theory Breaker
  imports Prelude
begin

text \<open>
  The circuit breaker of \<^verbatim>\<open>internal/breaker/breaker.go\<close>. Every method holds the mutex from
  its first to its last statement, so a concurrent run is a sequence of whole method calls, in
  any order; a call carries the reading of the injected clock \<open>b.now()\<close> in nanoseconds.
  The lemmas show the invariant of the reachable states, a refinement to a three-state automaton
  and the contract the seat validator relies on (locale \<open>call_gate\<close>).
\<close>

datatype breaker_state = StateClosed | StateOpen | StateHalfOpen

text \<open>\<open>openedAt\<close> is the zero time until the breaker first opens; it is read in the open state only.\<close>

record breaker =
  threshold :: int
  cooldown :: int
  failures :: int
  state :: breaker_state
  openedAt :: int
  probing :: bool

definition New :: "int \<Rightarrow> int \<Rightarrow> breaker" where
  "New th cd =
     \<lparr>threshold = (if th \<le> 0 then 5 else th),
      cooldown = (if cd \<le> 0 then 15 * 10 ^ 9 else cd),
      failures = 0, state = StateClosed, openedAt = 0, probing = False\<rparr>"

definition Allow :: "int \<Rightarrow> breaker \<Rightarrow> bool \<times> breaker" where
  "Allow now b =
     (case state b of
        StateClosed \<Rightarrow> (True, b)
      | StateOpen \<Rightarrow>
          if now - openedAt b < cooldown b then (False, b)
          else (True, b\<lparr>state := StateHalfOpen, probing := True\<rparr>)
      | StateHalfOpen \<Rightarrow>
          if probing b then (False, b) else (True, b\<lparr>probing := True\<rparr>))"

definition Success :: "breaker \<Rightarrow> breaker" where
  "Success b = b\<lparr>failures := 0, probing := False, state := StateClosed\<rparr>"

definition Failure :: "int \<Rightarrow> breaker \<Rightarrow> breaker" where
  "Failure now b =
     (let b = b\<lparr>probing := False\<rparr>
      in if state b = StateHalfOpen then b\<lparr>state := StateOpen, openedAt := now\<rparr>
         else
           let b = b\<lparr>failures := failures b + 1\<rparr>
           in if failures b \<ge> threshold b then b\<lparr>state := StateOpen, openedAt := now\<rparr> else b)"

definition State :: "int \<Rightarrow> breaker \<Rightarrow> breaker_state" where
  "State now b =
     (if state b = StateOpen \<and> now - openedAt b \<ge> cooldown b then StateHalfOpen else state b)"

definition Healthy :: "int \<Rightarrow> breaker \<Rightarrow> bool" where
  "Healthy now b \<longleftrightarrow> State now b = StateClosed"

section \<open>Runs and their invariant\<close>

text \<open>The calls a client can make, in any order: reports may come without a matching admission,
  and late, because a slow call reports long after the breaker has moved on.\<close>

datatype breaker_call = CallAllow int | CallSuccess | CallFailure int

fun breaker_step :: "breaker_call \<Rightarrow> breaker \<Rightarrow> breaker" where
  "breaker_step (CallAllow now) b = snd (Allow now b)"
| "breaker_step CallSuccess b = Success b"
| "breaker_step (CallFailure now) b = Failure now b"

inductive breaker_reachable :: "breaker \<Rightarrow> bool" where
  reachable_New: "breaker_reachable (New th cd)"
| reachable_step: "breaker_reachable b \<Longrightarrow> breaker_reachable (breaker_step c b)"

text \<open>
  A probe is in flight exactly in the half-open state, and the failure count has reached the
  threshold exactly when the breaker is not closed.
\<close>

definition breaker_inv :: "breaker \<Rightarrow> bool" where
  "breaker_inv b \<longleftrightarrow> 0 < threshold b \<and> 0 < cooldown b \<and> 0 \<le> failures b \<and>
     (probing b \<longleftrightarrow> state b = StateHalfOpen) \<and>
     (state b = StateClosed \<longleftrightarrow> failures b < threshold b)"

lemmas breaker_defs = Allow_def Success_def Failure_def State_def Healthy_def Let_def

lemma breaker_inv_New: "breaker_inv (New th cd)"
  by (simp add: breaker_inv_def New_def)

lemma breaker_inv_Allow: "breaker_inv b \<Longrightarrow> breaker_inv (snd (Allow now b))"
  by (auto simp: breaker_inv_def Allow_def split: breaker_state.splits)

lemma breaker_inv_Success: "breaker_inv b \<Longrightarrow> breaker_inv (Success b)"
  by (simp add: breaker_inv_def Success_def)

lemma breaker_inv_Failure: "breaker_inv b \<Longrightarrow> breaker_inv (Failure now b)"
  by (cases "state b") (auto simp: breaker_inv_def Failure_def Let_def)

lemma breaker_inv_step: "breaker_inv b \<Longrightarrow> breaker_inv (breaker_step c b)"
  by (cases c) (simp_all add: breaker_inv_Allow breaker_inv_Success breaker_inv_Failure)

lemma reachable_breaker_inv: "breaker_reachable b \<Longrightarrow> breaker_inv b"
  by (induction rule: breaker_reachable.induct) (auto intro: breaker_inv_New breaker_inv_step)

section \<open>Refinement to a three-state automaton\<close>

text \<open>
  What the breaker promises, without its bookkeeping: closed with a count of consecutive
  failures, open since a time, or waiting for one probe.
\<close>

datatype abs_breaker = AClosed int | AOpen int | AProbe

fun abs_step :: "int \<Rightarrow> int \<Rightarrow> breaker_call \<Rightarrow> abs_breaker \<Rightarrow> bool \<times> abs_breaker" where
  "abs_step th cd (CallAllow now) (AClosed n) = (True, AClosed n)"
| "abs_step th cd (CallAllow now) (AOpen t) = (if now - t < cd then (False, AOpen t) else (True, AProbe))"
| "abs_step th cd (CallAllow now) AProbe = (False, AProbe)"
| "abs_step th cd CallSuccess a = (True, AClosed 0)"
| "abs_step th cd (CallFailure now) (AClosed n) =
     (True, if n + 1 \<ge> th then AOpen now else AClosed (n + 1))"
| "abs_step th cd (CallFailure now) a = (True, AOpen now)"

definition abs_of :: "breaker \<Rightarrow> abs_breaker" where
  "abs_of b =
     (case state b of
        StateClosed \<Rightarrow> AClosed (failures b)
      | StateOpen \<Rightarrow> AOpen (openedAt b)
      | StateHalfOpen \<Rightarrow> AProbe)"

fun call_answer :: "breaker_call \<Rightarrow> breaker \<Rightarrow> bool" where
  "call_answer (CallAllow now) b = fst (Allow now b)"
| "call_answer c b = True"

lemma breaker_refines_step:
  "breaker_inv b \<Longrightarrow>
     abs_step (threshold b) (cooldown b) c (abs_of b) = (call_answer c b, abs_of (breaker_step c b))"
  by (cases c; cases "state b") (auto simp: breaker_inv_def abs_of_def breaker_defs)

lemma breaker_step_config [simp]:
  "threshold (breaker_step c b) = threshold b" "cooldown (breaker_step c b) = cooldown b"
  by (cases c; auto simp: breaker_defs split: breaker_state.splits)+

fun breaker_run :: "breaker_call list \<Rightarrow> breaker \<Rightarrow> bool list \<times> breaker" where
  "breaker_run [] b = ([], b)"
| "breaker_run (c # cs) b =
     (let (as, b') = breaker_run cs (breaker_step c b) in (call_answer c b # as, b'))"

fun abs_run :: "int \<Rightarrow> int \<Rightarrow> breaker_call list \<Rightarrow> abs_breaker \<Rightarrow> bool list \<times> abs_breaker" where
  "abs_run th cd [] a = ([], a)"
| "abs_run th cd (c # cs) a =
     (let (r, a') = abs_step th cd c a; (rs, a'') = abs_run th cd cs a' in (r # rs, a''))"

lemma breaker_run_refines:
  "breaker_inv b \<Longrightarrow> abs_run (threshold b) (cooldown b) cs (abs_of b) =
     (fst (breaker_run cs b), abs_of (snd (breaker_run cs b)))"
proof (induction cs arbitrary: b)
  case (Cons c cs)
  show ?case
    using Cons.IH [OF breaker_inv_step [OF Cons.prems]]
    by (simp add: breaker_refines_step [OF Cons.prems] case_prod_beta Let_def)
qed simp

lemma breaker_inv_run: "breaker_inv b \<Longrightarrow> breaker_inv (snd (breaker_run cs b))"
  by (induction cs arbitrary: b) (auto simp: case_prod_beta Let_def breaker_inv_step)

section \<open>The contract of a call gate\<close>

text \<open>
  What the seat validator needs of the object that admits its calls: every operation keeps it
  consistent, a refused call leaves it as it was, and after a reported success the next call
  is admitted.
\<close>

locale call_gate =
  fixes allow :: "int \<Rightarrow> 'g \<Rightarrow> bool \<times> 'g"
    and success :: "'g \<Rightarrow> 'g"
    and failure :: "int \<Rightarrow> 'g \<Rightarrow> 'g"
    and gate_ok :: "'g \<Rightarrow> bool"
  assumes ok_allow: "gate_ok g \<Longrightarrow> gate_ok (snd (allow t g))"
    and ok_success: "gate_ok g \<Longrightarrow> gate_ok (success g)"
    and ok_failure: "gate_ok g \<Longrightarrow> gate_ok (failure t g)"
    and refused_same: "\<not> fst (allow t g) \<Longrightarrow> snd (allow t g) = g"
    and success_admits: "allow t (success g) = (True, success g)"
begin

text \<open>A client that reports every admitted call exactly once keeps the gate consistent.\<close>

lemma ok_guarded:
  "gate_ok g \<Longrightarrow>
     gate_ok (if fst (allow t g) then (if answered then success (snd (allow t g)) else failure t' (snd (allow t g)))
              else snd (allow t g))"
  by (simp add: ok_allow ok_success ok_failure)

lemma refused_repeats: "\<not> fst (allow t g) \<Longrightarrow> allow t g = (False, g)"
  using refused_same by (metis prod.collapse)

end

interpretation breaker_gate: call_gate Allow Success Failure breaker_inv
proof unfold_locales
  show "\<not> fst (Allow t b) \<Longrightarrow> snd (Allow t b) = b" for t b
    by (auto simp: Allow_def split: breaker_state.splits if_splits)
  show "Allow t (Success b) = (True, Success b)" for t b
    by (simp add: Allow_def Success_def)
qed (fact breaker_inv_Allow breaker_inv_Success breaker_inv_Failure)+

section \<open>Properties\<close>

text \<open>In every reachable state a probe is marked in flight exactly when the breaker is half
  open, and the breaker is closed exactly while its failure count is below the threshold.\<close>

theorem breaker_reachable_states:
  assumes "breaker_reachable b"
  shows "(probing b \<longleftrightarrow> state b = StateHalfOpen) \<and>
     (state b = StateClosed \<longleftrightarrow> failures b < threshold b) \<and>
     0 < threshold b \<and> 0 < cooldown b \<and> 0 \<le> failures b"
  using reachable_breaker_inv [OF assms] by (auto simp: breaker_inv_def)

theorem breaker_reachable_states_witness:
  "probing (snd (Allow 20 (Failure 5 (New 1 10)))) \<and>
   state (snd (Allow 20 (Failure 5 (New 1 10)))) = StateHalfOpen"
proof -
  have "breaker_reachable (breaker_step (CallAllow 20) (breaker_step (CallFailure 5) (New 1 10)))"
    by (intro breaker_reachable.intros)
  then show ?thesis
    using breaker_reachable_states [of "snd (Allow 20 (Failure 5 (New 1 10)))"]
    by (simp add: Allow_def Failure_def New_def)
qed

text \<open>C17: any sequence of calls on a new breaker is answered as the three-state automaton answers
  it, and leaves the breaker in the state that stands for the automaton's.\<close>

theorem breaker_refines_automaton:
  "abs_run (threshold (New th cd)) (cooldown (New th cd)) cs (AClosed 0) =
     (fst (breaker_run cs (New th cd)), abs_of (snd (breaker_run cs (New th cd))))"
  using breaker_run_refines [OF breaker_inv_New [of th cd], of cs] by (simp add: abs_of_def New_def)

lemma failures_run:
  "threshold b > failures b \<Longrightarrow> state b = StateClosed \<Longrightarrow>
     state (snd (breaker_run (map CallFailure ts) b)) = StateOpen \<longleftrightarrow>
       failures b + int (length ts) \<ge> threshold b"
proof (induction ts arbitrary: b)
  case (Cons t ts)
  have stays: "state (snd (breaker_run (map CallFailure ts) b)) = StateOpen"
    if "state b = StateOpen" "failures b \<ge> threshold b" for ts b
    using that
    by (induction ts arbitrary: b) (auto simp: Failure_def Let_def case_prod_beta)
  show ?case
  proof (cases "failures b + 1 \<ge> threshold b")
    case True
    with Cons.prems stays [of "Failure t b" ts] show ?thesis
      by (simp add: Failure_def Let_def case_prod_beta)
  next
    case False
    with Cons.prems Cons.IH [of "Failure t b"] show ?thesis
      by (simp add: Failure_def Let_def case_prod_beta) linarith
  qed
qed simp

text \<open>A new breaker that only sees failures opens with the failure that reaches the
  threshold, and not before.\<close>

theorem breaker_trips_at_threshold:
  "state (snd (breaker_run (map CallFailure ts) (New th cd))) = StateOpen \<longleftrightarrow>
     int (length ts) \<ge> (if th \<le> 0 then 5 else th)"
  using failures_run [of "New th cd" ts] by (simp add: New_def)

text \<open>Once an open breaker has admitted its probe, every further call is refused, whenever
  it comes, until the probe reports.\<close>

theorem breaker_single_probe:
  assumes "breaker_reachable b" "state b = StateOpen" "fst (Allow now b)"
  shows "breaker_run (map CallAllow ts) (snd (Allow now b)) =
     (replicate (length ts) False, snd (Allow now b))"
proof -
  let ?b = "snd (Allow now b)"
  have "state ?b = StateHalfOpen" "probing ?b"
    using assms(2,3) by (auto simp: Allow_def split: if_splits)
  then have "Allow t ?b = (False, ?b)" for t by (simp add: Allow_def)
  then show ?thesis by (induction ts) (simp_all add: Let_def)
qed

theorem breaker_single_probe_witness:
  "breaker_run (map CallAllow [21, 500]) (snd (Allow 20 (Failure 5 (New 1 10)))) =
     ([False, False], snd (Allow 20 (Failure 5 (New 1 10))))"
proof -
  have "breaker_reachable (breaker_step (CallFailure 5) (New 1 10))"
    by (intro breaker_reachable.intros)
  then show ?thesis
    using breaker_single_probe [of "Failure 5 (New 1 10)" 20 "[21, 500]"]
    by (simp add: Allow_def Failure_def New_def numeral_2_eq_2)
qed

text \<open>The reported state tells what a call would meet: closed means admitted, open means
  refused with the breaker unchanged, and an open breaker reported half open admits the probe.\<close>

theorem breaker_State_agrees_with_Allow:
  "(State now b = StateClosed \<longrightarrow> Allow now b = (True, b)) \<and>
   (State now b = StateOpen \<longrightarrow> Allow now b = (False, b)) \<and>
   (State now b = StateHalfOpen \<and> state b = StateOpen \<longrightarrow> fst (Allow now b))"
  by (auto simp: State_def Allow_def split: if_splits breaker_state.splits)

theorem breaker_State_agrees_with_Allow_witness:
  "State 20 (Failure 5 (New 1 10)) = StateHalfOpen \<and> fst (Allow 20 (Failure 5 (New 1 10)))"
  using breaker_State_agrees_with_Allow [of 20 "Failure 5 (New 1 10)"]
  by (simp add: State_def Failure_def New_def)

end
