(* ===== verification/Strconv.thy ===== *)
theory Strconv
  imports Prelude
begin

text \<open>
  \<open>strconv.ParseInt(s, 10, 64)\<close> of Go's standard library, which the stream IDs, the query
  parameters, the environment and the migration file names go through: the digit loop of
  \<open>ParseUint\<close> with its two overflow tests, then the sign and the range of \<open>int64\<close>. \<open>Atoi\<close> accepts and
  returns the same on a 64-bit platform. Then what is used of package \<open>strings\<close>, with the white
  space and the case of ASCII.
\<close>

text \<open>\<open>None\<close> is a syntax error; out of range the result is the largest value, without reading on.\<close>

fun parse_uint :: "string \<Rightarrow> nat \<Rightarrow> nat option" where
  "parse_uint [] n = Some n"
| "parse_uint (c # cs) n =
     (if \<not> is_digit c then None
      else if n \<ge> (2 ^ 64 - 1) div 10 + 1 then Some (2 ^ 64 - 1)
      else let n1 = 10 * n + digit_val c
        in if n1 > 2 ^ 64 - 1 then Some (2 ^ 64 - 1) else parse_uint cs n1)"

text \<open>The value and whether there was no error.\<close>

definition ParseInt64 :: "string \<Rightarrow> int \<times> bool" where
  "ParseInt64 s =
     (let neg = (case s of [] \<Rightarrow> False | c # r \<Rightarrow> c = CHR ''-'');
          ds = (case s of [] \<Rightarrow> [] | c # r \<Rightarrow> if c = CHR ''-'' \<or> c = CHR ''+'' then r else s)
      in if ds = [] then (0, False)
         else case parse_uint ds 0 of
           None \<Rightarrow> (0, False)
         | Some un \<Rightarrow>
             if \<not> neg \<and> int un \<ge> 2 ^ 63 then (2 ^ 63 - 1, False)
             else if neg \<and> int un > 2 ^ 63 then (- (2 ^ 63), False)
             else (if neg then - int un else int un, True))"

definition Atoi :: "string \<Rightarrow> int option" where
  "Atoi s = (case ParseInt64 s of (n, ok) \<Rightarrow> if ok then Some n else None)"

section \<open>Strings\<close>

definition is_space :: "char \<Rightarrow> bool" where
  "is_space c \<longleftrightarrow> (of_char c :: nat) \<in> {9, 10, 11, 12, 13, 32}"

definition trim_space :: "string \<Rightarrow> string" where
  "trim_space s = rev (dropWhile is_space (rev (dropWhile is_space s)))"

definition to_lower :: "string \<Rightarrow> string" where
  "to_lower s = map (\<lambda>c. if 65 \<le> (of_char c :: nat) \<and> (of_char c :: nat) \<le> 90 then char_of ((of_char c :: nat) + 32) else c) s"

text \<open>\<open>strings.Index\<close> and \<open>strings.LastIndex\<close> of one byte.\<close>

fun index_of :: "string \<Rightarrow> string \<Rightarrow> nat option" where
  "index_of sub [] = (if sub = [] then Some 0 else None)"
| "index_of sub (c # cs) =
     (if take (length sub) (c # cs) = sub then Some 0 else map_option Suc (index_of sub cs))"

definition last_index_of :: "char \<Rightarrow> string \<Rightarrow> nat option" where
  "last_index_of c s =
     (if c \<in> set s then Some (length s - 1 - length (takeWhile (\<lambda>x. x \<noteq> c) (rev s))) else None)"

section \<open>Lemmas\<close>

lemma digits_val_bound: "foldl (\<lambda>n c. 10 * n + digit_val c) n s \<ge> n"
proof (induction s arbitrary: n)
  case (Cons c s)
  from Cons [of "10 * n + digit_val c"] show ?case by simp
qed simp

lemma parse_uint_digits:
  "list_all is_digit s \<Longrightarrow> foldl (\<lambda>n c. 10 * n + digit_val c) n s \<le> 2 ^ 64 - 1 \<Longrightarrow>
   parse_uint s n = Some (foldl (\<lambda>n c. 10 * n + digit_val c) n s)"
proof (induction s arbitrary: n)
  case (Cons c s)
  then have "10 * n + digit_val c \<le> 2 ^ 64 - 1" using digits_val_bound [of "10 * n + digit_val c" s] by simp
  moreover from this have "\<not> n \<ge> (2 ^ 64 - 1) div 10 + 1" by simp
  ultimately show ?case using Cons by simp
qed simp

lemma parse_uint_show_nat: "n < 2 ^ 64 \<Longrightarrow> parse_uint (show_nat n) 0 = Some n"
proof -
  assume n: "n < 2 ^ 64"
  have "list_all is_digit (show_nat n)" by (simp add: list_all_iff show_nat_digits)
  moreover have "foldl (\<lambda>n c. 10 * n + digit_val c) 0 (show_nat n) = n"
    using digits_val_show_nat [of n] by (simp only: digits_val_def)
  ultimately show ?thesis using parse_uint_digits [of "show_nat n" 0] n by simp
qed

lemma show_nat_no_sign: "\<exists>c r. show_nat n = c # r \<and> c \<noteq> CHR ''-'' \<and> c \<noteq> CHR ''+''"
proof -
  obtain c r where s: "show_nat n = c # r" by (cases "show_nat n") auto
  then have "is_digit c" using show_nat_digits [of c n] by simp
  then have "c \<noteq> CHR ''-'' \<and> c \<noteq> CHR ''+''" by (auto simp: is_digit_def)
  with s show ?thesis by blast
qed

lemma ParseInt64_show_nat: "n < 2 ^ 63 \<Longrightarrow> ParseInt64 (show_nat n) = (int n, True)"
proof -
  assume n: "n < 2 ^ 63"
  obtain c r where s: "show_nat n = c # r" "c \<noteq> CHR ''-''" "c \<noteq> CHR ''+''" using show_nat_no_sign by blast
  have "parse_uint (c # r) 0 = Some n" using parse_uint_show_nat [of n] n s(1) by simp
  with n s show ?thesis unfolding s(1) ParseInt64_def Let_def by (simp del: parse_uint.simps)
qed

lemma ParseInt64_show_int: "in_i64 n \<Longrightarrow> ParseInt64 (show_int n) = (n, True)"
proof (cases "n < 0")
  case True
  assume n: "in_i64 n"
  have "parse_uint (show_nat (nat (- n))) 0 = Some (nat (- n))"
    using n by (intro parse_uint_show_nat) (auto simp: in_i64_def nat_less_iff)
  with n True show ?thesis by (simp add: ParseInt64_def show_int_def in_i64_def Let_def del: parse_uint.simps)
next
  case False
  assume "in_i64 n"
  with False ParseInt64_show_nat [of "nat n"] show ?thesis by (simp add: show_int_def in_i64_def)
qed

lemma Atoi_show_int [simp]: "in_i64 n \<Longrightarrow> Atoi (show_int n) = Some n"
  by (simp add: Atoi_def ParseInt64_show_int)

lemma ParseInt64_in_range: "in_i64 (fst (ParseInt64 s))"
  by (auto simp: ParseInt64_def in_i64_def Let_def split: option.splits)

lemma index_of_append: "CHR '':'' \<notin> set sch \<Longrightarrow> index_of (CHR '':'' # sub) (sch @ CHR '':'' # sub @ rest) = Some (length sch)"
proof (induction sch)
  case (Cons c sch)
  then show ?case by (auto simp: take_Cons' split: if_splits)
qed simp

lemma last_index_of_append: "c \<notin> set rest \<Longrightarrow> last_index_of c (s @ c # rest) = Some (length s)"
proof -
  assume c: "c \<notin> set rest"
  have "takeWhile (\<lambda>x. x \<noteq> c) (rev rest @ c # rev s) = rev rest" using c by (induction rest rule: rev_induct) auto
  then show ?thesis by (simp add: last_index_of_def)
qed

lemma index_of_None: "\<not> (\<exists>a b. s = a @ sub @ b) \<Longrightarrow> index_of sub s = None"
proof (induction s)
  case (Cons c s)
  have "\<not> (\<exists>a b. s = a @ sub @ b)" using Cons.prems by (metis append_Cons)
  moreover have "take (length sub) (c # s) \<noteq> sub"
    using Cons.prems append_take_drop_id [of "length sub" "c # s"] by (metis append_Nil)
  ultimately show ?case using Cons.IH by simp
qed simp

lemma trim_space_id: "(\<And>c. c \<in> set s \<Longrightarrow> \<not> is_space c) \<Longrightarrow> trim_space s = s"
proof -
  assume s: "\<And>c. c \<in> set s \<Longrightarrow> \<not> is_space c"
  have "dropWhile is_space xs = xs" if "set xs = set s" for xs
    using s that by (cases xs) auto
  from this [of s] this [of "rev s"] show ?thesis by (simp add: trim_space_def)
qed

lemma trim_space_show_int: "trim_space (show_int n) = show_int n"
proof (rule trim_space_id)
  fix c assume "c \<in> set (show_int n)"
  then have "is_digit c \<or> c = CHR ''-''" using show_nat_digits [of c] by (auto simp: show_int_def split: if_splits)
  then show "\<not> is_space c" by (auto simp: is_digit_def is_space_def)
qed

end
