(* ===== verification/Migrate.thy ===== *)
theory Migrate
  imports Strconv
begin

text \<open>
  \<^verbatim>\<open>internal/migrate/migrate.go\<close>: reading the migration files of a directory and applying the ones
  the database does not record. The directory listing is an argument in the order \<open>os.ReadDir\<close>
  gives, by name. Postgres is a parameter: \<open>exec\<close> runs a statement or fails, and the two queries
  read the database; a transaction works on a copy that the commit makes current.
\<close>

section \<open>Reading the files\<close>

text \<open>A file with its contents, \<open>None\<close> when reading it fails.\<close>

record dir_entry =
  entry_name :: string
  is_dir :: bool
  contents :: "string option"

record migration =
  Version :: int
  mig_Name :: string
  mig_Path :: string
  mig_SQL :: string

datatype name_error = NoVersionPrefix | VersionNotANumber string

datatype load_error = ReadDirFailed | BadName string name_error | DuplicateVersion int string string
  | ReadFileFailed string | EmptyMigration string

definition up_suffix :: string where "up_suffix = ''.up.sql''"

definition has_suffix :: "string \<Rightarrow> string \<Rightarrow> bool" where
  "has_suffix suf s \<longleftrightarrow> length suf \<le> length s \<and> drop (length s - length suf) s = suf"

definition trim_suffix :: "string \<Rightarrow> string \<Rightarrow> string" where
  "trim_suffix suf s = (if has_suffix suf s then take (length s - length suf) s else s)"

definition parseName :: "string \<Rightarrow> name_error + int \<times> string" where
  "parseName filename =
     (let base = trim_suffix up_suffix filename in
      case index_of ''_'' base of
        None \<Rightarrow> Inl NoVersionPrefix
      | Some idx \<Rightarrow>
          if idx = 0 then Inl NoVersionPrefix
          else case Atoi (take idx base) of
            None \<Rightarrow> Inl (VersionNotANumber (take idx base))
          | Some version \<Rightarrow> Inr (version, drop (idx + 1) base))"

text \<open>The loop over the entries; \<open>seen\<close> is the map from versions to file names, \<open>join\<close> is
  \<open>filepath.Join\<close>.\<close>

fun load_entries :: "(string \<Rightarrow> string \<Rightarrow> string) \<Rightarrow> string \<Rightarrow> dir_entry list \<Rightarrow> (int \<Rightarrow> string option) \<Rightarrow> migration list \<Rightarrow>
    load_error + migration list" where
  "load_entries join dir [] seen out = Inr out"
| "load_entries join dir (e # es) seen out =
     (let name = entry_name e in
      if is_dir e \<or> \<not> has_suffix up_suffix name then load_entries join dir es seen out
      else case parseName name of
        Inl err \<Rightarrow> Inl (BadName name err)
      | Inr (version, label) \<Rightarrow>
          (case seen version of
             Some prev \<Rightarrow> Inl (DuplicateVersion version prev name)
           | None \<Rightarrow>
               (let path = join dir name in
                case contents e of
                  None \<Rightarrow> Inl (ReadFileFailed path)
                | Some body \<Rightarrow>
                    if trim_space body = [] then Inl (EmptyMigration name)
                    else load_entries join dir es (seen(version \<mapsto> name))
                      (out @ [\<lparr>Version = version, mig_Name = label, mig_Path = path, mig_SQL = body\<rparr>]))))"

definition load_migrations :: "(string \<Rightarrow> string \<Rightarrow> string) \<Rightarrow> string \<Rightarrow> dir_entry list option \<Rightarrow> load_error + migration list" where
  "load_migrations join dir listing =
     (case listing of
        None \<Rightarrow> Inl ReadDirFailed
      | Some es \<Rightarrow> (case load_entries join dir es Map.empty [] of Inl e \<Rightarrow> Inl e | Inr out \<Rightarrow> Inr (sort_key Version out)))"

section \<open>Applying them\<close>

datatype mig_sql = CreateBookkeeping | RunSQL string | RecordMigration int string | AdoptMigration int string

datatype up_error = LoadFailed load_error | BookkeepingFailed | ReadVersionsFailed | ProbeFailed
  | AdoptFailed int | BeginFailed int | MigrationFailed int string | RecordFailed int | CommitFailed int

text \<open>
  \<open>pg_exec\<close> is one statement; \<open>pg_version_rows\<close> the rows of the query for the recorded versions - \<open>None\<close> where
  \<open>rows.Scan\<close> fails - with whether \<open>rows.Err()\<close> is nil, and \<open>pg_probe\<close> whether the table
  \<^verbatim>\<open>stop_times\<close> exists, each \<open>None\<close> when the query fails; \<open>pg_begin\<close> and \<open>pg_commit\<close> whether a
  transaction can be begun and committed.
\<close>

record 'db postgres =
  pg_exec :: "mig_sql \<Rightarrow> 'db \<Rightarrow> 'db option"
  pg_version_rows :: "'db \<Rightarrow> (int option list \<times> bool) option"
  pg_probe :: "'db \<Rightarrow> bool option"
  pg_begin :: "'db \<Rightarrow> bool"
  pg_commit :: "'db \<Rightarrow> bool"

text \<open>The map from recorded versions to \<open>true\<close>, as the list of its keys.\<close>

fun scan_versions :: "int option list \<Rightarrow> int list \<Rightarrow> int list option" where
  "scan_versions [] out = Some out"
| "scan_versions (None # rows) out = None"
| "scan_versions (Some v # rows) out = scan_versions rows (add_new v out)"

definition appliedVersions :: "'db postgres \<Rightarrow> 'db \<Rightarrow> int list option" where
  "appliedVersions pg db =
     (case pg_version_rows pg db of
        None \<Rightarrow> None
      | Some (rows, ok) \<Rightarrow>
          (case scan_versions rows [] of None \<Rightarrow> None | Some out \<Rightarrow> if ok then Some out else None))"

definition applyOne :: "'db postgres \<Rightarrow> migration \<Rightarrow> 'db \<Rightarrow> up_error option \<times> 'db" where
  "applyOne pg m db =
     (if \<not> pg_begin pg db then (Some (BeginFailed (Version m)), db)
      else case pg_exec pg (RunSQL (mig_SQL m)) db of
        None \<Rightarrow> (Some (MigrationFailed (Version m) (mig_Name m)), db)
      | Some tx \<Rightarrow>
          (case pg_exec pg (RecordMigration (Version m) (mig_Name m)) tx of
             None \<Rightarrow> (Some (RecordFailed (Version m)), db)
           | Some tx \<Rightarrow> if pg_commit pg tx then (None, tx) else (Some (CommitFailed (Version m)), db)))"

text \<open>Adoption runs outside any transaction: what it has recorded before a failure stays.\<close>

fun adopt_all :: "'db postgres \<Rightarrow> migration list \<Rightarrow> 'db \<Rightarrow> up_error option \<times> 'db" where
  "adopt_all pg [] db = (None, db)"
| "adopt_all pg (m # ms) db =
     (case pg_exec pg (AdoptMigration (Version m) (mig_Name m)) db of
        None \<Rightarrow> (Some (AdoptFailed (Version m)), db)
      | Some db \<Rightarrow> adopt_all pg ms db)"

definition adoptExistingSchema :: "'db postgres \<Rightarrow> migration list \<Rightarrow> 'db \<Rightarrow> (up_error + bool) \<times> 'db" where
  "adoptExistingSchema pg ms db =
     (case pg_probe pg db of
        None \<Rightarrow> (Inl ProbeFailed, db)
      | Some False \<Rightarrow> (Inr False, db)
      | Some True \<Rightarrow> (case adopt_all pg ms db of (Some e, db) \<Rightarrow> (Inl e, db) | (None, db) \<Rightarrow> (Inr True, db)))"

fun apply_all :: "'db postgres \<Rightarrow> int set \<Rightarrow> nat \<Rightarrow> migration list \<Rightarrow> 'db \<Rightarrow> nat \<times> up_error option \<times> 'db" where
  "apply_all pg applied n [] db = (n, None, db)"
| "apply_all pg applied n (m # ms) db =
     (if Version m \<in> applied then apply_all pg applied n ms db
      else case applyOne pg m db of
        (Some e, db) \<Rightarrow> (n, Some e, db)
      | (None, db) \<Rightarrow> apply_all pg applied (n + 1) ms db)"

definition Up :: "'db postgres \<Rightarrow> (string \<Rightarrow> string \<Rightarrow> string) \<Rightarrow> string \<Rightarrow> dir_entry list option \<Rightarrow> 'db \<Rightarrow> nat \<times> up_error option \<times> 'db" where
  "Up pg join dir listing db =
     (case load_migrations join dir listing of
        Inl e \<Rightarrow> (0, Some (LoadFailed e), db)
      | Inr migrations \<Rightarrow>
          if length migrations = 0 then (0, None, db)
          else case pg_exec pg CreateBookkeeping db of
            None \<Rightarrow> (0, Some BookkeepingFailed, db)
          | Some db \<Rightarrow>
              (case appliedVersions pg db of
                 None \<Rightarrow> (0, Some ReadVersionsFailed, db)
               | Some applied \<Rightarrow>
                   if length applied = 0
                   then (case adoptExistingSchema pg migrations db of
                           (Inl e, db) \<Rightarrow> (0, Some e, db)
                         | (Inr True, db) \<Rightarrow> (0, None, db)
                         | (Inr False, db) \<Rightarrow> apply_all pg {} 0 migrations db)
                   else apply_all pg (set applied) 0 migrations db))"

section \<open>Lemmas\<close>

lemma load_entries_sound:
  "load_entries join dir es seen out = Inr ms \<Longrightarrow> distinct (map Version out) \<Longrightarrow> dom seen = Version ` set out \<Longrightarrow>
     list_all (\<lambda>m. trim_space (mig_SQL m) \<noteq> []) out \<Longrightarrow>
   distinct (map Version ms) \<and> list_all (\<lambda>m. trim_space (mig_SQL m) \<noteq> []) ms"
proof (induction es arbitrary: seen out)
  case (Cons e es)
  show ?case
  proof (cases "is_dir e \<or> \<not> has_suffix up_suffix (entry_name e)")
    case True
    with Cons show ?thesis by (simp add: Let_def)
  next
    case False
    with Cons.prems(1) obtain v label body where p: "parseName (entry_name e) = Inr (v, label)" "seen v = None"
      "contents e = Some body" "trim_space body \<noteq> []"
      by (auto simp: Let_def split: sum.splits option.splits if_splits)
    let ?m = "\<lparr>Version = v, mig_Name = label, mig_Path = join dir (entry_name e), mig_SQL = body\<rparr>"
    from p(2) Cons.prems(3) have "v \<notin> Version ` set out" by blast
    with Cons.prems(2,4) p(4) have "distinct (map Version (out @ [?m]))" "list_all (\<lambda>m. trim_space (mig_SQL m) \<noteq> []) (out @ [?m])"
      by auto
    moreover have "dom (seen(v \<mapsto> entry_name e)) = Version ` set (out @ [?m])" using Cons.prems(3) by simp
    moreover have "load_entries join dir es (seen(v \<mapsto> entry_name e)) (out @ [?m]) = Inr ms"
      using False p Cons.prems(1) by (simp add: Let_def)
    ultimately show ?thesis using Cons.IH by blast
  qed
qed simp

lemma load_migrations_sound:
  assumes "load_migrations join dir listing = Inr ms"
  shows "sorted_wrt (<) (map Version ms) \<and> list_all (\<lambda>m. trim_space (mig_SQL m) \<noteq> []) ms"
proof -
  from assms obtain es out where out: "load_entries join dir es Map.empty [] = Inr out" "ms = sort_key Version out"
    by (auto simp: load_migrations_def split: option.splits sum.splits)
  from load_entries_sound [OF out(1)] have "distinct (map Version out)" "list_all (\<lambda>m. trim_space (mig_SQL m) \<noteq> []) out" by auto
  moreover have "sorted (map Version ms)" "distinct (map Version ms)"
    using calculation(1) out(2) by (simp_all add: distinct_map)
  ultimately show ?thesis using out(2) by (simp add: strict_sorted_iff list_all_iff)
qed

text \<open>The run of a list of migrations without a failure, and what the recorded versions become.\<close>

fun run_migrations :: "'db postgres \<Rightarrow> migration list \<Rightarrow> 'db \<Rightarrow> 'db option" where
  "run_migrations pg [] db = Some db"
| "run_migrations pg (m # ms) db =
     (case applyOne pg m db of (None, db) \<Rightarrow> run_migrations pg ms db | (Some e, db) \<Rightarrow> None)"

abbreviation pending_of :: "int set \<Rightarrow> migration list \<Rightarrow> migration list" where
  "pending_of applied ms \<equiv> filter (\<lambda>m. Version m \<notin> applied) ms"

lemma apply_all_pending:
  "apply_all pg applied n ms db = (n', err, db') \<Longrightarrow>
   \<exists>k. k \<le> length (pending_of applied ms) \<and> n' = n + k \<and> run_migrations pg (take k (pending_of applied ms)) db = Some db' \<and>
     (case err of None \<Rightarrow> k = length (pending_of applied ms)
      | Some e \<Rightarrow> k < length (pending_of applied ms) \<and> fst (applyOne pg (pending_of applied ms ! k) db') = Some e)"
proof (induction ms arbitrary: n db)
  case (Cons m ms)
  show ?case
  proof (cases "Version m \<in> applied")
    case True
    then have skip: "pending_of applied (m # ms) = pending_of applied ms" by simp
    from True Cons.prems have "apply_all pg applied n ms db = (n', err, db')" by simp
    from Cons.IH [OF this] show ?thesis unfolding skip .
  next
    case False
    obtain e db1 where one: "applyOne pg m db = (e, db1)" by fastforce
    show ?thesis
    proof (cases e)
      case None
      with Cons.prems False one have "apply_all pg applied (n + 1) ms db1 = (n', err, db')" by simp
      from Cons.IH [OF this] obtain k where k: "k \<le> length (pending_of applied ms)" "n' = n + 1 + k"
          "run_migrations pg (take k (pending_of applied ms)) db1 = Some db'"
          "case err of None \<Rightarrow> k = length (pending_of applied ms)
           | Some e \<Rightarrow> k < length (pending_of applied ms) \<and> fst (applyOne pg (pending_of applied ms ! k) db') = Some e"
        by blast
      with False one None show ?thesis by (intro exI [of _ "Suc k"]) (auto split: option.splits)
    next
      case (Some x)
      have "db1 = db" using one Some by (auto simp: applyOne_def split: if_splits option.splits)
      with False Cons.prems one Some show ?thesis by (intro exI [of _ 0]) auto
    qed
  qed
qed simp

lemma parseName_show:
  assumes "in_i64 v"
  shows "parseName (show_int v @ ''_'' @ label @ up_suffix) = Inr (v, label)"
proof -
  have no: "CHR ''_'' \<notin> set (show_int v)"
    using show_nat_digits [of "CHR ''_''"] by (auto simp: show_int_def is_digit_def split: if_splits)
  have ix: "CHR ''_'' \<notin> set s \<Longrightarrow> index_of ''_'' (s @ CHR ''_'' # r) = Some (length s)" for s r
    by (induction s) auto
  have "length (show_int v) \<noteq> 0" by (simp add: show_int_def)
  moreover have "trim_suffix up_suffix (show_int v @ ''_'' @ label @ up_suffix) = show_int v @ CHR ''_'' # label"
    by (simp add: trim_suffix_def has_suffix_def up_suffix_def)
  ultimately show ?thesis using ix [OF no] assms by (simp add: parseName_def Let_def)
qed

section \<open>Properties\<close>

text \<open>The name of a migration file gives its version and label back, whatever the label
  is, for every version of 64 bits.\<close>

theorem parseName_roundtrip:
  assumes "in_i64 v"
  shows "parseName (show_int v @ ''_'' @ label @ up_suffix) = Inr (v, label)"
  by (rule parseName_show [OF assms])

theorem parseName_roundtrip_witness: "parseName ''7_add_arrival_unix.up.sql'' = Inr (7, ''add_arrival_unix'')"
proof -
  have "show_int 7 = ''7''" by code_simp
  with parseName_roundtrip [of 7 "''add_arrival_unix''"] show ?thesis by (simp add: in_i64_def up_suffix_def)
qed

text \<open>C22: the migrations of a directory that loads have strictly increasing versions and none is
  empty; a migration run applies, in this order, a prefix of those the database does not record, counts
  them, and stops at the first that fails with the database as the ones before it left it.\<close>

theorem Up_applies_pending_in_order:
  assumes "load_migrations join dir listing = Inr ms" "ms \<noteq> []" "pg_exec pg CreateBookkeeping db = Some db1"
    and "appliedVersions pg db1 = Some applied" "applied \<noteq> [] \<or> pg_probe pg db1 = Some False"
    and "Up pg join dir listing db = (n, err, db')"
  shows "sorted_wrt (<) (map Version ms) \<and> list_all (\<lambda>m. trim_space (mig_SQL m) \<noteq> []) ms \<and>
    n \<le> length (pending_of (set applied) ms) \<and> run_migrations pg (take n (pending_of (set applied) ms)) db1 = Some db' \<and>
    (case err of None \<Rightarrow> n = length (pending_of (set applied) ms)
     | Some e \<Rightarrow> n < length (pending_of (set applied) ms) \<and> fst (applyOne pg (pending_of (set applied) ms ! n) db') = Some e)"
proof -
  have "apply_all pg (set applied) 0 ms db1 = (n, err, db')"
    using assms by (cases "applied = []") (auto simp: Up_def adoptExistingSchema_def)
  from apply_all_pending [OF this] load_migrations_sound [OF assms(1)] show ?thesis by auto
qed

text \<open>A database for the witnesses: the recorded versions, and whether the schema has been created.\<close>

definition demo_pg :: "(int list \<times> bool) postgres" where
  "demo_pg = \<lparr>pg_exec = (\<lambda>s (vs, made). case s of CreateBookkeeping \<Rightarrow> Some (vs, made)
       | RunSQL q \<Rightarrow> if made then None else Some (vs, True)
       | RecordMigration v l \<Rightarrow> Some (vs @ [v], made)
       | AdoptMigration v l \<Rightarrow> if v = 2 then None else Some (vs @ [v], made)),
     pg_version_rows = (\<lambda>(vs, made). Some (map Some vs, True)), pg_probe = (\<lambda>(vs, made). Some made), pg_begin = (\<lambda>db. True), pg_commit = (\<lambda>db. True)\<rparr>"

lemmas demo_defs = demo_pg_def appliedVersions_def add_new_def

definition demo_dir :: "dir_entry list" where
  "demo_dir = [\<lparr>entry_name = ''1_a.up.sql'', is_dir = False, contents = Some ''x''\<rparr>, \<lparr>entry_name = ''2_b.up.sql'', is_dir = False, contents = Some ''y''\<rparr>]"

definition demo_migrations :: "migration list" where
  "demo_migrations = [\<lparr>Version = 1, mig_Name = ''a'', mig_Path = ''1_a.up.sql'', mig_SQL = ''x''\<rparr>,
     \<lparr>Version = 2, mig_Name = ''b'', mig_Path = ''2_b.up.sql'', mig_SQL = ''y''\<rparr>]"

lemma demo_loads: "load_migrations (\<lambda>d n. n) ''m'' (Some demo_dir) = Inr demo_migrations"
proof -
  have "show_int 1 = ''1''" "show_int 2 = ''2''" by code_simp+
  with parseName_show [of 1 "''a''"] parseName_show [of 2 "''b''"]
  have "parseName ''1_a.up.sql'' = Inr (1, ''a'')" "parseName ''2_b.up.sql'' = Inr (2, ''b'')"
    by (simp_all add: in_i64_def up_suffix_def)
  moreover have "has_suffix up_suffix ''1_a.up.sql''" "has_suffix up_suffix ''2_b.up.sql''" "trim_space ''x'' = ''x''" "trim_space ''y'' = ''y''"
    by code_simp+
  ultimately show ?thesis by (simp add: load_migrations_def demo_dir_def demo_migrations_def Let_def)
qed

theorem Up_applies_pending_in_order_witness:
  "fst (Up demo_pg (\<lambda>d n. n) ''m'' (Some demo_dir) ([1], False)) = 1"
proof -
  obtain n err db' where up: "Up demo_pg (\<lambda>d n. n) ''m'' (Some demo_dir) ([1], False) = (n, err, db')" by (metis prod.collapse)
  have "err = None" using up by (auto simp: Up_def demo_loads demo_migrations_def demo_defs applyOne_def)
  with Up_applies_pending_in_order [OF demo_loads _ _ _ _ up, of "([1], False)" "[1]"] have "n = 1"
    by (simp add: demo_defs) (simp add: demo_migrations_def)
  with up show ?thesis by simp
qed

text \<open>Adopting an existing schema is not atomic: when it fails after something has been recorded, the
  next run replays the migrations that are not recorded on the tables that exist, and if the first
  of them fails there, as \<^verbatim>\<open>CREATE TABLE\<close> does, every later run fails the same way.\<close>

theorem interrupted_adoption_blocks_boot:
  assumes "load_migrations join dir listing = Inr ms" "pg_exec pg CreateBookkeeping db = Some db"
    and "appliedVersions pg db = Some applied" "applied \<noteq> []" "pending_of (set applied) ms = m # rest"
    and "pg_begin pg db" "pg_exec pg (RunSQL (mig_SQL m)) db = None"
  shows "Up pg join dir listing db = (0, Some (MigrationFailed (Version m) (mig_Name m)), db)"
proof -
  have "ms \<noteq> []" using assms(5) by auto
  moreover have "apply_all pg (set applied) 0 ms db = (0, Some (MigrationFailed (Version m) (mig_Name m)), db)"
    using assms(5) by (induction ms) (auto simp: applyOne_def assms(6,7) split: if_splits)
  ultimately show ?thesis using assms(1-4) by (simp add: Up_def)
qed

theorem interrupted_adoption_blocks_boot_witness:
  "let (n, err, db) = Up demo_pg (\<lambda>d n. n) ''m'' (Some demo_dir) ([], True)
   in err = Some (AdoptFailed 2) \<and> Up demo_pg (\<lambda>d n. n) ''m'' (Some demo_dir) db = (0, Some (MigrationFailed 2 ''b''), db)"
proof -
  have "Up demo_pg (\<lambda>d n. n) ''m'' (Some demo_dir) ([], True) = (0, Some (AdoptFailed 2), ([1], True))"
    by (simp add: Up_def demo_loads demo_migrations_def demo_defs adoptExistingSchema_def)
  moreover have "Up demo_pg (\<lambda>d n. n) ''m'' (Some demo_dir) ([1], True) = (0, Some (MigrationFailed 2 ''b''), ([1], True))"
    using interrupted_adoption_blocks_boot [OF demo_loads, of demo_pg "([1], True)" "[1]" "demo_migrations ! 1" "[]"]
    by (simp add: demo_defs demo_migrations_def)
  ultimately show ?thesis by simp
qed

end
