(* ===== verification/Dates.thy ===== *)
theory Dates
  imports Prelude
begin

text \<open>
  Calendar dates as the code uses them through Go's \<open>time\<close> package with the layout
  \<open>2006-01-02\<close>: \<open>ValidDate\<close> (\<^verbatim>\<open>internal/model/types.go\<close>) and the date window of
  \<open>computeAllowedDates\<close> (\<^verbatim>\<open>internal/raptor/engine.go\<close>). Dates are proleptic Gregorian;
  a parsed year has exactly four digits, a printed one at least four.
\<close>

datatype civil = Civil (year: int) (month: int) (mday: int)

definition is_leap :: "int \<Rightarrow> bool" where
  "is_leap y \<longleftrightarrow> y mod 4 = 0 \<and> (y mod 100 \<noteq> 0 \<or> y mod 400 = 0)"

definition days_in :: "int \<Rightarrow> int \<Rightarrow> int" where
  "days_in m y =
     (if m = 2 then (if is_leap y then 29 else 28)
      else if m = 4 \<or> m = 6 \<or> m = 9 \<or> m = 11 then 30 else 31)"

fun civil_ok :: "civil \<Rightarrow> bool" where
  "civil_ok (Civil y m d) \<longleftrightarrow> 1 \<le> m \<and> m \<le> 12 \<and> 1 \<le> d \<and> d \<le> days_in m y"

section \<open>Parsing and printing\<close>

definition num2 :: "char \<Rightarrow> char \<Rightarrow> int" where
  "num2 a b = int (10 * digit_val a + digit_val b)"

text \<open>
  \<open>time.Parse(DateLayout, s)\<close>: four digits, a dash, two digits in 1 to 12, a dash, two
  digits, nothing more; the day is checked against the month once all is read.
\<close>

fun parse_date :: "string \<Rightarrow> civil option" where
  "parse_date [y1, y2, y3, y4, h1, m1, m2, h2, d1, d2] =
     (let y = 100 * num2 y1 y2 + num2 y3 y4; m = num2 m1 m2; d = num2 d1 d2
      in if list_all is_digit [y1, y2, y3, y4, m1, m2, d1, d2] \<and>
            h1 = CHR ''-'' \<and> h2 = CHR ''-'' \<and> civil_ok (Civil y m d)
         then Some (Civil y m d) else None)"
| "parse_date _ = None"

definition ValidDate :: "string \<Rightarrow> bool" where
  "ValidDate s \<longleftrightarrow> parse_date s \<noteq> None"

text \<open>\<open>appendInt(b, x, width)\<close> of Go's \<open>time\<close> package: zero padding after the sign.\<close>

definition append_int :: "int \<Rightarrow> nat \<Rightarrow> string" where
  "append_int x w =
     (let u = show_nat (nat \<bar>x\<bar>)
      in (if x < 0 then [CHR ''-''] else []) @ replicate (w - length u) (CHR ''0'') @ u)"

fun format_date :: "civil \<Rightarrow> string" where
  "format_date (Civil y m d) =
     append_int y 4 @ [CHR ''-''] @ append_int m 2 @ [CHR ''-''] @ append_int d 2"

section \<open>Day arithmetic\<close>

fun next_day :: "civil \<Rightarrow> civil" where
  "next_day (Civil y m d) =
     (if d < days_in m y then Civil y m (d + 1)
      else if m < 12 then Civil y (m + 1) 1 else Civil (y + 1) 1 1)"

fun prev_day :: "civil \<Rightarrow> civil" where
  "prev_day (Civil y m d) =
     (if 1 < d then Civil y m (d - 1)
      else if 1 < m then Civil y (m - 1) (days_in (m - 1) y)
      else Civil (y - 1) 12 (days_in 12 (y - 1)))"

text \<open>\<open>t.AddDate(0, 0, n)\<close>.\<close>

definition add_days :: "civil \<Rightarrow> int \<Rightarrow> civil" where
  "add_days c n = (if 0 \<le> n then (next_day ^^ nat n) c else (prev_day ^^ nat (- n)) c)"

text \<open>
  \<open>computeAllowedDates\<close>: the loop runs \<open>d\<close> from \<open>-1\<close> to the window, and a malformed
  date allows itself only. The set is a Go map from strings to \<open>true\<close>.
\<close>

definition computeAllowedDates :: "string \<Rightarrow> int \<Rightarrow> string list" where
  "computeAllowedDates date windowDays =
     (case parse_date date of
        None \<Rightarrow> [date]
      | Some t \<Rightarrow>
          let w = (if windowDays < 0 then 0 else windowDays)
          in fold (\<lambda>d allowed. add_new (format_date (add_days t d)) allowed) [-1..w] [])"

section \<open>Lemmas\<close>

lemma days_in_bounds: "28 \<le> days_in m y" "days_in m y \<le> 31"
  by (auto simp: days_in_def)

lemma next_day_ok: "civil_ok c \<Longrightarrow> civil_ok (next_day c)"
  using days_in_bounds(1) [of 1] days_in_bounds(1) [of "month c + 1"]
  by (cases c) (auto simp: days_in_bounds intro: order_trans [OF _ days_in_bounds(1)])

lemma prev_day_ok: "civil_ok c \<Longrightarrow> civil_ok (prev_day c)"
  by (cases c) (auto intro: order_trans [OF _ days_in_bounds(1)])

lemma prev_next_day: "civil_ok c \<Longrightarrow> prev_day (next_day c) = c"
  by (cases c) (auto simp: days_in_def)

lemma next_prev_day: "civil_ok c \<Longrightarrow> next_day (prev_day c) = c"
  by (cases c) (auto simp: days_in_def)

lemma add_days_ok: "civil_ok c \<Longrightarrow> civil_ok (add_days c n)"
proof -
  have "civil_ok c \<Longrightarrow> civil_ok ((next_day ^^ k) c)" for k
    by (induction k) (auto simp: next_day_ok)
  moreover have "civil_ok c \<Longrightarrow> civil_ok ((prev_day ^^ k) c)" for k
    by (induction k) (auto simp: prev_day_ok)
  ultimately show "civil_ok c \<Longrightarrow> civil_ok (add_days c n)" by (simp add: add_days_def)
qed

lemma add_days_0 [simp]: "add_days c 0 = c"
  by (simp add: add_days_def)

lemma parse_date_ok: "parse_date s = Some c \<Longrightarrow> civil_ok c"
  by (induction s rule: parse_date.induct) (auto simp: Let_def simp del: civil_ok.simps split: if_splits)

text \<open>A nonempty string of digits is its value printed with zero padding to its length.\<close>

lemma digit_char_0 [simp]: "digit_char 0 = CHR ''0''"
  by code_simp

lemma show_nat_0 [simp]: "show_nat 0 = [CHR ''0'']"
  by (simp add: show_nat.simps)

lemma pad_digits:
  "s \<noteq> [] \<Longrightarrow> list_all is_digit s \<Longrightarrow>
     length (show_nat (digits_val s)) \<le> length s \<and>
     replicate (length s - length (show_nat (digits_val s))) (CHR ''0'') @ show_nat (digits_val s) = s"
proof (induction s rule: rev_induct)
  case Nil
  then show ?case by simp
next
  case (snoc c s)
  let ?v = "10 * digits_val s + digit_val c"
  from snoc.prems have c: "is_digit c" and s: "list_all is_digit s" by auto
  show ?case
  proof (cases "s = []")
    case True
    with c show ?thesis by (simp add: show_nat.simps [of "digit_val c"] digits_val_def)
  next
    case False
    note IH = snoc.IH [OF False s]
    show ?thesis
    proof (cases "?v < 10")
      case True
      then have "digits_val s = 0" by simp
      with IH have "replicate (length s - 1) (CHR ''0'') @ [CHR ''0''] = s" by simp
      then have "replicate (length s) (CHR ''0'') = s"
        using False by (metis One_nat_def Suc_pred length_greater_0_conv replicate_Suc replicate_append_same)
      moreover from c have "show_nat (digit_val c) = [c]" by (simp add: show_nat.simps [of "digit_val c"])
      ultimately show ?thesis using \<open>digits_val s = 0\<close> by simp
    next
      case False
      with c have "show_nat ?v = show_nat (digits_val s) @ [c]"
        by (simp add: show_nat.simps [of ?v])
      with IH show ?thesis by simp
    qed
  qed
qed

lemma append_int_digits:
  "length s = w \<Longrightarrow> s \<noteq> [] \<Longrightarrow> list_all is_digit s \<Longrightarrow> append_int (int (digits_val s)) w = s"
  using pad_digits [of s] by (simp add: append_int_def)

text \<open>Printing a parsed date gives the string back.\<close>

lemma format_parse_date: "parse_date s = Some c \<Longrightarrow> format_date c = s"
proof (induction s rule: parse_date.induct)
  case (1 y1 y2 y3 y4 h1 m1 m2 h2 d1 d2)
  let ?y = "100 * num2 y1 y2 + num2 y3 y4"
  from 1 have dig: "list_all is_digit [y1, y2, y3, y4]" "list_all is_digit [m1, m2]"
      "list_all is_digit [d1, d2]"
    and h: "h1 = CHR ''-''" "h2 = CHR ''-''"
    and c: "c = Civil ?y (num2 m1 m2) (num2 d1 d2)"
    by (auto simp: Let_def simp del: civil_ok.simps split: if_splits)
  have "?y = int (digits_val [y1, y2, y3, y4])"
    and n2: "num2 a b = int (digits_val [a, b])" for a b
    by (simp_all add: num2_def digits_val_def)
  with dig append_int_digits [of "[y1, y2, y3, y4]" 4] append_int_digits [of "[m1, m2]" 2]
    append_int_digits [of "[d1, d2]" 2]
  show ?case by (simp add: c h)
qed auto

lemma parse_date_inj: "parse_date s = Some c \<Longrightarrow> parse_date t = Some c \<Longrightarrow> s = t"
  by (metis format_parse_date)

text \<open>A valid date has no colon: the separator of the seat keys.\<close>

lemma ValidDate_no_colon: "ValidDate s \<Longrightarrow> CHR '':'' \<notin> set s"
  unfolding ValidDate_def
proof (induction s rule: parse_date.induct)
  case (1 y1 y2 y3 y4 h1 m1 m2 h2 d1 d2)
  moreover have "\<not> is_digit (CHR '':'')" by (simp add: is_digit_def)
  ultimately show ?case
    by (auto simp: Let_def simp del: civil_ok.simps split: if_splits)
qed auto

lemma ValidDate_length: "ValidDate s \<Longrightarrow> length s = 10"
  unfolding ValidDate_def by (induction s rule: parse_date.induct) auto

section \<open>Different days print differently\<close>

lemma digits_val_replicate_0 [simp]: "digits_val (replicate k (CHR ''0'') @ u) = digits_val u"
proof -
  have "foldl (\<lambda>n c. 10 * n + digit_val c) 0 (replicate k (CHR ''0'')) = 0"
    by (induction k) (simp_all add: digit_val_def)
  then show ?thesis by (simp add: digits_val_def)
qed

lemma append_int_chars: "c \<in> set (append_int x w) \<Longrightarrow> 0 \<le> x \<Longrightarrow> is_digit c"
  using digit_char_simps(1) [of 0] by (auto simp: append_int_def Let_def dest: show_nat_digits)

lemma digits_val_append_int [simp]: "0 \<le> x \<Longrightarrow> digits_val (append_int x w) = nat x"
  by (simp add: append_int_def Let_def)

lemma append_int_neg: "x < 0 \<Longrightarrow> append_int x w = CHR ''-'' # append_int (- x) w"
  by (simp add: append_int_def Let_def)

lemma append_int_not_minus: "0 \<le> x \<Longrightarrow> append_int x w \<noteq> CHR ''-'' # s"
  using append_int_chars [of "CHR ''-''" x w] by (metis list.set_intros(1) minus_not_digit)

lemma append_int_inject: "append_int x w = append_int y w \<longleftrightarrow> x = y"
proof
  have pos: "append_int x w = append_int y w \<Longrightarrow> 0 \<le> x \<Longrightarrow> 0 \<le> y \<Longrightarrow> x = y" for x y
    by (metis digits_val_append_int eq_nat_nat_iff)
  assume eq: "append_int x w = append_int y w"
  consider "0 \<le> x" "0 \<le> y" | "x < 0" "y < 0" | "x < 0" "0 \<le> y" | "0 \<le> x" "y < 0" by linarith
  then show "x = y"
  proof cases
    case 1
    with eq pos show ?thesis by blast
  next
    case 2
    with eq have "append_int (- x) w = append_int (- y) w" by (simp add: append_int_neg)
    with 2 pos [of "- x" "- y"] show ?thesis by simp
  next
    case 3
    with eq append_int_not_minus [of y w] show ?thesis by (metis append_int_neg)
  next
    case 4
    with eq append_int_not_minus [of x w] show ?thesis by (metis append_int_neg)
  qed
qed simp

lemma length_append_int_2: "0 \<le> x \<Longrightarrow> x < 100 \<Longrightarrow> length (append_int x 2) = 2"
  by (auto simp: append_int_def Let_def show_nat.simps [of "nat x"] show_nat.simps [of "nat x div 10"])

lemma format_date_inject:
  assumes "civil_ok c" "civil_ok c'" "format_date c = format_date c'"
  shows "c = c'"
proof (cases c, cases c')
  fix y m d y' m' d'
  assume c: "c = Civil y m d" "c' = Civil y' m' d'"
  have b: "0 \<le> m" "m < 100" "0 \<le> m'" "m' < 100" "0 \<le> d" "d < 100" "0 \<le> d'" "d' < 100"
    using assms(1,2) days_in_bounds(2) [of m y] days_in_bounds(2) [of m' y'] by (auto simp: c)
  then have "length (append_int m 2) = length (append_int m' 2)"
    "length (append_int d 2) = length (append_int d' 2)" by (simp_all add: length_append_int_2)
  with assms(3) have "append_int y 4 = append_int y' 4" "append_int m 2 = append_int m' 2"
    "append_int d 2 = append_int d' 2" by (auto simp: c)
  then show "c = c'" by (simp add: c append_int_inject)
qed

lemma set_computeAllowedDates:
  "set (computeAllowedDates date w) =
     (case parse_date date of None \<Rightarrow> {date}
      | Some t \<Rightarrow> (\<lambda>d. format_date (add_days t d)) ` {-1..max 0 w})"
proof -
  have "set (fold (\<lambda>d allowed. add_new (f d) allowed) ds acc) = set acc \<union> f ` set ds"
    for f :: "int \<Rightarrow> string" and ds acc
    by (induction ds arbitrary: acc) auto
  then show ?thesis
    by (auto simp: computeAllowedDates_def Let_def max_def split: option.splits)
qed

lemma distinct_computeAllowedDates: "distinct (computeAllowedDates date w)"
proof -
  have "distinct (fold (\<lambda>d allowed. add_new (f d) allowed) ds acc)" if "distinct acc"
    for f :: "int \<Rightarrow> string" and ds acc
    using that by (induction ds arbitrary: acc) auto
  then show ?thesis by (auto simp: computeAllowedDates_def Let_def split: option.splits)
qed

text \<open>
  A date that parses is allowed exactly when it is one of the days from the eve of the search
  date to the end of the window.
\<close>

lemma mem_computeAllowedDates:
  assumes "parse_date date = Some t" "parse_date s = Some c"
  shows "s \<in> set (computeAllowedDates date w) \<longleftrightarrow> (\<exists>d \<in> {-1..max 0 w}. c = add_days t d)"
proof -
  have "format_date c = s" "civil_ok c" "civil_ok t"
    using assms by (auto intro: format_parse_date parse_date_ok)
  then have "s = format_date (add_days t d) \<longleftrightarrow> c = add_days t d" for d
    using format_date_inject add_days_ok by metis
  then show ?thesis using assms by (auto simp: set_computeAllowedDates)
qed

lemma date_in_computeAllowedDates: "date \<in> set (computeAllowedDates date w)"
proof (cases "parse_date date")
  case (Some t)
  then have "date = format_date (add_days t 0)" by (simp add: format_parse_date)
  then show ?thesis using Some
    by (auto simp: set_computeAllowedDates intro!: image_eqI [of _ _ 0])
qed (simp add: set_computeAllowedDates)

section \<open>Properties\<close>

text \<open>A search may use a calendar date exactly when it is one of the days from the eve of the
  search date to the end of the window, and a malformed search date allows itself alone.\<close>

theorem computeAllowedDates_window:
  assumes "parse_date s = Some c"
  shows "s \<in> set (computeAllowedDates date w) \<longleftrightarrow>
    (case parse_date date of None \<Rightarrow> s = date | Some t \<Rightarrow> \<exists>d \<in> {-1..max 0 w}. c = add_days t d)"
proof (cases "parse_date date")
  case (Some t)
  show ?thesis using mem_computeAllowedDates [OF Some assms, of w] Some by simp
qed (simp add: set_computeAllowedDates)

theorem computeAllowedDates_window_witness:
  "''2024-02-29'' \<in> set (computeAllowedDates ''2024-03-01'' 2)"
proof -
  have p: "parse_date ''2024-02-29'' = Some (Civil 2024 2 29)" "parse_date ''2024-03-01'' = Some (Civil 2024 3 1)"
    by code_simp+
  have "Civil 2024 2 29 = add_days (Civil 2024 3 1) (-1)"
    by (simp add: add_days_def days_in_def is_leap_def)
  then have "\<exists>d \<in> {-1..max 0 (2::int)}. Civil 2024 2 29 = add_days (Civil 2024 3 1) d"
    by (intro bexI [of _ "-1"]) simp_all
  with computeAllowedDates_window [OF p(1), of "''2024-03-01''" 2, unfolded p(2) option.case]
  show ?thesis by (rule iffD2)
qed

end
