(* ===== verification/Domain_Types.thy ===== *)
theory Domain_Types
  imports Dates
begin

text \<open>
  The domain types of \<^verbatim>\<open>internal/model/types.go\<close> and their helper functions: trip keys,
  stop times, seat signals, routes, footpaths, search parameters, legs and paths, and the Redis
  key format. Strings are byte strings, \<open>int\<close> and \<open>int64\<close> are \<open>int\<close>, a Go map
  the code ranges over is a \<open>gomap\<close>.
\<close>

section \<open>Search tuning defaults\<close>

definition DefaultMaxRounds :: int where "DefaultMaxRounds = 4"
definition MaxAllowedRounds :: int where "MaxAllowedRounds = 8"
definition DefaultMinTransferSeconds :: int where "DefaultMinTransferSeconds = 0"
definition DefaultDateWindowDays :: int where "DefaultDateWindowDays = 2"
definition MaxPassengers :: int where "MaxPassengers = 20"

section \<open>Schedule types\<close>

datatype trip_key = TripKey (TripID: string) (Date: string)

record stop_time =
  st_TripID :: string
  st_Date :: string
  st_StopSeq :: int
  st_StationID :: string
  st_ArrivalUnix :: int
  st_DepartureUnix :: int

text \<open>The snapshot timestamp is a \<open>float64\<close> of unix seconds, kept as a rational.\<close>

type_synonym seat_map = "(string, int) gomap"

record seat_signal =
  ByClass :: seat_map
  Total :: int
  Stale :: bool
  SnapshotTs :: rat

record route_entry =
  RouteID :: string
  StopIDs :: "string list"
  TripKeys :: "trip_key list"

record trip_stop_times =
  Key :: trip_key
  Arrivals :: "int list"
  Departures :: "int list"
  StationIDs :: "string list"

record trip_location =
  tl_RouteIdx :: int
  tl_TripIdx :: int

datatype footpath = Footpath (NeighbourStop: string) (WalkSeconds: int)

text \<open>
  The order the loader sorts walk edges by: shortest walk first, then station ID.
\<close>

instantiation footpath :: linorder
begin

definition less_eq_footpath :: "footpath \<Rightarrow> footpath \<Rightarrow> bool" where
  "less_eq_footpath e f \<longleftrightarrow> (WalkSeconds e, NeighbourStop e) \<le> (WalkSeconds f, NeighbourStop f)"

definition less_footpath :: "footpath \<Rightarrow> footpath \<Rightarrow> bool" where
  "less_footpath e f \<longleftrightarrow>
     (if WalkSeconds e \<noteq> WalkSeconds f then WalkSeconds e < WalkSeconds f
      else NeighbourStop e < NeighbourStop f)"

instance
  by standard (auto simp: less_eq_footpath_def less_footpath_def less_eq_prod_def footpath.expand)

end

section \<open>Search types\<close>

record search_params =
  Origin :: string
  Destination :: string
  SearchDate :: string
  DepTime :: int
  SeatClass :: string
  Passengers :: int
  MaxRounds :: int
  MinTransferSeconds :: int
  DateWindowDays :: int

definition Rounds :: "search_params \<Rightarrow> int" where
  "Rounds p =
     (let r = MaxRounds p;
          r = (if r \<le> 0 then DefaultMaxRounds else r)
      in if r > MaxAllowedRounds then MaxAllowedRounds else r)"

definition TransferBuffer :: "search_params \<Rightarrow> int" where
  "TransferBuffer p =
     (if MinTransferSeconds p > 0 then MinTransferSeconds p else DefaultMinTransferSeconds)"

definition DateWindow :: "search_params \<Rightarrow> int" where
  "DateWindow p = (if DateWindowDays p > 0 then DateWindowDays p else DefaultDateWindowDays)"

datatype leg_kind = LegTransit | LegWalk

definition WalkRouteID :: string where "WalkRouteID = ''WALK''"

record leg =
  Kind :: leg_kind
  leg_TripID :: string
  leg_Date :: string
  leg_RouteID :: string
  BoardStation :: string
  AlightStation :: string
  DepartureUnix :: int
  ArrivalUnix :: int

record path =
  Legs :: "leg list"
  path_DepartureUnix :: int
  path_ArrivalUnix :: int
  TotalTimeSeconds :: int
  WaitSeconds :: int
  Transfers :: int
  path_WalkSeconds :: int
  path_Rounds :: int

text \<open>\<open>TransitLegs\<close> counts the legs of kind transit with a loop over the legs.\<close>

definition TransitLegs :: "path \<Rightarrow> int" where
  "TransitLegs p = fold (\<lambda>l n. if Kind l = LegTransit then n + 1 else n) (Legs p) 0"

definition Dominates :: "path \<Rightarrow> path \<Rightarrow> bool" where
  "Dominates p q \<longleftrightarrow>
     (let betterOrEqual = path_ArrivalUnix p \<le> path_ArrivalUnix q \<and> Transfers p \<le> Transfers q;
          strictly = path_ArrivalUnix p < path_ArrivalUnix q \<or> Transfers p < Transfers q
      in betterOrEqual \<and> strictly)"

section \<open>Redis seat key helpers\<close>

definition DirtyStreamKey :: string where "DirtyStreamKey = ''seat:dirty_stream''"

definition SeatTripDate :: "string \<Rightarrow> string \<Rightarrow> string" where
  "SeatTripDate tripID date = tripID @ '':'' @ date"

definition SeatMapKey :: "string \<Rightarrow> string \<Rightarrow> string" where
  "SeatMapKey tripID date = ''seat:map:'' @ tripID @ '':'' @ date"

definition SeatTSKey :: "string \<Rightarrow> string \<Rightarrow> string" where
  "SeatTSKey tripID date = ''seat:ts:'' @ tripID @ '':'' @ date"

definition SeatHashKey :: "string \<Rightarrow> string \<Rightarrow> string" where
  "SeatHashKey tripID date = ''seat:hash:'' @ tripID @ '':'' @ date"

text \<open>
  \<open>ParseSeatTripDate\<close>: the loop walks down from the last byte to the first colon it meets and
  decides there; running out of bytes is a failure.
\<close>

fun parse_seat_trip_date_from :: "string \<Rightarrow> nat \<Rightarrow> trip_key option" where
  "parse_seat_trip_date_from s 0 = None"
| "parse_seat_trip_date_from s (Suc i) =
     (if s ! i = CHR '':''
      then (let tripID = take i s; date = drop (i + 1) s
            in if tripID = [] \<or> \<not> ValidDate date then None else Some (TripKey tripID date))
      else parse_seat_trip_date_from s i)"

definition ParseSeatTripDate :: "string \<Rightarrow> trip_key option" where
  "ParseSeatTripDate s = parse_seat_trip_date_from s (length s)"

section \<open>Lemmas\<close>

lemma Rounds_bounds: "1 \<le> Rounds p" "Rounds p \<le> MaxAllowedRounds"
  by (auto simp: Rounds_def DefaultMaxRounds_def MaxAllowedRounds_def Let_def)

lemma TransferBuffer_nonneg: "0 \<le> TransferBuffer p"
  by (simp add: TransferBuffer_def DefaultMinTransferSeconds_def)

lemma DateWindow_pos: "1 \<le> DateWindow p"
  by (simp add: DateWindow_def DefaultDateWindowDays_def)

lemma TransitLegs_eq: "TransitLegs p = int (length (filter (\<lambda>l. Kind l = LegTransit) (Legs p)))"
proof -
  have "fold (\<lambda>l n. if Kind l = LegTransit then n + 1 else n) ls n =
      n + int (length (filter (\<lambda>l. Kind l = LegTransit) ls))" for ls :: "leg list" and n :: int
    by (induction ls arbitrary: n) auto
  then show ?thesis by (simp add: TransitLegs_def)
qed

lemma Dominates_iff:
  "Dominates p q \<longleftrightarrow> path_ArrivalUnix p \<le> path_ArrivalUnix q \<and> Transfers p \<le> Transfers q \<and>
     (path_ArrivalUnix p, Transfers p) \<noteq> (path_ArrivalUnix q, Transfers q)"
  by (auto simp: Dominates_def Let_def)

lemma parse_seat_trip_date_from_colon:
  "CHR '':'' \<notin> set date \<Longrightarrow>
     parse_seat_trip_date_from (t @ CHR '':'' # date) (length t + 1 + k) =
     (if k \<le> length date
      then (if t = [] \<or> \<not> ValidDate date then None else Some (TripKey t date))
      else parse_seat_trip_date_from (t @ CHR '':'' # date) (length t + 1 + k))"
proof (induction k)
  case (Suc k)
  show ?case
  proof (cases "Suc k \<le> length date")
    case True
    then have "date ! k \<in> set date" by simp
    with Suc.prems have "date ! k \<noteq> CHR '':''" by metis
    with Suc True show ?thesis by (simp add: nth_append)
  qed simp
qed (simp add: nth_append Let_def)

lemma ParseSeatTripDate_append:
  "CHR '':'' \<notin> set date \<Longrightarrow>
     ParseSeatTripDate (t @ CHR '':'' # date) =
     (if t = [] \<or> \<not> ValidDate date then None else Some (TripKey t date))"
  using parse_seat_trip_date_from_colon [of date t "length date"]
  by (simp add: ParseSeatTripDate_def)

lemma parse_seat_trip_date_from_Some:
  "parse_seat_trip_date_from s n = Some k \<Longrightarrow> n \<le> length s \<Longrightarrow>
     s = TripID k @ CHR '':'' # Date k \<and> TripID k \<noteq> [] \<and> ValidDate (Date k)"
proof (induction n)
  case (Suc i)
  then have i: "i < length s" by simp
  show ?case
  proof (cases "s ! i = CHR '':''")
    case True
    with Suc.prems i id_take_nth_drop [OF i] show ?thesis by (auto simp: Let_def split: if_splits)
  next
    case False
    with Suc show ?thesis by simp
  qed
qed simp

section \<open>Properties\<close>

lemma key_suffix_inject: "length d = length d' \<Longrightarrow> p @ t @ '':'' @ d = p @ t' @ '':'' @ d' \<longleftrightarrow> t = t' \<and> d = d'"
  by (simp add: append_eq_append_conv)

text \<open>C38: parsing a seat key succeeds exactly on the strings the key helper prints for a nonempty
  trip ID and a valid date, and gives that trip and date back, colons in the trip ID included.\<close>

theorem seat_key_roundtrip:
  "ParseSeatTripDate s = Some k \<longleftrightarrow>
     s = SeatTripDate (TripID k) (Date k) \<and> TripID k \<noteq> [] \<and> ValidDate (Date k)"
  using parse_seat_trip_date_from_Some [of s "length s" k]
    ParseSeatTripDate_append [OF ValidDate_no_colon [of "Date k"], of "TripID k"]
  by (auto simp: ParseSeatTripDate_def SeatTripDate_def)

text \<open>The Redis keys of the seat hash, its timestamp and its fingerprint identify the trip and
  the date, and no two of the three ever coincide.\<close>

theorem seat_keys_injective:
  assumes "ValidDate d" "ValidDate d'"
  shows "(SeatMapKey t d = SeatMapKey t' d' \<longleftrightarrow> t = t' \<and> d = d') \<and>
    (SeatTSKey t d = SeatTSKey t' d' \<longleftrightarrow> t = t' \<and> d = d') \<and>
    (SeatHashKey t d = SeatHashKey t' d' \<longleftrightarrow> t = t' \<and> d = d') \<and>
    SeatMapKey t d \<noteq> SeatTSKey t' d' \<and> SeatMapKey t d \<noteq> SeatHashKey t' d' \<and> SeatTSKey t d \<noteq> SeatHashKey t' d'"
proof -
  have "length d = length d'" using assms by (simp add: ValidDate_length)
  note inj = key_suffix_inject [OF this]
  show ?thesis unfolding SeatMapKey_def SeatTSKey_def SeatHashKey_def inj by simp
qed

theorem seat_keys_injective_witness:
  "SeatMapKey ''T1'' ''2026-08-27'' \<noteq> SeatTSKey ''T1'' ''2026-08-27'' \<and>
   SeatMapKey ''a:2'' ''2026-08-27'' \<noteq> SeatMapKey ''a'' ''2026-08-27''"
proof -
  have "ValidDate ''2026-08-27''" by code_simp
  note inj = seat_keys_injective [OF this this]
  from inj [of "''T1''" "''T1''"] have "SeatMapKey ''T1'' ''2026-08-27'' \<noteq> SeatTSKey ''T1'' ''2026-08-27''"
    by (elim conjE)
  moreover from inj [of "''a:2''" "''a''"]
  have "SeatMapKey ''a:2'' ''2026-08-27'' \<noteq> SeatMapKey ''a'' ''2026-08-27''" by (elim conjE) simp
  ultimately show ?thesis by (rule conjI)
qed

text \<open>Dominance between journeys is a strict partial order.\<close>

theorem Dominates_strict_order: "irreflp Dominates \<and> transp Dominates"
proof
  show "irreflp Dominates" by (rule irreflpI) (simp add: Dominates_iff)
  show "transp Dominates" by (rule transpI) (auto simp: Dominates_iff)
qed

end
