(* ===== verification/Walk_Queue.thy ===== *)
theory Walk_Queue
  imports Prelude
begin

text \<open>
  The typed binary min-heap \<open>walkQueue\<close> of \<^verbatim>\<open>internal/schedule/buffer.go\<close>: a slice whose
  element \<open>i\<close> has its parent at \<open>(i - 1) / 2\<close>. \<open>push\<close> and \<open>pop\<close> are the source's
  loops over the index; \<open>pop\<close> of an empty slice indexes out of range in Go and is
  \<open>None\<close> here. The interface \<open>min_queue\<close> is what the footpath closure relies on.
\<close>

datatype walk_node = WalkNode (stop: string) (dist: int)

type_synonym walk_queue = "walk_node list"

definition swap_at :: "'a list \<Rightarrow> nat \<Rightarrow> nat \<Rightarrow> 'a list" where
  "swap_at q a b = q[a := q ! b, b := q ! a]"

function sift_up :: "walk_queue \<Rightarrow> nat \<Rightarrow> walk_queue" where
  "sift_up q i =
     (if i > 0
      then let parent = (i - 1) div 2 in
        if dist (q ! parent) \<le> dist (q ! i) then q
        else sift_up (swap_at q parent i) parent
      else q)"
  by pat_completeness auto
termination
  by (relation "measure (\<lambda>(q, i). i)") auto

definition wq_push :: "walk_node \<Rightarrow> walk_queue \<Rightarrow> walk_queue" where
  "wq_push n q = (let q = q @ [n] in sift_up q (length q - 1))"

text \<open>The index of the smallest of \<open>i\<close> and its two children below \<open>n\<close>.\<close>

definition smallest_of :: "walk_queue \<Rightarrow> nat \<Rightarrow> nat" where
  "smallest_of q i =
     (let n = length q; left = 2 * i + 1; right = 2 * i + 2; smallest = i;
          smallest = (if left < n \<and> dist (q ! left) < dist (q ! smallest) then left else smallest);
          smallest = (if right < n \<and> dist (q ! right) < dist (q ! smallest) then right else smallest)
      in smallest)"

lemma smallest_of_range: "smallest_of q i \<noteq> i \<Longrightarrow> i < smallest_of q i \<and> smallest_of q i < length q"
  by (auto simp: smallest_of_def Let_def split: if_splits)

lemma length_swap_at [simp]: "length (swap_at q a b) = length q"
  by (simp add: swap_at_def)

function sift_down :: "walk_queue \<Rightarrow> nat \<Rightarrow> walk_queue" where
  "sift_down q i =
     (let smallest = smallest_of q i in
      if smallest = i then q else sift_down (swap_at q i smallest) smallest)"
  by pat_completeness auto
termination
proof (relation "measure (\<lambda>(q, i). length q - i)")
  fix q i s
  assume "s = smallest_of q i" "s \<noteq> i"
  then show "((swap_at q i s, s), (q, i)) \<in> measure (\<lambda>(q, i). length q - i)"
    using smallest_of_range [of q i] by auto
qed simp

declare sift_up.simps [simp del] sift_down.simps [simp del]

definition wq_pop :: "walk_queue \<Rightarrow> (walk_node \<times> walk_queue) option" where
  "wq_pop old =
     (if old = [] then None
      else
        let top = old ! 0; last = length old - 1;
            q = take last (old[0 := old ! last])
        in Some (top, sift_down q 0))"

section \<open>The heap order\<close>

definition heap_ok :: "walk_queue \<Rightarrow> bool" where
  "heap_ok q \<longleftrightarrow> (\<forall>j. 0 < j \<longrightarrow> j < length q \<longrightarrow> dist (q ! ((j - 1) div 2)) \<le> dist (q ! j))"

text \<open>The order holds but between \<open>i\<close> and its parent; the children of \<open>i\<close> respect that parent.\<close>

definition heap_up :: "walk_queue \<Rightarrow> nat \<Rightarrow> bool" where
  "heap_up q i \<longleftrightarrow> i < length q \<and>
     (\<forall>j. 0 < j \<longrightarrow> j < length q \<longrightarrow> j \<noteq> i \<longrightarrow> dist (q ! ((j - 1) div 2)) \<le> dist (q ! j)) \<and>
     (\<forall>j. 0 < j \<longrightarrow> j < length q \<longrightarrow> (j - 1) div 2 = i \<longrightarrow> 0 < i \<longrightarrow>
        dist (q ! ((i - 1) div 2)) \<le> dist (q ! j))"

text \<open>The order holds but between \<open>i\<close> and its children; they respect the parent of \<open>i\<close>.\<close>

definition heap_down :: "walk_queue \<Rightarrow> nat \<Rightarrow> bool" where
  "heap_down q i \<longleftrightarrow>
     (\<forall>j. 0 < j \<longrightarrow> j < length q \<longrightarrow> (j - 1) div 2 \<noteq> i \<longrightarrow> dist (q ! ((j - 1) div 2)) \<le> dist (q ! j)) \<and>
     (\<forall>j. 0 < j \<longrightarrow> j < length q \<longrightarrow> (j - 1) div 2 = i \<longrightarrow> 0 < i \<longrightarrow>
        dist (q ! ((i - 1) div 2)) \<le> dist (q ! j))"

lemma mset_swap_at [simp]: "a < length q \<Longrightarrow> b < length q \<Longrightarrow> mset (swap_at q a b) = mset q"
  by (simp add: swap_at_def mset_swap)

lemma nth_swap_at:
  "a < length q \<Longrightarrow> b < length q \<Longrightarrow>
     swap_at q a b ! j = (if j = b then q ! a else if j = a then q ! b else q ! j)"
  by (auto simp: swap_at_def nth_list_update)

lemma sift_up_mset: "i < length q \<Longrightarrow> mset (sift_up q i) = mset q"
proof (induction q i rule: sift_up.induct)
  case (1 q i)
  then show ?case
    by (cases "i > 0") (auto simp: sift_up.simps [of q i] sift_up.simps [of q 0] Let_def)
qed

lemma heap_up_swap:
  assumes "heap_up q i" "0 < i" "\<not> dist (q ! ((i - 1) div 2)) \<le> dist (q ! i)"
  shows "heap_up (swap_at q ((i - 1) div 2) i) ((i - 1) div 2)"
proof -
  define p where "p = (i - 1) div 2"
  have i: "i < length q" and p: "p < i" using assms by (auto simp: heap_up_def p_def)
  then have nth: "swap_at q p i ! j = (if j = i then q ! p else if j = p then q ! i else q ! j)" for j
    by (simp add: nth_swap_at)
  have ord: "dist (q ! ((j - 1) div 2)) \<le> dist (q ! j)" if "0 < j" "j < length q" "j \<noteq> i" for j
    using assms(1) that by (auto simp: heap_up_def)
  have kids: "dist (q ! p) \<le> dist (q ! j)" if "0 < j" "j < length q" "(j - 1) div 2 = i" for j
    using assms(1,2) that by (auto simp: heap_up_def p_def)
  have lt: "dist (q ! i) < dist (q ! p)" using assms(3) by (simp add: p_def)
  have 1: "dist (swap_at q p i ! ((j - 1) div 2)) \<le> dist (swap_at q p i ! j)"
    if j: "0 < j" "j < length q" "j \<noteq> p" for j
  proof -
    have "(j - 1) div 2 \<noteq> j" using j by presburger
    consider "j = i" | "j \<noteq> i" "(j - 1) div 2 = i" | "j \<noteq> i" "(j - 1) div 2 = p"
      | "j \<noteq> i" "(j - 1) div 2 \<noteq> i" "(j - 1) div 2 \<noteq> p" by blast
    then show ?thesis
    proof cases
      case 1
      have "(i - Suc 0) div 2 = p" by (simp add: p_def)
      with 1 show ?thesis using lt p by (simp add: nth)
    next
      case 2
      then show ?thesis using kids [of j] j by (simp add: nth)
    next
      case 3
      then show ?thesis using ord [of j] lt j p by (simp add: nth)
    next
      case 4
      then show ?thesis using ord [of j] j by (simp add: nth)
    qed
  qed
  have 2: "dist (swap_at q p i ! ((p - 1) div 2)) \<le> dist (swap_at q p i ! j)"
    if j: "0 < j" "j < length q" "(j - 1) div 2 = p" "0 < p" for j
  proof -
    have "(p - 1) div 2 < p" "(j - 1) div 2 < j" using j(1,4) by presburger+
    then have pp: "(p - 1) div 2 \<noteq> i" "(p - 1) div 2 \<noteq> p" "j \<noteq> p" using p j(3) by auto
    have "dist (q ! ((p - 1) div 2)) \<le> dist (q ! p)" using ord [of p] j p i by simp
    then show ?thesis using ord [of j] j pp by (cases "j = i") (auto simp: nth)
  qed
  show ?thesis
    using 1 2 i p unfolding heap_up_def p_def [symmetric] by simp
qed

lemma sift_up_heap: "heap_up q i \<Longrightarrow> heap_ok (sift_up q i)"
proof (induction q i rule: sift_up.induct)
  case (1 q i)
  show ?case
  proof (cases "0 < i \<and> \<not> dist (q ! ((i - 1) div 2)) \<le> dist (q ! i)")
    case True
    then show ?thesis
      using 1 heap_up_swap [of q i] by (simp add: sift_up.simps [of q i] Let_def)
  next
    case False
    then have "sift_up q i = q" by (auto simp: sift_up.simps [of q i] Let_def)
    then show ?thesis using 1(2) False unfolding heap_up_def heap_ok_def by auto
  qed
qed

lemma wq_push_spec:
  assumes "heap_ok q"
  shows "mset (wq_push n q) = add_mset n (mset q)" "heap_ok (wq_push n q)"
proof -
  have "heap_up (q @ [n]) (length q)"
    using assms unfolding heap_up_def heap_ok_def by (auto simp: nth_append)
  then show "heap_ok (wq_push n q)" by (simp add: wq_push_def Let_def sift_up_heap)
  show "mset (wq_push n q) = add_mset n (mset q)"
    by (simp add: wq_push_def Let_def sift_up_mset)
qed

lemma smallest_of_min:
  "dist (q ! smallest_of q i) \<le> dist (q ! i)"
  "0 < j \<Longrightarrow> j < length q \<Longrightarrow> (j - 1) div 2 = i \<Longrightarrow> dist (q ! smallest_of q i) \<le> dist (q ! j)"
proof -
  show "dist (q ! smallest_of q i) \<le> dist (q ! i)" by (auto simp: smallest_of_def Let_def)
  assume "0 < j" "j < length q" "(j - 1) div 2 = i"
  then have "j = 2 * i + 1 \<or> j = 2 * i + 2" by presburger
  then show "dist (q ! smallest_of q i) \<le> dist (q ! j)"
    using \<open>j < length q\<close> by (auto simp: smallest_of_def Let_def)
qed

lemma smallest_of_child: "smallest_of q i \<noteq> i \<Longrightarrow> (smallest_of q i - 1) div 2 = i"
  by (auto simp: smallest_of_def Let_def split: if_splits)

lemma sift_down_mset: "mset (sift_down q i) = mset q"
proof (induction q i rule: sift_down.induct)
  case (1 q i)
  then show ?case
    using smallest_of_range [of q i]
    by (cases "smallest_of q i = i") (auto simp: sift_down.simps [of q i] Let_def)
qed

lemma heap_down_swap:
  assumes "heap_down q i" "smallest_of q i \<noteq> i"
  shows "heap_down (swap_at q i (smallest_of q i)) (smallest_of q i)"
proof -
  define s where "s = smallest_of q i"
  have s: "i < s" "s < length q" "(s - 1) div 2 = i"
    using smallest_of_range [OF assms(2)] smallest_of_child [OF assms(2)] by (auto simp: s_def)
  then have nth: "swap_at q i s ! j = (if j = s then q ! i else if j = i then q ! s else q ! j)" for j
    by (simp add: nth_swap_at)
  have ord: "dist (q ! ((j - 1) div 2)) \<le> dist (q ! j)"
    if "0 < j" "j < length q" "(j - 1) div 2 \<noteq> i" for j
    using assms(1) that by (auto simp: heap_down_def)
  have kids: "dist (q ! ((i - 1) div 2)) \<le> dist (q ! j)"
    if "0 < j" "j < length q" "(j - 1) div 2 = i" "0 < i" for j
    using assms(1) that by (auto simp: heap_down_def)
  have min: "dist (q ! s) \<le> dist (q ! i)"
    "\<And>j. 0 < j \<Longrightarrow> j < length q \<Longrightarrow> (j - 1) div 2 = i \<Longrightarrow> dist (q ! s) \<le> dist (q ! j)"
    using smallest_of_min [where q = q and i = i] by (simp_all add: s_def)
  have 1: "dist (swap_at q i s ! ((j - 1) div 2)) \<le> dist (swap_at q i s ! j)"
    if j: "0 < j" "j < length q" "(j - 1) div 2 \<noteq> s" for j
  proof (cases "(j - 1) div 2 = i")
    case True
    then have "j \<noteq> i" "(j - Suc 0) div 2 = i" using j by presburger+
    then show ?thesis using min(1) min(2) [OF j(1,2) True] s by (simp add: nth True)
  next
    case False
    then have "j \<noteq> s" using s by auto
    then show ?thesis using ord [OF j(1,2) False] kids [of s] j s False
      by (cases "j = i") (auto simp: nth)
  qed
  have 2: "dist (swap_at q i s ! ((s - 1) div 2)) \<le> dist (swap_at q i s ! j)"
    if j: "0 < j" "j < length q" "(j - 1) div 2 = s" for j
  proof -
    have "(j - 1) div 2 < j" using j(1) by presburger
    then have "j \<noteq> i" "j \<noteq> s" using j(3) s by auto
    then show ?thesis using ord [OF j(1,2)] j s by (simp add: nth)
  qed
  show ?thesis
    using 1 2 unfolding heap_down_def s_def [symmetric] by simp
qed

lemma sift_down_heap: "heap_down q i \<Longrightarrow> heap_ok (sift_down q i)"
proof (induction q i rule: sift_down.induct)
  case (1 q i)
  show ?case
  proof (cases "smallest_of q i = i")
    case True
    have "dist (q ! ((j - 1) div 2)) \<le> dist (q ! j)" if "0 < j" "j < length q" for j
      using 1(2) smallest_of_min(2) [OF that] that True
      by (cases "(j - 1) div 2 = i") (auto simp: heap_down_def)
    with True show ?thesis by (simp add: sift_down.simps [of q i] Let_def heap_ok_def)
  next
    case False
    then show ?thesis
      using 1 heap_down_swap [of q i] by (simp add: sift_down.simps [of q i] Let_def)
  qed
qed

lemma heap_ok_root: "heap_ok q \<Longrightarrow> j < length q \<Longrightarrow> dist (q ! 0) \<le> dist (q ! j)"
proof (induction j rule: less_induct)
  case (less j)
  show ?case
  proof (cases "j = 0")
    case False
    then have "(j - 1) div 2 < j" by presburger
    with less have "dist (q ! 0) \<le> dist (q ! ((j - 1) div 2))" by simp
    also have "\<dots> \<le> dist (q ! j)" using less.prems False by (simp add: heap_ok_def)
    finally show ?thesis .
  qed simp
qed

lemma wq_pop_Some:
  assumes "wq_pop q = Some (x, q')" "heap_ok q"
  shows "mset q = add_mset x (mset q')" "heap_ok q'" "\<forall>y \<in># mset q. dist x \<le> dist y"
proof -
  define l where "l = length q - 1"
  define t where "t = take l (q[0 := q ! l])"
  from assms(1) have q: "q \<noteq> []" "x = q ! 0" "q' = sift_down t 0"
    by (auto simp: wq_pop_def Let_def l_def t_def split: if_splits)
  then have l: "length q = Suc l" by (simp add: l_def)
  have nt: "length t = l" "\<And>j. j < l \<Longrightarrow> t ! j = (if j = 0 then q ! l else q ! j)"
    by (simp_all add: t_def l)
  have "heap_down t 0"
    using assms(2) nt l unfolding heap_down_def heap_ok_def by auto
  then show "heap_ok q'" by (simp add: q sift_down_heap)
  have "mset (swap_at q 0 l) = add_mset x (mset t)"
  proof -
    have nsw: "swap_at q 0 l ! j = (if j = l then q ! 0 else if j = 0 then q ! l else q ! j)" for j
      using l by (simp add: nth_swap_at)
    have "swap_at q 0 l = t @ [x]"
    proof (rule nth_equalityI)
      show "length (swap_at q 0 l) = length (t @ [x])" by (simp add: l nt)
      show "swap_at q 0 l ! j = (t @ [x]) ! j" if "j < length (swap_at q 0 l)" for j
        using that by (auto simp: nsw l nt nth_append q less_Suc_eq)
    qed
    then show ?thesis by simp
  qed
  then show "mset q = add_mset x (mset q')"
    using l by (simp add: q sift_down_mset)
  show "\<forall>y \<in># mset q. dist x \<le> dist y"
    using heap_ok_root [OF assms(2)] q by (auto simp: in_set_conv_nth)
qed

lemma wq_pop_None: "wq_pop q = None \<longleftrightarrow> q = []"
  by (auto simp: wq_pop_def Let_def)

lemma wq_pop_length: "wq_pop q = Some (x, q') \<Longrightarrow> length q = Suc (length q')"
proof -
  have "length (sift_down t i) = length t" for t i
    by (metis sift_down_mset size_mset)
  then show "wq_pop q = Some (x, q') \<Longrightarrow> length q = Suc (length q')"
    by (auto simp: wq_pop_def Let_def split: if_splits)
qed

section \<open>The interface of a minimum queue\<close>

text \<open>
  What Dijkstra's algorithm asks of its queue: it holds a multiset of elements, and popping
  returns one of least priority or reports that there is none.
\<close>

locale min_queue =
  fixes push :: "'a \<Rightarrow> 'q \<Rightarrow> 'q"
    and pop :: "'q \<Rightarrow> ('a \<times> 'q) option"
    and elems :: "'q \<Rightarrow> 'a multiset"
    and prio :: "'a \<Rightarrow> int"
    and queue_ok :: "'q \<Rightarrow> bool"
  assumes push_ok: "queue_ok q \<Longrightarrow> queue_ok (push x q)"
    and push_elems: "queue_ok q \<Longrightarrow> elems (push x q) = add_mset x (elems q)"
    and pop_None: "queue_ok q \<Longrightarrow> pop q = None \<longleftrightarrow> elems q = {#}"
    and pop_ok: "queue_ok q \<Longrightarrow> pop q = Some (x, q') \<Longrightarrow> queue_ok q'"
    and pop_elems: "queue_ok q \<Longrightarrow> pop q = Some (x, q') \<Longrightarrow> elems q = add_mset x (elems q')"
    and pop_min: "queue_ok q \<Longrightarrow> pop q = Some (x, q') \<Longrightarrow> y \<in># elems q \<Longrightarrow> prio x \<le> prio y"
begin

lemma pop_decreases: "queue_ok q \<Longrightarrow> pop q = Some (x, q') \<Longrightarrow> size (elems q') < size (elems q)"
  by (simp add: pop_elems)

text \<open>Popping until the queue is empty yields the elements in order of priority.\<close>

lemma pops_sorted:
  assumes "queue_ok q" "pop q = Some (x, q')" "pop q' = Some (y, q'')"
  shows "prio x \<le> prio y"
  using pop_min [OF assms(1,2), of y] pop_elems [OF assms(1,2)]
    pop_elems [OF pop_ok [OF assms(1,2)] assms(3)] by simp

lemma rest_not_smaller:
  "queue_ok q \<Longrightarrow> pop q = Some (x, q') \<Longrightarrow> y \<in># elems q' \<Longrightarrow> prio x \<le> prio y"
  using pop_min [of q x q' y] pop_elems [of q x q'] by simp

end

interpretation wq: min_queue wq_push wq_pop mset dist heap_ok
proof unfold_locales
  show "dist x \<le> dist y" if "heap_ok q" "wq_pop q = Some (x, q')" "y \<in># mset q" for q x q' y
    using wq_pop_Some(3) [OF that(2,1)] that(3) by blast
qed (auto simp: wq_push_spec wq_pop_None intro: wq_pop_Some(1,2))

section \<open>Properties\<close>

text \<open>C34: \<open>push\<close> adds its node and \<open>pop\<close> removes a node of least distance, both keeping the
  heap order; \<open>pop\<close> fails exactly on the empty queue.\<close>

theorem walk_queue_is_min_queue:
  assumes "heap_ok q"
  shows "heap_ok (wq_push n q) \<and> mset (wq_push n q) = add_mset n (mset q) \<and>
     (case wq_pop q of
        None \<Rightarrow> q = []
      | Some (x, q') \<Rightarrow> heap_ok q' \<and> mset q = add_mset x (mset q') \<and>
          list_all (\<lambda>y. dist x \<le> dist y) q)"
proof -
  have "list_all (\<lambda>y. dist x \<le> dist y) q" if "wq_pop q = Some (x, q')" for x q'
    using wq.pop_min [OF assms that] by (simp add: list_all_iff)
  then show ?thesis
    using wq.push_ok [OF assms] wq.push_elems [OF assms] wq.pop_None [OF assms]
      wq.pop_ok [OF assms] wq.pop_elems [OF assms]
    by (auto split: option.split)
qed

theorem walk_queue_is_min_queue_witness:
  "heap_ok [WalkNode ''A'' 3, WalkNode ''B'' 5] \<and>
   heap_ok (wq_push (WalkNode ''C'' 1) [WalkNode ''A'' 3, WalkNode ''B'' 5])"
proof -
  have "heap_ok [WalkNode ''A'' 3, WalkNode ''B'' 5]"
    by (auto simp: heap_ok_def less_Suc_eq)
  then show ?thesis
    using walk_queue_is_min_queue [of "[WalkNode ''A'' 3, WalkNode ''B'' 5]" "WalkNode ''C'' 1"] by blast
qed

end
