(* ===== verification/Walk_Closure.thy ===== *)
theory Walk_Closure
  imports Domain_Types Walk_Queue
begin

text \<open>
  \<open>closeFootpaths\<close> of \<^verbatim>\<open>internal/schedule/buffer.go\<close>: one bounded Dijkstra per source
  over the direct walk edges, with a binary heap and lazy deletion, sorted and truncated to the
  nearest neighbours. Go maps are association lists; the package-level maps the loop reuses are
  cleared at each source, so every source starts from empty ones.
\<close>

section \<open>Load options\<close>

definition DefaultMaxWalkSeconds :: int where "DefaultMaxWalkSeconds = 1800"
definition DefaultMaxFootpathsPerStation :: int where "DefaultMaxFootpathsPerStation = 64"

record load_options =
  MaxWalkSeconds :: int
  MaxFootpathsPerStation :: int

definition DefaultLoadOptions :: load_options where
  "DefaultLoadOptions =
     \<lparr>MaxWalkSeconds = DefaultMaxWalkSeconds, MaxFootpathsPerStation = DefaultMaxFootpathsPerStation\<rparr>"

definition withDefaults :: "load_options \<Rightarrow> load_options" where
  "withDefaults opts =
     (let opts = (if MaxWalkSeconds opts \<le> 0
                  then opts\<lparr>MaxWalkSeconds := DefaultMaxWalkSeconds\<rparr> else opts)
      in if MaxFootpathsPerStation opts \<le> 0
         then opts\<lparr>MaxFootpathsPerStation := DefaultMaxFootpathsPerStation\<rparr> else opts)"

section \<open>One source\<close>

type_synonym walk_graph = "(string, footpath list) gomap"
type_synonym dist_map = "(string, int) gomap"

text \<open>The body of the loop over \<open>direct[node.stop]\<close>.\<close>

definition relax_edge :: "int \<Rightarrow> walk_node \<Rightarrow> footpath \<Rightarrow> dist_map \<times> walk_queue \<Rightarrow> dist_map \<times> walk_queue" where
  "relax_edge maxWalk node e = (\<lambda>(ds, pq).
     let nd = i64 (dist node + WalkSeconds e) in
     if nd > maxWalk then (ds, pq)
     else if (case map_of ds (NeighbourStop e) of None \<Rightarrow> False | Some cur \<Rightarrow> nd \<ge> cur) then (ds, pq)
     else (gm_put (NeighbourStop e) nd ds, wq_push (WalkNode (NeighbourStop e) nd) pq))"

definition relax_edges :: "walk_graph \<Rightarrow> int \<Rightarrow> walk_node \<Rightarrow> dist_map \<times> walk_queue \<Rightarrow> dist_map \<times> walk_queue" where
  "relax_edges direct maxWalk node = fold (relax_edge maxWalk node) (gm_get direct (stop node) [])"

lemma relax_edges_no_edges: "stop node \<notin> set (map fst direct) \<Longrightarrow> relax_edges direct maxWalk node s = s"
  by (simp add: relax_edges_def gm_get_def map_of_eq_None_iff [THEN iffD2] split: option.split)

text \<open>The loop \<open>for len(pq) > 0\<close>; \<open>settled\<close> is a Go map to \<open>true\<close>, kept as a list.\<close>

function walk_loop :: "walk_graph \<Rightarrow> int \<Rightarrow> dist_map \<Rightarrow> string list \<Rightarrow> walk_queue \<Rightarrow> dist_map" where
  "walk_loop direct maxWalk ds settled pq =
     (case wq_pop pq of
        None \<Rightarrow> ds
      | Some (node, pq) \<Rightarrow>
          if stop node \<in> set settled then walk_loop direct maxWalk ds settled pq
          else if (case map_of ds (stop node) of None \<Rightarrow> False | Some d \<Rightarrow> dist node > d)
          then walk_loop direct maxWalk ds settled pq
          else
            let settled = stop node # settled;
                (ds, pq) = relax_edges direct maxWalk node (ds, pq)
            in walk_loop direct maxWalk ds settled pq)"
  by pat_completeness auto

termination
proof (relation "measures [\<lambda>(direct, maxWalk, ds, settled, pq). card (set (map fst direct) - set settled),
    \<lambda>(direct, maxWalk, ds, settled, pq). length pq]", goal_cases)
  case (4 direct maxWalk ds settled pq a node pq' settled' r ds' pq'')
  show ?case
  proof (cases "stop node \<in> set (map fst direct)")
    case True
    then have "set (map fst direct) - set settled' \<subset> set (map fst direct) - set settled"
      using 4 by auto
    then have "card (set (map fst direct) - set settled') < card (set (map fst direct) - set settled)"
      by (intro psubset_card_mono) auto
    then show ?thesis by simp
  next
    case False
    then have "set (map fst direct) - set settled' = set (map fst direct) - set settled" "pq'' = pq'"
      using 4 by (auto simp: relax_edges_no_edges)
    then show ?thesis using wq_pop_length [of pq node pq'] 4 by simp
  qed
qed (auto dest: wq_pop_length)

declare walk_loop.simps [simp del]

definition walk_from :: "walk_graph \<Rightarrow> int \<Rightarrow> string \<Rightarrow> dist_map" where
  "walk_from direct maxWalk src =
     walk_loop direct maxWalk (gm_put src 0 []) [] (wq_push (WalkNode src 0) [])"

text \<open>The edges of one source: every stop reached but the source, nearest first, at most \<open>cap\<close>.\<close>

definition closed_edges :: "string \<Rightarrow> dist_map \<Rightarrow> footpath list" where
  "closed_edges src ds = sort (map (\<lambda>(st, d). Footpath st d) (filter (\<lambda>(st, d). st \<noteq> src) ds))"

definition truncate_edges :: "int \<Rightarrow> footpath list \<Rightarrow> footpath list" where
  "truncate_edges cap edges = (if int (length edges) > cap then take (nat cap) edges else edges)"

definition closeFootpaths :: "walk_graph \<Rightarrow> load_options \<Rightarrow> walk_graph" where
  "closeFootpaths direct opts =
     (let opts = withDefaults opts in
      if length direct = 0 then []
      else
        fold (\<lambda>src out.
            let ds = walk_from direct (MaxWalkSeconds opts) src in
            if length ds \<le> 1 then out
            else gm_put src (truncate_edges (MaxFootpathsPerStation opts) (closed_edges src ds)) out)
          (sort (map fst direct)) [])"

section \<open>Walks and their lengths\<close>

text \<open>The specification: \<open>walks direct a b d\<close> is a chain of direct edges of total length \<open>d\<close>.\<close>

definition walk_edge :: "walk_graph \<Rightarrow> string \<Rightarrow> string \<Rightarrow> int \<Rightarrow> bool" where
  "walk_edge direct a b w \<longleftrightarrow> Footpath b w \<in> set (gm_get direct a [])"

inductive walks :: "walk_graph \<Rightarrow> string \<Rightarrow> string \<Rightarrow> int \<Rightarrow> bool" for direct a where
  walks_refl: "walks direct a a 0"
| walks_step: "walks direct a b d \<Longrightarrow> walk_edge direct b c w \<Longrightarrow> walks direct a c (d + w)"

definition shortest_walk :: "walk_graph \<Rightarrow> string \<Rightarrow> string \<Rightarrow> int \<Rightarrow> bool" where
  "shortest_walk direct a b d \<longleftrightarrow> walks direct a b d \<and> (\<forall>d'. walks direct a b d' \<longrightarrow> d \<le> d')"

text \<open>
  What the loader guarantees of the direct edges (positive walk times, a 32-bit column) and of
  the bound, so that no sum leaves 64 bits.
\<close>

definition graph_ok :: "walk_graph \<Rightarrow> bool" where
  "graph_ok direct \<longleftrightarrow> gm_ok direct \<and>
     list_all (\<lambda>(a, es). list_all (\<lambda>e. 0 < WalkSeconds e \<and> WalkSeconds e < 2 ^ 62) es) direct"

lemma graph_ok_edge:
  assumes "graph_ok direct" "walk_edge direct a b w"
  shows "0 < w \<and> w < 2 ^ 62"
proof -
  from assms(2) obtain es where es: "map_of direct a = Some es" "Footpath b w \<in> set es"
    by (cases "map_of direct a") (auto simp: walk_edge_def gm_get_def)
  from map_of_SomeD [OF es(1)] assms(1) have "list_all (\<lambda>e. 0 < WalkSeconds e \<and> WalkSeconds e < 2 ^ 62) es"
    by (fastforce simp: graph_ok_def list_all_iff)
  with es(2) show ?thesis by (fastforce simp: list_all_iff)
qed

lemma walks_nonneg: "walks direct a b d \<Longrightarrow> graph_ok direct \<Longrightarrow> 0 \<le> d"
  by (induction rule: walks.induct) (auto dest: graph_ok_edge)

lemma shortest_walk_exists:
  assumes "walks direct a b x" "graph_ok direct"
  shows "\<exists>d \<le> x. shortest_walk direct a b d"
proof -
  from ex_has_least_nat [of "walks direct a b", OF assms(1), of nat]
  obtain d where d: "walks direct a b d" "\<And>d'. walks direct a b d' \<Longrightarrow> nat d \<le> nat d'" by blast
  then have "d \<le> d'" if "walks direct a b d'" for d'
    using that walks_nonneg [OF _ assms(2)] by (metis nat_le_eq_zle order_le_less)
  with d(1) assms(1) show ?thesis by (auto simp: shortest_walk_def)
qed

lemma walks_trans: "walks direct b c d' \<Longrightarrow> walks direct a b d \<Longrightarrow> walks direct a c (d + d')"
proof (induction rule: walks.induct)
  case (walks_step c d' e w)
  then have "walks direct a e (d + d' + w)" by (blast intro: walks.walks_step)
  then show ?case by (simp add: add.assoc)
qed simp

section \<open>The loop invariant\<close>

text \<open>
  \<open>S\<close> holds the settled stops and \<open>R\<close> those whose edges have been relaxed. Every recorded
  distance is the length of some walk within the bound; an unsettled stop waits in the queue at
  its recorded distance; settled stops are no farther than anything queued.
\<close>

definition walk_inv :: "walk_graph \<Rightarrow> int \<Rightarrow> string \<Rightarrow> string set \<Rightarrow> string set \<Rightarrow> dist_map \<Rightarrow> walk_queue \<Rightarrow> bool" where
  "walk_inv direct m src S R ds pq \<longleftrightarrow>
     heap_ok pq \<and> gm_ok ds \<and> map_of ds src = Some 0 \<and>
     (\<forall>u x. map_of ds u = Some x \<longrightarrow> walks direct src u x \<and> x \<le> m) \<and>
     (\<forall>n \<in> set pq. \<exists>x. map_of ds (stop n) = Some x \<and> x \<le> dist n) \<and>
     (\<forall>u x. map_of ds u = Some x \<longrightarrow> u \<notin> S \<longrightarrow> WalkNode u x \<in> set pq) \<and>
     (\<forall>u \<in> S. \<exists>x. map_of ds u = Some x \<and> (\<forall>n \<in> set pq. x \<le> dist n)) \<and>
     (\<forall>u \<in> R. \<forall>x v w. map_of ds u = Some x \<longrightarrow> walk_edge direct u v w \<longrightarrow> x + w \<le> m \<longrightarrow>
        (\<exists>y. map_of ds v = Some y \<and> y \<le> x + w))"

text \<open>What scanning one edge, or some edges, of the stop settled last leaves true.\<close>

definition scan_post :: "string set \<Rightarrow> dist_map \<Rightarrow> dist_map \<Rightarrow> bool" where
  "scan_post S ds ds' \<longleftrightarrow> (\<forall>u \<in> S. map_of ds' u = map_of ds u) \<and>
     (\<forall>u x. map_of ds u = Some x \<longrightarrow> (\<exists>y. map_of ds' u = Some y \<and> y \<le> x))"

lemma scan_post_refl [simp]: "scan_post S ds ds"
  by (auto simp: scan_post_def)

lemma scan_post_trans: "scan_post S a b \<Longrightarrow> scan_post S b c \<Longrightarrow> scan_post S a c"
  unfolding scan_post_def by (intro conjI) (metis, meson order_trans)

lemma set_wq_push: "heap_ok pq \<Longrightarrow> set (wq_push n pq) = insert n (set pq)"
  using wq.push_elems [of pq n] by (metis set_mset_add_mset_insert set_mset_mset)

lemma relax_edge_inv:
  assumes inv: "walk_inv direct m src S R ds pq" and "R \<subseteq> S" "t \<in> S"
    and t: "map_of ds t = Some d" and low: "\<And>u x. u \<in> S \<Longrightarrow> map_of ds u = Some x \<Longrightarrow> x \<le> d"
    and edge: "walk_edge direct t v w" and ok: "graph_ok direct" "m < 2 ^ 62"
    and step: "relax_edge m (WalkNode t d) (Footpath v w) (ds, pq) = (ds', pq')"
  shows "walk_inv direct m src S R ds' pq' \<and> scan_post S ds ds' \<and>
     (d + w \<le> m \<longrightarrow> (\<exists>y. map_of ds' v = Some y \<and> y \<le> d + w))"
proof -
  have d: "walks direct src t d" "d \<le> m" using inv t by (auto simp: walk_inv_def)
  have w: "0 < w" "w < 2 ^ 62" using graph_ok_edge [OF ok(1) edge] by auto
  have nd: "i64 (d + w) = d + w"
    using walks_nonneg [OF d(1) ok(1)] d(2) ok(2) w by (intro i64_plus) auto
  show ?thesis
  proof (cases "d + w > m \<or> (\<exists>cur. map_of ds v = Some cur \<and> d + w \<ge> cur)")
    case True
    then have "ds' = ds" "pq' = pq"
      using step by (auto simp: relax_edge_def nd Let_def split: if_splits option.splits)
    then show ?thesis using inv True by auto
  next
    case False
    then have eq: "ds' = gm_put v (d + w) ds" "pq' = wq_push (WalkNode v (d + w)) pq"
      using step by (auto simp: relax_edge_def nd Let_def split: if_splits option.splits)
    have m: "map_of ds' = (map_of ds)(v \<mapsto> d + w)" by (simp add: eq gomap_simps)
    have q: "set pq' = insert (WalkNode v (d + w)) (set pq)" "heap_ok pq'"
      using inv by (auto simp: eq set_wq_push walk_inv_def wq.push_ok)
    have vS: "v \<notin> S" using low [of v] False inv w by (force simp: walk_inv_def)
    have vsrc: "v \<noteq> src" using False inv walks_nonneg [OF d(1) ok(1)] w by (force simp: walk_inv_def)
    have "d + w \<le> x" if "map_of ds v = Some x" for x using False that by force
    then have post: "scan_post S ds ds'" using vS by (auto simp: scan_post_def m)
    have 1: "\<forall>u x. map_of ds' u = Some x \<longrightarrow> walks direct src u x \<and> x \<le> m"
      using inv walks_step [OF d(1) edge] False by (auto simp: m walk_inv_def)
    have 2: "\<exists>x. map_of ds' (stop n) = Some x \<and> x \<le> dist n" if "n \<in> set pq'" for n
      using that inv post unfolding walk_inv_def scan_post_def q(1)
      by (metis (no_types, lifting) insert_iff m map_upd_Some_unfold order.trans order_refl walk_node.sel(1,2))
    have 3: "\<forall>u x. map_of ds' u = Some x \<longrightarrow> u \<notin> S \<longrightarrow> WalkNode u x \<in> set pq'"
      using inv by (auto simp: m q walk_inv_def)
    have 4: "\<exists>x. map_of ds' u = Some x \<and> (\<forall>n \<in> set pq'. x \<le> dist n)" if u: "u \<in> S" for u
    proof -
      obtain x where x: "map_of ds u = Some x" "\<forall>n \<in> set pq. x \<le> dist n"
        using inv u by (auto simp: walk_inv_def)
      then have "x \<le> d + w" using low [OF u] w by force
      with x u vS show ?thesis by (auto simp: m q)
    qed
    have 5: "\<exists>y. map_of ds' b = Some y \<and> y \<le> x + k"
      if uR: "u \<in> R" and ux: "map_of ds' u = Some x" and ub: "walk_edge direct u b k" "x + k \<le> m" for u x b k
    proof -
      have "map_of ds u = Some x" using uR ux post \<open>R \<subseteq> S\<close> by (auto simp: scan_post_def)
      then obtain y where "map_of ds b = Some y" "y \<le> x + k"
        using inv uR ub unfolding walk_inv_def by blast
      then show ?thesis using post unfolding scan_post_def by (meson order_trans)
    qed
    have 0: "gm_ok ds'" "map_of ds' src = Some 0"
      using inv vsrc by (auto simp: walk_inv_def eq(1) gomap_simps)
    have "walk_inv direct m src S R ds' pq'"
      unfolding walk_inv_def using 0 1 2 3 4 5 q(2) by blast
    with post show ?thesis by (simp add: m)
  qed
qed

lemma relax_fold_inv:
  assumes "walk_inv direct m src S R ds pq" "R \<subseteq> S" "t \<in> S" "map_of ds t = Some d"
    "\<And>u x. u \<in> S \<Longrightarrow> map_of ds u = Some x \<Longrightarrow> x \<le> d" "graph_ok direct" "m < 2 ^ 62"
    "\<And>e. e \<in> set es \<Longrightarrow> walk_edge direct t (NeighbourStop e) (WalkSeconds e)"
    "fold (relax_edge m (WalkNode t d)) es (ds, pq) = (ds', pq')"
  shows "walk_inv direct m src S R ds' pq' \<and> scan_post S ds ds' \<and>
     (\<forall>e \<in> set es. d + WalkSeconds e \<le> m \<longrightarrow>
        (\<exists>y. map_of ds' (NeighbourStop e) = Some y \<and> y \<le> d + WalkSeconds e))"
  using assms
proof (induction es arbitrary: ds pq)
  case (Cons e es)
  obtain ds1 pq1 where step: "relax_edge m (WalkNode t d) e (ds, pq) = (ds1, pq1)" by fastforce
  have e: "walk_edge direct t (NeighbourStop e) (WalkSeconds e)" using Cons.prems(8) by simp
  have one: "walk_inv direct m src S R ds1 pq1" "scan_post S ds ds1"
    "d + WalkSeconds e \<le> m \<longrightarrow> (\<exists>y. map_of ds1 (NeighbourStop e) = Some y \<and> y \<le> d + WalkSeconds e)"
    using relax_edge_inv [OF Cons.prems(1-5) e Cons.prems(6,7), where ds' = ds1 and pq' = pq1] step by simp_all
  have same: "map_of ds1 u = map_of ds u" if "u \<in> S" for u
    using one(2) that by (simp add: scan_post_def)
  have rest: "walk_inv direct m src S R ds' pq' \<and> scan_post S ds1 ds' \<and>
     (\<forall>e \<in> set es. d + WalkSeconds e \<le> m \<longrightarrow>
        (\<exists>y. map_of ds' (NeighbourStop e) = Some y \<and> y \<le> d + WalkSeconds e))"
    using Cons.prems same step by (intro Cons.IH [of ds1 pq1]) (auto simp: one(1))
  have "\<exists>y. map_of ds' (NeighbourStop e) = Some y \<and> y \<le> d + WalkSeconds e" if "d + WalkSeconds e \<le> m"
    using one(3) that rest unfolding scan_post_def by (meson order_trans)
  with rest one(2) show ?case by (auto intro: scan_post_trans)
qed simp

text \<open>Popping a node that is skipped keeps the invariant.\<close>

lemma walk_inv_skip:
  assumes inv: "walk_inv direct m src S R ds pq" and pop: "wq_pop pq = Some (node, pq')"
    and skip: "stop node \<in> S \<or> (\<exists>d. map_of ds (stop node) = Some d \<and> d < dist node)"
  shows "walk_inv direct m src S R ds pq'"
proof -
  have h: "heap_ok pq" using inv by (simp add: walk_inv_def)
  have q: "set pq = insert node (set pq')" "heap_ok pq'"
    using wq.pop_elems [OF h pop] wq.pop_ok [OF h pop]
    by (metis set_mset_add_mset_insert set_mset_mset, simp)
  have "WalkNode u x \<in> set pq'" if "map_of ds u = Some x" "u \<notin> S" for u x
    using inv that skip q(1) unfolding walk_inv_def
    by (metis insert_iff less_irrefl option.inject walk_node.sel)
  then show ?thesis using inv q unfolding walk_inv_def by auto
qed

text \<open>Settling a node and relaxing its edges keeps the invariant.\<close>

lemma walk_inv_settle:
  assumes inv: "walk_inv direct m src S S ds pq" and pop: "wq_pop pq = Some (node, pq1)"
    and new: "stop node \<notin> S" "\<not> (\<exists>d. map_of ds (stop node) = Some d \<and> d < dist node)"
    and ok: "graph_ok direct" "m < 2 ^ 62"
    and scan: "relax_edges direct m node (ds, pq1) = (ds', pq')"
  shows "walk_inv direct m src (insert (stop node) S) (insert (stop node) S) ds' pq'"
proof -
  let ?t = "stop node" and ?d = "dist node" and ?S = "insert (stop node) S"
  have h: "heap_ok pq" using inv by (simp add: walk_inv_def)
  have q: "set pq = insert node (set pq1)" "heap_ok pq1"
    using wq.pop_elems [OF h pop] wq.pop_ok [OF h pop]
    by (metis set_mset_add_mset_insert set_mset_mset, simp)
  have min: "?d \<le> dist n" if "n \<in> set pq" for n using wq.pop_min [OF h pop] that by simp
  obtain x where "map_of ds ?t = Some x" "x \<le> ?d" using inv q unfolding walk_inv_def by auto
  with new(2) have t: "map_of ds ?t = Some ?d" by force
  have low: "x \<le> ?d" if u: "u \<in> ?S" "map_of ds u = Some x" for u x
  proof (cases "u = ?t")
    case False
    then obtain y where "map_of ds u = Some y" "\<forall>n \<in> set pq. y \<le> dist n"
      using inv u(1) unfolding walk_inv_def by blast
    then show ?thesis using u(2) q(1) by simp
  qed (use t u in simp)
  have inv1: "walk_inv direct m src ?S S ds pq1"
    using inv q t min unfolding walk_inv_def
    by (auto, metis insert_iff walk_node.sel(1))
  let ?es = "gm_get direct ?t []"
  have es: "walk_edge direct ?t (NeighbourStop e) (WalkSeconds e)" if "e \<in> set ?es" for e
    using that by (simp add: walk_edge_def)
  have "fold (relax_edge m (WalkNode ?t ?d)) ?es (ds, pq1) = (ds', pq')"
    using scan by (simp add: relax_edges_def)
  with inv1 t low ok es have "walk_inv direct m src ?S S ds' pq' \<and> scan_post ?S ds ds' \<and>
     (\<forall>e \<in> set ?es. ?d + WalkSeconds e \<le> m \<longrightarrow>
        (\<exists>y. map_of ds' (NeighbourStop e) = Some y \<and> y \<le> ?d + WalkSeconds e))"
    by (intro relax_fold_inv [where t = "?t" and pq = pq1]) auto
  then have out: "walk_inv direct m src ?S S ds' pq'" "scan_post ?S ds ds'"
    "\<And>e. e \<in> set ?es \<Longrightarrow> ?d + WalkSeconds e \<le> m \<Longrightarrow>
        \<exists>y. map_of ds' (NeighbourStop e) = Some y \<and> y \<le> ?d + WalkSeconds e"
    by blast+
  have t': "map_of ds' ?t = Some ?d" using out(2) t by (simp add: scan_post_def)
  show ?thesis
    using out(1,3) t' unfolding walk_inv_def walk_edge_def by fastforce
qed

lemma walk_loop_inv:
  "walk_inv direct m src (set settled) (set settled) ds pq \<Longrightarrow> graph_ok direct \<Longrightarrow> m < 2 ^ 62 \<Longrightarrow>
     \<exists>S. walk_inv direct m src S S (walk_loop direct m ds settled pq) []"
proof (induction direct m ds settled pq rule: walk_loop.induct)
  case (1 direct m ds settled pq)
  show ?case
  proof (cases "wq_pop pq")
    case None
    then have "walk_loop direct m ds settled pq = ds"
      by (simp add: walk_loop.simps [of direct m ds settled pq])
    moreover have "pq = []" using None by (simp add: wq_pop_None)
    ultimately show ?thesis using "1.prems" by auto
  next
    case (Some np)
    then obtain node pq1 where pop: "wq_pop pq = Some (node, pq1)" by (cases np) auto
    note eq = walk_loop.simps [of direct m ds settled pq, unfolded pop option.case prod.case]
    show ?thesis
    proof (cases "stop node \<in> set settled")
      case True
      then show ?thesis
        using "1.IH"(1) [OF pop refl True] walk_inv_skip [OF "1.prems"(1) pop] "1.prems" by (simp add: eq)
    next
      case False
      show ?thesis
      proof (cases "case map_of ds (stop node) of None \<Rightarrow> False | Some d \<Rightarrow> dist node > d")
        case True
        then have "\<exists>d. map_of ds (stop node) = Some d \<and> d < dist node" by (simp split: option.splits)
        then show ?thesis
          using "1.IH"(2) [OF pop refl False True] walk_inv_skip [OF "1.prems"(1) pop] "1.prems" False True
          by (simp add: eq)
      next
        case fresh: False
        then have new: "\<not> (\<exists>d. map_of ds (stop node) = Some d \<and> d < dist node)"
          by (simp split: option.splits)
        obtain ds2 pq2 where scan: "relax_edges direct m node (ds, pq1) = (ds2, pq2)" by fastforce
        show ?thesis
          using "1.IH"(3) [OF pop refl False fresh refl scan [symmetric]]
            walk_inv_settle [OF "1.prems"(1) pop False new "1.prems"(2,3) scan] "1.prems" False fresh
          by (simp add: eq scan Let_def)
      qed
    qed
  qed
qed

section \<open>What one source finds\<close>

lemma walk_from_correct:
  assumes ok: "graph_ok direct" "0 \<le> m" "m < 2 ^ 62"
  shows "gm_ok (walk_from direct m src)"
    and "map_of (walk_from direct m src) u = Some d \<longleftrightarrow> shortest_walk direct src u d \<and> d \<le> m"
proof -
  have "walk_inv direct m src {} {} (gm_put src 0 []) (wq_push (WalkNode src 0) [])"
    using ok(2) wq.push_ok [of "[]"] set_wq_push [of "[]"]
    by (auto simp: walk_inv_def heap_ok_def gm_ok_def intro: walks_refl split: if_splits)
  with walk_loop_inv [of direct m src "[]"] ok obtain S
    where inv: "walk_inv direct m src S S (walk_from direct m src) []"
    by (auto simp: walk_from_def)
  then show "gm_ok (walk_from direct m src)" by (simp add: walk_inv_def)
  let ?ds = "walk_from direct m src"
  have sound: "walks direct src u x" "x \<le> m" "u \<in> S" if "map_of ?ds u = Some x" for u x
    using inv that by (auto simp: walk_inv_def)
  have complete: "walks direct src u x \<Longrightarrow> x \<le> m \<Longrightarrow> \<exists>y. map_of ?ds u = Some y \<and> y \<le> x" for u x
  proof (induction rule: walks.induct)
    case walks_refl
    then show ?case using inv by (auto simp: walk_inv_def)
  next
    case (walks_step b y c w)
    then have "0 < w" by (auto dest: graph_ok_edge [OF ok(1)])
    with walks_step obtain z where z: "map_of ?ds b = Some z" "z \<le> y" by auto
    moreover have "z + w \<le> m" using z(2) walks_step.prems by simp
    ultimately obtain z' where "map_of ?ds c = Some z'" "z' \<le> z + w"
      using inv sound(3) walks_step.hyps(2) unfolding walk_inv_def by blast
    then show ?case using z(2) by fastforce
  qed
  show "map_of ?ds u = Some d \<longleftrightarrow> shortest_walk direct src u d \<and> d \<le> m"
  proof
    assume d: "map_of ?ds u = Some d"
    have "d \<le> d'" if "walks direct src u d'" for d'
    proof (cases "d' \<le> m")
      case True
      then show ?thesis using complete [OF that True] d by auto
    qed (use sound(2) [OF d] in simp)
    then show "shortest_walk direct src u d \<and> d \<le> m"
      using sound [OF d] by (simp add: shortest_walk_def)
  next
    assume "shortest_walk direct src u d \<and> d \<le> m"
    then show "map_of ?ds u = Some d"
      using complete sound(1) unfolding shortest_walk_def by (metis order_antisym)
  qed
qed

section \<open>The closed graph\<close>

text \<open>The edges of \<open>a\<close> before truncation: shortest walks to other stops within the bound.\<close>

definition closed_edge :: "walk_graph \<Rightarrow> int \<Rightarrow> string \<Rightarrow> footpath \<Rightarrow> bool" where
  "closed_edge direct m a e \<longleftrightarrow>
     NeighbourStop e \<noteq> a \<and> shortest_walk direct a (NeighbourStop e) (WalkSeconds e) \<and> WalkSeconds e \<le> m"

lemma map_of_fold_put:
  "distinct ks \<Longrightarrow> map_of (fold (\<lambda>k out. if p k then out else gm_put k (f k) out) ks acc) k =
     (if k \<in> set ks \<and> \<not> p k then Some (f k) else map_of acc k)"
proof (induction ks arbitrary: acc)
  case (Cons j ks)
  then show ?case by (cases "p j") (auto simp: gomap_simps)
qed simp

lemma map_of_closeFootpaths:
  assumes "gm_ok direct"
  shows "map_of (closeFootpaths direct opts) a =
     (let opts = withDefaults opts; ds = walk_from direct (MaxWalkSeconds opts) a in
      if a \<in> set (map fst direct) \<and> \<not> length ds \<le> 1
      then Some (truncate_edges (MaxFootpathsPerStation opts) (closed_edges a ds)) else None)"
  using assms by (simp add: closeFootpaths_def Let_def gm_ok_def map_of_fold_put)

lemma set_closed_edges: "gm_ok ds \<Longrightarrow>
    e \<in> set (closed_edges a ds) \<longleftrightarrow> NeighbourStop e \<noteq> a \<and> map_of ds (NeighbourStop e) = Some (WalkSeconds e)"
  unfolding gm_ok_def closed_edges_def by (cases e) (force simp: map_of_eq_Some_iff)

lemma distinct_closed_edges: "gm_ok ds \<Longrightarrow> distinct (closed_edges a ds)"
proof -
  assume "gm_ok ds"
  then have "distinct ds" by (simp add: gm_ok_def distinct_map)
  then show ?thesis by (auto simp: closed_edges_def distinct_map intro!: inj_onI)
qed

lemma no_walk_without_key: "a \<notin> set (map fst direct) \<Longrightarrow> walks direct a b d \<Longrightarrow> b = a"
proof (rotate_tac, induction rule: walks.induct)
  case (walks_step b d c w)
  then have "map_of direct a = None" by (simp add: map_of_eq_None_iff)
  with walks_step show ?case by (simp add: walk_edge_def gm_get_def)
qed simp

lemma withDefaults_pos: "0 < MaxWalkSeconds (withDefaults opts)" "0 < MaxFootpathsPerStation (withDefaults opts)"
  by (auto simp: withDefaults_def DefaultMaxWalkSeconds_def DefaultMaxFootpathsPerStation_def Let_def)

lemma closed_edges_iff:
  assumes "graph_ok direct" "0 < m" "m < 2 ^ 62"
  shows "e \<in> set (closed_edges a (walk_from direct m a)) \<longleftrightarrow> closed_edge direct m a e"
  using walk_from_correct [OF assms(1) less_imp_le [OF assms(2)] assms(3)]
  by (simp add: set_closed_edges closed_edge_def)

text \<open>What the closure holds at \<open>a\<close>: a prefix, in sorted order, of all the closed edges.\<close>

lemma closure_at:
  assumes ok: "graph_ok direct" "MaxWalkSeconds (withDefaults opts) < 2 ^ 62"
  shows "gm_get (closeFootpaths direct opts) a [] =
     truncate_edges (MaxFootpathsPerStation (withDefaults opts))
       (closed_edges a (walk_from direct (MaxWalkSeconds (withDefaults opts)) a))"
proof -
  let ?m = "MaxWalkSeconds (withDefaults opts)"
  let ?ds = "walk_from direct ?m a"
  note wf = walk_from_correct [OF ok(1) less_imp_le [OF withDefaults_pos(1)] ok(2)]
  have src: "map_of ?ds a = Some 0"
    using wf(2) [of a a 0] withDefaults_pos(1) [of opts]
    by (auto simp: shortest_walk_def walks_refl dest: walks_nonneg [OF _ ok(1)])
  have none: "closed_edges a ?ds = []" if "a \<notin> set (map fst direct) \<or> length ?ds \<le> 1"
  proof (rule ccontr)
    assume "closed_edges a ?ds \<noteq> []"
    then obtain e where e: "e \<in> set (closed_edges a ?ds)" by (meson list.set_sel(1))
    then have ne: "NeighbourStop e \<noteq> a" "map_of ?ds (NeighbourStop e) = Some (WalkSeconds e)"
      by (auto simp: set_closed_edges wf(1))
    then have "a \<in> set (map fst direct)"
      using wf(2) no_walk_without_key by (metis shortest_walk_def)
    moreover have "{(a, 0), (NeighbourStop e, WalkSeconds e)} \<subseteq> set ?ds"
      using src ne by (auto dest: map_of_SomeD)
    then have "card {(a, 0::int), (NeighbourStop e, WalkSeconds e)} \<le> card (set ?ds)"
      by (intro card_mono) auto
    then have "2 \<le> length ?ds" using ne(1) card_length [of ?ds] by (auto split: if_splits)
    ultimately show False using that by auto
  qed
  have "gm_ok direct" using ok(1) by (simp add: graph_ok_def)
  then show ?thesis
    using none by (auto simp: gm_get_def map_of_closeFootpaths Let_def truncate_edges_def split: if_splits)
qed

lemma truncate_edges_eq: "0 < cap \<Longrightarrow> truncate_edges cap es = take (nat cap) es"
  by (auto simp: truncate_edges_def)

lemma take_sorted_less:
  "sorted es \<Longrightarrow> f \<in> set es \<Longrightarrow> f \<notin> set (take n es) \<Longrightarrow> n \<le> length es \<and> (\<forall>e \<in> set (take n es). e \<le> f)"
  by (metis append_take_drop_id le_cases sorted_append take_all UnE set_append)

section \<open>Properties\<close>

text \<open>C14: the closure gives every station its shortest walks to other stations within the bound,
  sorted by length and then by station ID; when it leaves one out it has kept as many edges as
  the cap allows, none of them longer.\<close>

theorem closeFootpaths_shortest_walks:
  assumes "graph_ok direct" "MaxWalkSeconds (withDefaults opts) < 2 ^ 62"
  shows "let es = gm_get (closeFootpaths direct opts) a [];
             valid = closed_edge direct (MaxWalkSeconds (withDefaults opts)) a
         in sorted es \<and> distinct es \<and> (\<forall>e \<in> set es. valid e) \<and>
            (\<forall>f. valid f \<longrightarrow> f \<notin> set es \<longrightarrow>
               int (length es) = MaxFootpathsPerStation (withDefaults opts) \<and> (\<forall>e \<in> set es. e \<le> f))"
proof -
  let ?m = "MaxWalkSeconds (withDefaults opts)" and ?cap = "MaxFootpathsPerStation (withDefaults opts)"
  let ?F = "closed_edges a (walk_from direct ?m a)"
  have es: "gm_get (closeFootpaths direct opts) a [] = take (nat ?cap) ?F"
    by (simp add: closure_at [OF assms] truncate_edges_eq withDefaults_pos)
  have F: "sorted ?F" "distinct ?F" "\<And>e. e \<in> set ?F \<longleftrightarrow> closed_edge direct ?m a e"
    using closed_edges_iff [OF assms(1) withDefaults_pos(1) assms(2)] distinct_closed_edges
      walk_from_correct(1) [OF assms(1) less_imp_le [OF withDefaults_pos(1)] assms(2)]
    by (simp_all add: closed_edges_def)
  have "int (length (take (nat ?cap) ?F)) = ?cap \<and> (\<forall>e \<in> set (take (nat ?cap) ?F). e \<le> f)"
    if "closed_edge direct ?m a f" "f \<notin> set (take (nat ?cap) ?F)" for f
    using take_sorted_less [OF F(1) _ that(2)] F(3) that(1) withDefaults_pos(2) [of opts] by auto
  then show ?thesis
    using F by (auto simp: Let_def es sorted_wrt_take dest: in_set_takeD)
qed

theorem closeFootpaths_shortest_walks_witness:
  "let direct = [(''A'', [Footpath ''B'' 600]), (''B'', [Footpath ''C'' 500])]
   in graph_ok direct \<and> sorted (gm_get (closeFootpaths direct DefaultLoadOptions) ''A'' [])"
proof -
  define direct where "direct = [(''A'', [Footpath ''B'' 600]), (''B'', [Footpath ''C'' 500])]"
  have "graph_ok direct" by (simp add: direct_def graph_ok_def gm_ok_def)
  moreover have "MaxWalkSeconds (withDefaults DefaultLoadOptions) < 2 ^ 62"
    by (simp add: withDefaults_def DefaultLoadOptions_def DefaultMaxWalkSeconds_def Let_def)
  ultimately show ?thesis
    using closeFootpaths_shortest_walks [of direct DefaultLoadOptions "''A''"]
    by (simp add: Let_def direct_def)
qed

text \<open>Where the cap has left nothing out, the closed graph is transitive up to the bound: two
  closed walks in a row are never shorter than a single one, which is there.\<close>

theorem closeFootpaths_transitive:
  assumes "graph_ok direct" "MaxWalkSeconds (withDefaults opts) < 2 ^ 62"
    and "Footpath b d \<in> set (gm_get (closeFootpaths direct opts) a [])"
    and "Footpath c d' \<in> set (gm_get (closeFootpaths direct opts) b [])"
    and "c \<noteq> a" "d + d' \<le> MaxWalkSeconds (withDefaults opts)"
    and "int (length (gm_get (closeFootpaths direct opts) a [])) < MaxFootpathsPerStation (withDefaults opts)"
  shows "\<exists>d''. Footpath c d'' \<in> set (gm_get (closeFootpaths direct opts) a []) \<and> d'' \<le> d + d'"
proof -
  let ?m = "MaxWalkSeconds (withDefaults opts)"
  note sw = closeFootpaths_shortest_walks [OF assms(1,2), unfolded Let_def]
  have "walks direct a b d" "walks direct b c d'"
    using sw [of a] sw [of b] assms(3,4) by (force simp: closed_edge_def shortest_walk_def)+
  then have w: "walks direct a c (d + d')" by (rule walks_trans [rotated])
  from shortest_walk_exists [OF w assms(1)]
  obtain d'' where "shortest_walk direct a c d''" "d'' \<le> d + d'" by blast
  then have "closed_edge direct ?m a (Footpath c d'')"
    using assms(5,6) by (simp add: closed_edge_def)
  then have "Footpath c d'' \<in> set (gm_get (closeFootpaths direct opts) a [])"
    using sw [of a] assms(7) by auto
  then show ?thesis using \<open>d'' \<le> d + d'\<close> by blast
qed

theorem closeFootpaths_transitive_witness:
  "let direct = [(''A'', [Footpath ''B'' 600]), (''B'', [Footpath ''C'' 500])]
   in gm_get (closeFootpaths direct DefaultLoadOptions) ''A'' [] = [Footpath ''B'' 600, Footpath ''C'' 1100] \<and>
      (\<exists>d''. Footpath ''C'' d'' \<in> set (gm_get (closeFootpaths direct DefaultLoadOptions) ''A'' []) \<and> d'' \<le> 600 + 500)"
proof -
  define direct where "direct = [(''A'', [Footpath ''B'' 600]), (''B'', [Footpath ''C'' 500])]"
  have cl: "gm_get (closeFootpaths direct DefaultLoadOptions) ''A'' [] = [Footpath ''B'' 600, Footpath ''C'' 1100]"
    "gm_get (closeFootpaths direct DefaultLoadOptions) ''B'' [] = [Footpath ''C'' 500]"
    unfolding direct_def by code_simp+
  have "graph_ok direct" by (simp add: direct_def graph_ok_def gm_ok_def)
  moreover have "MaxWalkSeconds (withDefaults DefaultLoadOptions) = 1800"
    "MaxFootpathsPerStation (withDefaults DefaultLoadOptions) = 64"
    by (simp_all add: withDefaults_def DefaultLoadOptions_def DefaultMaxWalkSeconds_def
        DefaultMaxFootpathsPerStation_def Let_def)
  ultimately show ?thesis
    using closeFootpaths_transitive [of direct DefaultLoadOptions "''B''" 600 "''A''" "''C''" 500]
    by (simp add: cl Let_def direct_def [symmetric])
qed

lemma walk_loop_relax_cong:
  "relax_edges direct = relax_edges direct' \<Longrightarrow>
     walk_loop direct w ds settled pq = walk_loop direct' w ds settled pq"
proof (induction direct w ds settled pq rule: walk_loop.induct)
  case (1 direct w ds settled pq)
  show ?case
  proof (cases "wq_pop pq")
    case None
    then show ?thesis by (simp add: walk_loop.simps [of _ w ds settled pq])
  next
    case (Some np)
    then obtain node pq1 where pop: "wq_pop pq = Some (node, pq1)" by (cases np) auto
    obtain ds2 pq2 where scan: "relax_edges direct w node (ds, pq1) = (ds2, pq2)" by fastforce
    note IH = "1.IH" [OF pop refl]
    show ?thesis
      using IH(1,2) IH(3) [OF _ _ refl scan [symmetric] refl] "1.prems" scan
      by (simp add: walk_loop.simps [of _ w ds settled pq] pop Let_def)
  qed
qed

lemma sort_mset_eq: "mset xs = mset ys \<Longrightarrow> sort xs = sort (ys :: 'a::linorder list)"
  by (metis mset_sort properties_for_sort sorted_sort)

text \<open>The result does not depend on the order in which Go ranges over the map of direct
  edges, nor on the order in which it ranges over the distances of a source.\<close>

theorem closeFootpaths_order_independent:
  assumes "gm_ok direct" "mset direct = mset direct'"
  shows "closeFootpaths direct opts = closeFootpaths direct' opts \<and>
     (mset ds = mset ds' \<longrightarrow> closed_edges src ds = closed_edges src ds')"
proof -
  have m: "gm_get direct a [] = gm_get direct' a []" for a
    using map_of_mset_eq [OF assms(2,1)] by (simp add: gm_get_def)
  have k: "mset (map fst direct) = mset (map fst direct')" using assms(2) by (metis mset_map)
  have "relax_edges direct = relax_edges direct'"
    by (intro ext) (simp add: relax_edges_def m)
  then have "walk_from direct = walk_from direct'"
    unfolding walk_from_def by (intro ext) (rule walk_loop_relax_cong)
  then have "closeFootpaths direct opts = closeFootpaths direct' opts"
    using sort_mset_eq [OF k] mset_eq_length [OF assms(2)]
    unfolding closeFootpaths_def by metis
  moreover have "closed_edges src ds = closed_edges src ds'" if "mset ds = mset ds'"
    unfolding closed_edges_def by (intro sort_mset_eq) (simp add: that)
  ultimately show ?thesis by blast
qed

theorem closeFootpaths_order_independent_witness:
  "closeFootpaths [(''A'', [Footpath ''B'' 60]), (''B'', [Footpath ''A'' 60])] DefaultLoadOptions =
   closeFootpaths [(''B'', [Footpath ''A'' 60]), (''A'', [Footpath ''B'' 60])] DefaultLoadOptions"
  using closeFootpaths_order_independent [of "[(''A'', [Footpath ''B'' 60]), (''B'', [Footpath ''A'' 60])]"
      "[(''B'', [Footpath ''A'' 60]), (''A'', [Footpath ''B'' 60])]" DefaultLoadOptions "[]" "[]" "[]"]
  by (simp add: gm_ok_def)

end
