(* ===== verification/Route_Buffer.thy ===== *)
theory Route_Buffer
  imports Walk_Closure
begin

text \<open>
  The schedule snapshot of \<^verbatim>\<open>internal/schedule/buffer.go\<close>: the route buffer and its
  statistics, the non-overtaking test \<open>computeFIFO\<close>, the trip departure lookup, the content
  hash and the publication guard. SHA-256 is a parameter; what is modelled of the hash is the
  byte string it is fed. An index Go would panic on is \<open>None\<close>.
\<close>

record route_stop =
  RouteIdx :: int
  StopPos :: int

record route_buffer =
  Routes :: "route_entry list"
  StopTimes :: "trip_stop_times list list"
  TripIndex :: "(trip_key, trip_location) gomap"
  StopToRoutes :: "(string, route_stop list) gomap"
  Footpaths :: walk_graph
  RouteFIFO :: "bool list"

record stats =
  stat_Routes :: int
  stat_Trips :: int
  stat_Stations :: int
  FootpathOrigin :: int
  NonFIFORoutes :: int

definition Stats :: "route_buffer \<Rightarrow> stats" where
  "Stats b =
     fold (\<lambda>ok s. if \<not> ok then s\<lparr>NonFIFORoutes := NonFIFORoutes s + 1\<rparr> else s) (RouteFIFO b)
       \<lparr>stat_Routes = int (length (Routes b)), stat_Trips = int (length (TripIndex b)),
        stat_Stations = int (length (StopToRoutes b)), FootpathOrigin = int (length (Footpaths b)),
        NonFIFORoutes = 0\<rparr>"

definition IsFIFO :: "route_buffer \<Rightarrow> int \<Rightarrow> bool" where
  "IsFIFO b routeIdx =
     (if routeIdx < 0 \<or> routeIdx \<ge> int (length (RouteFIFO b)) then False
      else RouteFIFO b ! nat routeIdx)"

definition newRouteBuffer :: route_buffer where
  "newRouteBuffer = \<lparr>Routes = [], StopTimes = [], TripIndex = [], StopToRoutes = [],
     Footpaths = [], RouteFIFO = []\<rparr>"

text \<open>The location is checked against the upper bounds only; a negative index panics.\<close>

definition TripDeparture :: "route_buffer \<Rightarrow> trip_key \<Rightarrow> int option" where
  "TripDeparture b key =
     (case map_of (TripIndex b) key of
        None \<Rightarrow> Some 0
      | Some loc \<Rightarrow>
          if tl_RouteIdx loc \<ge> int (length (StopTimes b)) then Some 0
          else if tl_RouteIdx loc < 0 then None
          else if tl_TripIdx loc \<ge> int (length (StopTimes b ! nat (tl_RouteIdx loc))) then Some 0
          else if tl_TripIdx loc < 0 then None
          else
            let deps = Departures (StopTimes b ! nat (tl_RouteIdx loc) ! nat (tl_TripIdx loc))
            in if length deps = 0 then Some 0 else Some (deps ! 0))"

definition GetTripDeparture :: "route_buffer \<Rightarrow> string \<Rightarrow> string \<Rightarrow> int option" where
  "GetTripDeparture live tripID date = TripDeparture live (TripKey tripID date)"

section \<open>The non-overtaking test\<close>

definition computeFIFO :: "trip_stop_times list \<Rightarrow> bool" where
  "computeFIFO trips =
     (if length trips < 2 then True
      else
        let n = length (Departures (trips ! 0)) in
        if list_ex (\<lambda>t. length (Departures t) \<noteq> n \<or> length (Arrivals t) \<noteq> n) trips then False
        else
          \<not> list_ex (\<lambda>i.
              let prev = trips ! (i - 1); curr = trips ! i
              in list_ex (\<lambda>pos. Departures curr ! pos < Departures prev ! pos \<or>
                                Arrivals curr ! pos < Arrivals prev ! pos) [0..<n]) [1..<length trips])"

text \<open>What it stands for: no trip overtakes an earlier one of the list anywhere.\<close>

definition non_overtaking :: "trip_stop_times list \<Rightarrow> bool" where
  "non_overtaking trips \<longleftrightarrow>
     (\<forall>i j. i < j \<longrightarrow> j < length trips \<longrightarrow>
        length (Departures (trips ! i)) = length (Departures (trips ! j)) \<and>
        length (Arrivals (trips ! i)) = length (Departures (trips ! i)) \<and>
        length (Arrivals (trips ! j)) = length (Departures (trips ! j)) \<and>
        (\<forall>pos < length (Departures (trips ! i)).
           Departures (trips ! i) ! pos \<le> Departures (trips ! j) ! pos \<and>
           Arrivals (trips ! i) ! pos \<le> Arrivals (trips ! j) ! pos))"

lemma adjacent_le_imp_le:
  fixes f :: "nat \<Rightarrow> int"
  assumes "\<And>i. 0 < i \<Longrightarrow> i < n \<Longrightarrow> f (i - 1) \<le> f i" "i \<le> j" "j < n"
  shows "f i \<le> f j"
  using assms(2,3)
proof (induction j rule: dec_induct)
  case (step k)
  then have "f k \<le> f (Suc k)" using assms(1) [of "Suc k"] by simp
  with step show ?case by simp
qed simp

lemma computeFIFO_iff: "computeFIFO trips \<longleftrightarrow> length trips < 2 \<or> non_overtaking trips"
proof (cases "length trips < 2")
  case False
  then have two: "1 < length trips" by simp
  define n where "n = length (Departures (trips ! 0))"
  have lens: "\<not> list_ex (\<lambda>t. length (Departures t) \<noteq> n \<or> length (Arrivals t) \<noteq> n) trips \<longleftrightarrow>
      (\<forall>i < length trips. length (Departures (trips ! i)) = n \<and> length (Arrivals (trips ! i)) = n)"
    by (auto simp: list_ex_iff all_set_conv_all_nth)
  have eq: "computeFIFO trips \<longleftrightarrow>
      (\<forall>i < length trips. length (Departures (trips ! i)) = n \<and> length (Arrivals (trips ! i)) = n) \<and>
      (\<forall>i pos. 0 < i \<longrightarrow> i < length trips \<longrightarrow> pos < n \<longrightarrow>
         Departures (trips ! (i - 1)) ! pos \<le> Departures (trips ! i) ! pos \<and>
         Arrivals (trips ! (i - 1)) ! pos \<le> Arrivals (trips ! i) ! pos)"
    using False unfolding computeFIFO_def n_def [symmetric] Let_def lens [symmetric]
    by (auto simp: list_ex_iff not_less Suc_le_eq)
  show ?thesis
  proof
    assume "computeFIFO trips"
    then have len: "\<And>i. i < length trips \<Longrightarrow> length (Departures (trips ! i)) = n \<and> length (Arrivals (trips ! i)) = n"
      and adj: "\<And>i pos. 0 < i \<Longrightarrow> i < length trips \<Longrightarrow> pos < n \<Longrightarrow>
         Departures (trips ! (i - 1)) ! pos \<le> Departures (trips ! i) ! pos \<and>
         Arrivals (trips ! (i - 1)) ! pos \<le> Arrivals (trips ! i) ! pos"
      unfolding eq by blast+
    have "Departures (trips ! i) ! pos \<le> Departures (trips ! j) ! pos \<and>
        Arrivals (trips ! i) ! pos \<le> Arrivals (trips ! j) ! pos"
      if "i < j" "j < length trips" "pos < n" for i j pos
      using adjacent_le_imp_le [of "length trips" "\<lambda>i. Departures (trips ! i) ! pos" i j]
        adjacent_le_imp_le [of "length trips" "\<lambda>i. Arrivals (trips ! i) ! pos" i j] adj that by simp
    then show "length trips < 2 \<or> non_overtaking trips"
      using len unfolding non_overtaking_def by simp
  next
    assume "length trips < 2 \<or> non_overtaking trips"
    then have no: "non_overtaking trips" using False by simp
    have len: "length (Departures (trips ! i)) = n \<and> length (Arrivals (trips ! i)) = n"
      if "i < length trips" for i
    proof (cases "i = 0")
      case True
      then show ?thesis using no two unfolding non_overtaking_def n_def by blast
    next
      case False
      then show ?thesis using no that unfolding non_overtaking_def n_def by (metis neq0_conv)
    qed
    have "Departures (trips ! (i - 1)) ! pos \<le> Departures (trips ! i) ! pos \<and>
         Arrivals (trips ! (i - 1)) ! pos \<le> Arrivals (trips ! i) ! pos"
      if "0 < i" "i < length trips" "pos < n" for i pos
    proof -
      have "i - 1 < i" "i - 1 < length trips" using that by simp_all
      then show ?thesis using no that len [of "i - 1"] unfolding non_overtaking_def by blast
    qed
    with len show "computeFIFO trips" unfolding eq by blast
  qed
qed (simp add: computeFIFO_def)

section \<open>Properties\<close>

text \<open>C35: comparing each trip with its predecessor in the departure order is enough: the test
  answers yes exactly when no trip of the list overtakes any earlier one at any stop and all of
  them serve the same number of stops.\<close>

theorem computeFIFO_detects_overtaking:
  "computeFIFO trips \<longleftrightarrow> length trips < 2 \<or> non_overtaking trips"
  by (rule computeFIFO_iff)

end
