(* ===== verification/Zone.thy ===== *)
theory Zone
  imports Route_Buffer
begin

text \<open>
  Polling urgency and the classifier sweep of \<^verbatim>\<open>internal/seat/zone.go\<close>. Durations are nanoseconds, as
  in Go. The hours to departure are a rational: the code compares them as \<open>float64\<close>, and rounding
  the quotient of two integers does not move it across 12, 48 or 168. The asynq client is a
  parameter: \<open>enqueue\<close> takes a task and the state of the queue and says whether it was accepted.
\<close>

section \<open>Zones\<close>

definition seconds :: "int \<Rightarrow> int" where "seconds n = n * 10 ^ 9"
definition minutes :: "int \<Rightarrow> int" where "minutes n = seconds (60 * n)"
definition hours :: "int \<Rightarrow> int" where "hours n = minutes (60 * n)"

record zone =
  Name :: string
  MaxHours :: rat
  Interval :: int

text \<open>\<open>math.MaxFloat64\<close>.\<close>

definition max_float64 :: rat where "max_float64 = of_int ((2 ^ 53 - 1) * 2 ^ 971)"

definition Zones :: "zone list" where
  "Zones =
     [\<lparr>Name = ''RED'', MaxHours = 12, Interval = minutes 5\<rparr>,
      \<lparr>Name = ''YELLOW'', MaxHours = 48, Interval = minutes 30\<rparr>,
      \<lparr>Name = ''GREEN'', MaxHours = 168, Interval = hours 4\<rparr>,
      \<lparr>Name = ''COLD'', MaxHours = max_float64, Interval = hours 24\<rparr>]"

definition ClassifyZone :: "int \<Rightarrow> int \<Rightarrow> zone" where
  "ClassifyZone now departureUnix =
     (let hrs = of_int (i64 (departureUnix - now)) / 3600
      in case find (\<lambda>z. hrs < MaxHours z) Zones of Some z \<Rightarrow> z | None \<Rightarrow> last Zones)"

section \<open>The sweep\<close>

definition DefaultClassifyInterval :: int where "DefaultClassifyInterval = minutes 5"

record poll_task =
  Payload :: trip_key
  ProcessIn :: int
  TaskID :: string
  Retention :: int
  MaxRetry :: int

definition poll_task_of :: "trip_key \<Rightarrow> zone \<Rightarrow> poll_task" where
  "poll_task_of key z =
     \<lparr>Payload = key, ProcessIn = Interval z, TaskID = ''poll:'' @ TripID key @ '':'' @ Date key,
      Retention = Interval z, MaxRetry = 3\<rparr>"

record sweep =
  enqueued :: int
  skipped :: int
  byZone :: "(string, int) gomap"

text \<open>
  The loop from position \<open>i\<close>: \<open>cancelled i\<close> is what \<open>ctx.Err()\<close> says there and \<open>clock i\<close> the time that
  is read. \<open>None\<close> is the panic of an index out of range in the departure lookup. Marshalling a
  payload of two strings cannot fail.
\<close>

fun classify_trips :: "(nat \<Rightarrow> bool) \<Rightarrow> (nat \<Rightarrow> int) \<Rightarrow> (poll_task \<Rightarrow> 'q \<Rightarrow> bool \<times> 'q) \<Rightarrow> route_buffer \<Rightarrow>
    nat \<Rightarrow> trip_key list \<Rightarrow> sweep \<Rightarrow> 'q \<Rightarrow> (sweep \<times> 'q) option" where
  "classify_trips cancelled clock enqueue buf i [] st q = Some (st, q)"
| "classify_trips cancelled clock enqueue buf i (key # keys) st q =
     (if cancelled i then Some (st, q)
      else case TripDeparture buf key of
        None \<Rightarrow> None
      | Some depUnix \<Rightarrow>
          if depUnix = 0
          then classify_trips cancelled clock enqueue buf (i + 1) keys (st\<lparr>skipped := skipped st + 1\<rparr>) q
          else
            (let z = ClassifyZone (clock i) depUnix;
                 st = st\<lparr>byZone := gm_put (Name z) (gm_get (byZone st) (Name z) 0 + 1) (byZone st)\<rparr>;
                 (ok, q) = enqueue (poll_task_of key z) q
             in if \<not> ok then classify_trips cancelled clock enqueue buf (i + 1) keys st q
                else classify_trips cancelled clock enqueue buf (i + 1) keys (st\<lparr>enqueued := enqueued st + 1\<rparr>) q))"

definition classifyOnce :: "(nat \<Rightarrow> bool) \<Rightarrow> (nat \<Rightarrow> int) \<Rightarrow> (poll_task \<Rightarrow> 'q \<Rightarrow> bool \<times> 'q) \<Rightarrow>
    (trip_key list \<Rightarrow> trip_key list) \<Rightarrow> route_buffer \<Rightarrow> 'q \<Rightarrow> (sweep \<times> 'q) option" where
  "classifyOnce cancelled clock enqueue iter buf q =
     classify_trips cancelled clock enqueue buf 0 (iter (gm_keys (TripIndex buf)))
       \<lparr>enqueued = 0, skipped = 0, byZone = []\<rparr> q"

text \<open>
  The loop around the sweep. The wake-ups are what its \<open>select\<close> receives one after the other; when
  the list ends the loop is waiting. \<open>sweep_at j\<close> is the \<open>j\<close>-th sweep.
\<close>

datatype wake = Tick | Done

fun zone_loop :: "(nat \<Rightarrow> 'q \<Rightarrow> (sweep \<times> 'q) option) \<Rightarrow> nat \<Rightarrow> wake list \<Rightarrow> 'q \<Rightarrow> 'q option" where
  "zone_loop sweep_at j wakes q =
     (case sweep_at j q of
        None \<Rightarrow> None
      | Some (st, q) \<Rightarrow>
          (case wakes of
             [] \<Rightarrow> Some q
           | Done # _ \<Rightarrow> Some q
           | Tick # wakes \<Rightarrow> zone_loop sweep_at (j + 1) wakes q))"

declare zone_loop.simps [simp del]

definition classify_interval :: "int \<Rightarrow> int" where
  "classify_interval interval = (if interval \<le> 0 then DefaultClassifyInterval else interval)"

section \<open>Lemmas\<close>

lemmas duration_defs = seconds_def minutes_def hours_def

lemma ClassifyZone_cases:
  assumes "in_i64 (dep - now)"
  shows "ClassifyZone now dep =
    (if dep - now < 43200 then Zones ! 0 else if dep - now < 172800 then Zones ! 1
     else if dep - now < 604800 then Zones ! 2 else Zones ! 3)"
proof -
  have hrs: "(of_int (dep - now) / 3600 < (of_int n :: rat)) \<longleftrightarrow> dep - now < 3600 * n" for n
  proof -
    have "(of_int (dep - now) / 3600 < (of_int n :: rat)) \<longleftrightarrow> (of_int (dep - now) :: rat) < of_int (3600 * n)"
      by (simp add: divide_less_eq mult.commute)
    then show ?thesis unfolding of_int_less_iff .
  qed
  note hrs [of 12, simplified] hrs [of 48, simplified] hrs [of 168, simplified]
  then show ?thesis
    using assms by (simp add: ClassifyZone_def i64_id Zones_def Let_def)
qed

lemma wake_loop_stops: "zone_loop f j (Done # ws) q = zone_loop f j [] q"
  by (simp add: zone_loop.simps split: option.splits prod.splits)

text \<open>The tasks of a sweep that runs to its end.\<close>

fun sweep_tasks :: "(nat \<Rightarrow> int) \<Rightarrow> route_buffer \<Rightarrow> nat \<Rightarrow> trip_key list \<Rightarrow> poll_task list" where
  "sweep_tasks clock buf i [] = []"
| "sweep_tasks clock buf i (key # keys) =
     (case TripDeparture buf key of
        None \<Rightarrow> []
      | Some dep \<Rightarrow>
          if dep = 0 then sweep_tasks clock buf (i + 1) keys
          else poll_task_of key (ClassifyZone (clock i) dep) # sweep_tasks clock buf (i + 1) keys)"

lemma classify_trips_tasks:
  assumes "\<And>i. \<not> cancelled i" "\<And>key. key \<in> set keys \<Longrightarrow> TripDeparture buf key \<noteq> None"
  shows "\<exists>st'. classify_trips cancelled clock enqueue buf i keys st q =
      Some (st', fold (\<lambda>t q. snd (enqueue t q)) (sweep_tasks clock buf i keys) q) \<and>
    skipped st' = skipped st + int (length keys) - int (length (sweep_tasks clock buf i keys)) \<and>
    enqueued st' \<le> enqueued st + int (length (sweep_tasks clock buf i keys))"
  using assms(2)
proof (induction keys arbitrary: i st q)
  case (Cons key keys)
  then obtain dep where dep: "TripDeparture buf key = Some dep" by fastforce
  note IH = Cons.IH [OF Cons.prems [OF list.set_intros(2)]]
  show ?case
  proof (cases "dep = 0")
    case True
    from IH [of "i + 1" "st\<lparr>skipped := skipped st + 1\<rparr>" q] True dep assms(1) show ?thesis by auto
  next
    case False
    let ?z = "ClassifyZone (clock i) dep"
    let ?st = "st\<lparr>byZone := gm_put (Name ?z) (gm_get (byZone st) (Name ?z) 0 + 1) (byZone st)\<rparr>"
    obtain ok q' where e: "enqueue (poll_task_of key ?z) q = (ok, q')" by fastforce
    from IH [of "i + 1" "if ok then ?st\<lparr>enqueued := enqueued ?st + 1\<rparr> else ?st" q'] False dep e assms(1)
    show ?thesis by (cases ok) (auto simp: Let_def)
  qed
qed simp

lemma sweep_tasks_payloads:
  assumes "\<And>key. key \<in> set keys \<Longrightarrow> TripDeparture buf key \<noteq> None"
  shows "map Payload (sweep_tasks clock buf i keys) = filter (\<lambda>key. TripDeparture buf key \<noteq> Some 0) keys"
  using assms by (induction keys arbitrary: i) (auto simp: poll_task_of_def split: option.splits)

lemma sweep_tasks_ids: "map TaskID (sweep_tasks clock buf i keys) =
    map (\<lambda>key. ''poll:'' @ TripID key @ '':'' @ Date key) (map Payload (sweep_tasks clock buf i keys))"
  by (induction keys arbitrary: i) (auto simp: poll_task_of_def split: option.splits)

text \<open>The pace of polling as the comment above \<open>Zones\<close> has it: every 5 minutes for a trip that leaves in less than 12 hours,
  every 30 minutes below 48 hours, every 4 hours below 168, once a day otherwise.\<close>

definition poll_delay :: "int \<Rightarrow> int" where
  "poll_delay lead =
     (if lead < 12 * 3600 then 300 * 10 ^ 9 else if lead < 48 * 3600 then 1800 * 10 ^ 9
      else if lead < 168 * 3600 then 14400 * 10 ^ 9 else 86400 * 10 ^ 9)"

lemma ClassifyZone_delay: "in_i64 (dep - now) \<Longrightarrow> Interval (ClassifyZone now dep) = poll_delay (dep - now)"
  by (simp add: ClassifyZone_cases Zones_def duration_defs poll_delay_def)

text \<open>A task runs after the delay of its trip, read off the clock when the sweep comes to the trip.\<close>

definition task_paced :: "(nat \<Rightarrow> int) \<Rightarrow> route_buffer \<Rightarrow> trip_key list \<Rightarrow> poll_task \<Rightarrow> bool" where
  "task_paced clock buf keys t \<longleftrightarrow>
     (\<exists>j dep. j < length keys \<and> keys ! j = Payload t \<and> TripDeparture buf (Payload t) = Some dep \<and>
        ProcessIn t = poll_delay (dep - clock j) \<and> Retention t = ProcessIn t)"

lemma sweep_tasks_paced:
  assumes "\<And>j key dep. key \<in> set keys \<Longrightarrow> TripDeparture buf key = Some dep \<Longrightarrow> in_i64 (dep - clock j)"
    and "t \<in> set (sweep_tasks clock buf i keys)"
  shows "task_paced (\<lambda>j. clock (i + j)) buf keys t"
  using assms
proof (induction keys arbitrary: i)
  case (Cons key keys)
  from Cons.prems(2) obtain dep where dep: "TripDeparture buf key = Some dep" by (cases "TripDeparture buf key") auto
  show ?case
  proof (cases "dep \<noteq> 0 \<and> t = poll_task_of key (ClassifyZone (clock i) dep)")
    case True
    have "in_i64 (dep - clock i)" using Cons.prems(1) [OF _ dep] by simp
    with True dep show ?thesis
      unfolding task_paced_def by (intro exI [of _ 0] exI [of _ dep]) (simp add: poll_task_of_def ClassifyZone_delay)
  next
    case False
    with Cons.prems dep have "t \<in> set (sweep_tasks clock buf (i + 1) keys)" by (auto split: if_splits)
    then have "task_paced (\<lambda>j. clock (i + 1 + j)) buf keys t"
      by (intro Cons.IH; meson Cons.prems(1) list.set_intros(2))
    then obtain j dep where "j < length keys" "keys ! j = Payload t"
      "TripDeparture buf (Payload t) = Some dep" "ProcessIn t = poll_delay (dep - clock (i + 1 + j))" "Retention t = ProcessIn t"
      by (auto simp: task_paced_def)
    then show ?thesis unfolding task_paced_def by (intro exI [of _ "Suc j"] exI [of _ dep]) simp
  qed
qed simp

section \<open>Properties\<close>

text \<open>The zone is the urgency tier of the lead time in seconds, and a trip that leaves no
  later is never polled less often.\<close>

theorem ClassifyZone_by_lead_time:
  assumes "in_i64 (dep - now)" "in_i64 (dep' - now)" "dep \<le> dep'"
  shows "Name (ClassifyZone now dep) =
      (if dep - now < 12 * 3600 then ''RED'' else if dep - now < 48 * 3600 then ''YELLOW''
       else if dep - now < 168 * 3600 then ''GREEN'' else ''COLD'') \<and>
    Interval (ClassifyZone now dep) \<le> Interval (ClassifyZone now dep')"
  using assms(3) ClassifyZone_cases [OF assms(1)] ClassifyZone_cases [OF assms(2)]
  by (simp add: Zones_def duration_defs)

theorem ClassifyZone_by_lead_time_witness:
  "Name (ClassifyZone 1000 (1000 + 43199)) = ''RED'' \<and> Name (ClassifyZone 1000 (1000 + 43200)) = ''YELLOW''"
  using ClassifyZone_by_lead_time [of "1000 + 43199" 1000 "1000 + 43200"]
    ClassifyZone_by_lead_time [of "1000 + 43200" 1000 "1000 + 43200"] by (simp add: in_i64_def)

text \<open>C27: a sweep that is not cancelled submits one task for every trip whose departure is known and
  none for the others, each to run, and to be kept, as long from now as its departure is near: 5 minutes when it leaves in less than
  12 hours of the clock reading, 30 minutes below 48 hours, 4 hours below 168 and a day otherwise; with well-formed dates no
  two tasks share an ID.\<close>

theorem sweep_polls_every_trip_once:
  assumes "\<And>i. \<not> cancelled i" "\<And>key. key \<in> set (gm_keys (TripIndex buf)) \<Longrightarrow> TripDeparture buf key \<noteq> None"
    and "gm_ok (TripIndex buf)" "\<And>ks. mset (iter ks) = mset ks"
    and "\<And>i key dep. key \<in> set (gm_keys (TripIndex buf)) \<Longrightarrow> TripDeparture buf key = Some dep \<Longrightarrow> in_i64 (dep - clock i)"
  shows "\<exists>st tasks. classifyOnce cancelled clock enqueue iter buf q = Some (st, fold (\<lambda>t q. snd (enqueue t q)) tasks q) \<and>
    mset (map Payload tasks) = mset (filter (\<lambda>key. TripDeparture buf key \<noteq> Some 0) (gm_keys (TripIndex buf))) \<and>
    skipped st = int (length (TripIndex buf)) - int (length tasks) \<and> enqueued st \<le> int (length tasks) \<and>
    list_all (task_paced clock buf (iter (gm_keys (TripIndex buf)))) tasks \<and>
    (if list_all (\<lambda>t. ValidDate (Date (Payload t))) tasks then distinct (map TaskID tasks) else True)"
proof -
  let ?keys = "iter (gm_keys (TripIndex buf))"
  let ?tasks = "sweep_tasks clock buf 0 ?keys"
  have ks: "set ?keys = set (gm_keys (TripIndex buf))" "length ?keys = length (TripIndex buf)"
    using assms(4) mset_eq_setD mset_eq_length by (blast, metis gm_keys_def length_map)
  have known: "TripDeparture buf key \<noteq> None" if "key \<in> set ?keys" for key using that assms(2) ks(1) by blast
  have pay: "map Payload ?tasks = filter (\<lambda>key. TripDeparture buf key \<noteq> Some 0) ?keys"
    by (rule sweep_tasks_payloads [OF known])
  have "distinct ?keys" using assms(3,4) by (metis gm_keys_def gm_ok_def mset_eq_imp_distinct_iff)
  then have dist: "distinct (map Payload ?tasks)" by (simp add: pay)
  have inj: "inj_on (\<lambda>key. ''poll:'' @ TripID key @ '':'' @ Date key) (set (map Payload ?tasks))"
    if "list_all (\<lambda>t. ValidDate (Date (Payload t))) ?tasks"
  proof (rule inj_onI)
    fix k k' assume "k \<in> set (map Payload ?tasks)" "k' \<in> set (map Payload ?tasks)"
      and eq: "''poll:'' @ TripID k @ '':'' @ Date k = ''poll:'' @ TripID k' @ '':'' @ Date k'"
    then have "length (Date k) = length (Date k')" using that by (auto simp: list_all_iff ValidDate_length)
    from key_suffix_inject [OF this] eq show "k = k'" by (metis trip_key.expand)
  qed
  obtain st where "classifyOnce cancelled clock enqueue iter buf q = Some (st, fold (\<lambda>t q. snd (enqueue t q)) ?tasks q)"
    "skipped st = int (length (TripIndex buf)) - int (length ?tasks)" "enqueued st \<le> int (length ?tasks)"
    using classify_trips_tasks [of cancelled ?keys buf clock enqueue 0 "\<lparr>enqueued = 0, skipped = 0, byZone = []\<rparr>" q,
        OF assms(1) known] ks(2) by (auto simp: classifyOnce_def)
  moreover have "mset (map Payload ?tasks) = mset (filter (\<lambda>key. TripDeparture buf key \<noteq> Some 0) (gm_keys (TripIndex buf)))"
    using assms(4) by (simp add: pay)
  moreover have "distinct (map TaskID ?tasks)" if "list_all (\<lambda>t. ValidDate (Date (Payload t))) ?tasks"
    unfolding sweep_tasks_ids distinct_map using dist inj [OF that] by (simp only: distinct_map [symmetric] simp_thms)
  moreover have "list_all (task_paced clock buf ?keys) ?tasks"
    using sweep_tasks_paced [of ?keys buf clock _ 0] assms(5) ks(1) by (auto simp: list_all_iff)
  ultimately show ?thesis by (intro exI [of _ st] exI [of _ ?tasks]) simp
qed

definition demo_buffer :: route_buffer where
  "demo_buffer = newRouteBuffer
     \<lparr>Routes := [\<lparr>RouteID = ''R1'', StopIDs = [''A'', ''B''], TripKeys = [TripKey ''T1'' ''2026-08-27'']\<rparr>],
      StopTimes := [[\<lparr>Key = TripKey ''T1'' ''2026-08-27'', Arrivals = [50000, 60000], Departures = [50000, 60000], StationIDs = [''A'', ''B'']\<rparr>]],
      TripIndex := [(TripKey ''T1'' ''2026-08-27'', \<lparr>tl_RouteIdx = 0, tl_TripIdx = 0\<rparr>)]\<rparr>"

lemma demo_buffer_departure: "TripDeparture demo_buffer (TripKey ''T1'' ''2026-08-27'') = Some 50000"
  by (simp add: demo_buffer_def TripDeparture_def newRouteBuffer_def)

theorem sweep_polls_every_trip_once_witness:
  "\<exists>st tasks. classifyOnce (\<lambda>i. False) (\<lambda>i. 0) (\<lambda>t q. (True, t # q)) rev demo_buffer [] = Some (st, fold (\<lambda>t q. t # q) tasks []) \<and>
     map Payload tasks = [TripKey ''T1'' ''2026-08-27''] \<and> map ProcessIn tasks = [minutes 30]"
proof -
  have keys: "gm_keys (TripIndex demo_buffer) = [TripKey ''T1'' ''2026-08-27'']"
    by (simp add: demo_buffer_def newRouteBuffer_def gm_keys_def)
  have "gm_ok (TripIndex demo_buffer)" by (simp add: demo_buffer_def newRouteBuffer_def gm_ok_def)
  from sweep_polls_every_trip_once [OF _ _ this, of "\<lambda>i. False" rev "\<lambda>i. 0" "\<lambda>t q. (True, t # q)" "[]"]
    demo_buffer_departure
  obtain st tasks where
    run: "classifyOnce (\<lambda>i. False) (\<lambda>i. 0) (\<lambda>t q. (True, t # q)) rev demo_buffer [] = Some (st, fold (\<lambda>t q. snd (True, t # q)) tasks [])"
    and tasks: "mset (map Payload tasks) = {#TripKey ''T1'' ''2026-08-27''#}"
    and paced: "list_all (task_paced (\<lambda>i. 0) demo_buffer [TripKey ''T1'' ''2026-08-27'']) tasks"
    by (auto simp: keys in_i64_def)
  from tasks have one: "map Payload tasks = [TripKey ''T1'' ''2026-08-27'']" by (simp only: mset_single_iff)
  with paced have "map ProcessIn tasks = [minutes 30]"
    by (auto simp: task_paced_def demo_buffer_departure poll_delay_def duration_defs)
  with run one show ?thesis by (intro exI [of _ st] exI [of _ tasks]) simp
qed

end
