(* ===== verification/Provider.thy ===== *)
theory Provider
  imports Zone
begin

text \<open>
  The seat providers of \<^verbatim>\<open>internal/seat/provider.go\<close>. The random generator, the URL package and the
  HTTP client are parameters: \<open>int63n\<close> and \<open>intn\<close> give the numbers drawn for their arguments, and a
  request is answered by an error or by a status and a decoded body.
\<close>

datatype provider_error = ContextEnded | NoBaseURL | BadBaseURL | BadRequestURL | RequestFailed | StatusCode int | DecodeFailed | NullBody

section \<open>The simulated provider\<close>

record mock_provider =
  MinDelay :: int
  MaxDelay :: int

definition milliseconds :: "int \<Rightarrow> int" where "milliseconds n = n * 10 ^ 6"

definition NewMockProvider :: mock_provider where
  "NewMockProvider = \<lparr>MinDelay = milliseconds 50, MaxDelay = milliseconds 200\<rparr>"

definition mock_delay :: "(int \<Rightarrow> int) \<Rightarrow> mock_provider \<Rightarrow> int" where
  "mock_delay int63n m =
     (let lo = MinDelay m; hi = MaxDelay m;
          lo = (if lo \<le> 0 then milliseconds 50 else lo);
          hi = (if hi \<le> lo then lo + milliseconds 150 else hi)
      in lo + int63n ((hi - lo) + 1))"

text \<open>\<open>intn j n\<close> is the \<open>j\<close>-th draw below \<open>n\<close>; the delay is lost when the context ends first.\<close>

definition mock_FetchSeats :: "(nat \<Rightarrow> int \<Rightarrow> int) \<Rightarrow> bool \<Rightarrow> string \<Rightarrow> string \<Rightarrow> provider_error + seat_map" where
  "mock_FetchSeats intn cancelled tripID date =
     (if cancelled then Inl ContextEnded
      else Inr [(''lower'', intn 0 11), (''upper'', intn 1 11), (''seater'', intn 2 21)])"

section \<open>The HTTP provider\<close>

record http_provider =
  BaseURL :: string
  APIKey :: string
  ClientTimeout :: "int option"

definition NewHTTPProvider :: "string \<Rightarrow> string \<Rightarrow> int \<Rightarrow> http_provider" where
  "NewHTTPProvider baseURL apiKey timeout =
     (let timeout = (if timeout \<le> 0 then seconds 5 else timeout)
      in \<lparr>BaseURL = baseURL, APIKey = apiKey, ClientTimeout = Some timeout\<rparr>)"

record http_request =
  req_url :: string
  req_headers :: "(string \<times> string) list"
  req_timeout :: int

text \<open>
  \<open>build_url base params\<close> parses the base URL and sets query parameters; \<open>valid_request\<close> is whether a request
  can be built for a URL; \<open>send\<close> gives \<open>None\<close> for a failed request, else the status and the
  decoding of the body, \<open>None\<close> when it fails and \<open>Some None\<close> for null.
\<close>

definition http_FetchSeats :: "(string \<Rightarrow> (string \<times> string) list \<Rightarrow> string option) \<Rightarrow> (string \<Rightarrow> bool) \<Rightarrow>
    (http_request \<Rightarrow> (int \<times> seat_map option option) option) \<Rightarrow> http_provider \<Rightarrow> string \<Rightarrow> string \<Rightarrow> provider_error + seat_map" where
  "http_FetchSeats build_url valid_request send h tripID date =
     (if BaseURL h = [] then Inl NoBaseURL
      else case build_url (BaseURL h) [(''trip_id'', tripID), (''date'', date)] of
        None \<Rightarrow> Inl BadBaseURL
      | Some url \<Rightarrow>
          if \<not> valid_request url then Inl BadRequestURL
          else
            (let headers = [(''Accept'', ''application/json'')];
                 headers = (if APIKey h \<noteq> [] then headers @ [(''Authorization'', ''Bearer '' @ APIKey h)] else headers);
                 timeout = (case ClientTimeout h of None \<Rightarrow> seconds 5 | Some t \<Rightarrow> t)
             in case send \<lparr>req_url = url, req_headers = headers, req_timeout = timeout\<rparr> of
                  None \<Rightarrow> Inl RequestFailed
                | Some (status, body) \<Rightarrow>
                    if status \<noteq> 200 then Inl (StatusCode status)
                    else case body of
                      None \<Rightarrow> Inl DecodeFailed
                    | Some None \<Rightarrow> Inl NullBody
                    | Some (Some seats) \<Rightarrow> Inr seats))"

section \<open>Properties\<close>

text \<open>A simulated fetch waits within the configured bounds, or within the defaults when these are
  not set, and the seats of each class stay within theirs.\<close>

theorem mock_provider_bounds:
  assumes "\<And>n. 0 < n \<Longrightarrow> 0 \<le> int63n n \<and> int63n n < n" "\<And>j n. 0 < n \<Longrightarrow> 0 \<le> intn j n \<and> intn j n < n"
  shows "0 < mock_delay int63n m \<and>
    (0 < MinDelay m \<and> MinDelay m < MaxDelay m \<longrightarrow> MinDelay m \<le> mock_delay int63n m \<and> mock_delay int63n m \<le> MaxDelay m) \<and>
    (case mock_FetchSeats intn cancelled t d of Inl e \<Rightarrow> e = ContextEnded \<and> cancelled
     | Inr seats \<Rightarrow> map fst seats = [''lower'', ''upper'', ''seater''] \<and> list_all (\<lambda>(c, n). 0 \<le> n \<and> n \<le> 20) seats)"
proof -
  have "0 \<le> int63n (b - a + 1) \<and> int63n (b - a + 1) \<le> b - a" if "a \<le> b" for a b
    using assms(1) [of "b - a + 1"] that by simp
  from this [of "MinDelay m" "MaxDelay m"] assms(1) [of "MaxDelay m - milliseconds 50 + 1"] assms(1) [of "MaxDelay m - MinDelay m + 1"]
    assms(1) [of "milliseconds 150 + 1"] assms(2) [of 11 0] assms(2) [of 11 1] assms(2) [of 21 2]
  show ?thesis by (auto simp: mock_delay_def mock_FetchSeats_def milliseconds_def Let_def)
qed

theorem mock_provider_bounds_witness:
  "MinDelay NewMockProvider \<le> mock_delay (\<lambda>n. n - 1) NewMockProvider \<and> mock_delay (\<lambda>n. n - 1) NewMockProvider \<le> MaxDelay NewMockProvider"
  using mock_provider_bounds [of "\<lambda>n. n - 1" "\<lambda>j n. 0" NewMockProvider False "[]" "[]"]
  by (simp add: NewMockProvider_def milliseconds_def)

end
