(* ===== verification/Boot.thy ===== *)
theory Boot
  imports Config Provider
begin

text \<open>
  The life of the process, \<open>run\<close> of \<^verbatim>\<open>cmd/axentra/main.go\<close>, as the sequence of what it does. The outcome
  of each phase is an argument; the deferred closings run at every return, last one first. The workers belong to
  asynq, a library: on a signal its \<open>Run\<close> stops them on its own, beside the shutdown of \<open>run\<close>, so
  when they have stopped is an argument too.
\<close>

datatype seat_provider = HTTP http_provider | Mock mock_provider

definition buildProvider :: "config \<Rightarrow> seat_provider option" where
  "buildProvider c =
     (if SeatProvider c = ''http'' then Some (HTTP (NewHTTPProvider (SeatAPIBaseURL c) (SeatAPIKey c) (SeatAPITimeout c)))
      else if SeatProvider c = ''mock'' then Some (Mock NewMockProvider)
      else None)"

datatype stop_cause = StopSignal | ServerFailed | WorkerFailed

datatype boot_event =
    OpenedPostgres | Migrated | OpenedRedis | Seeded | LoadedSchedule | StartedWatcher | ColdStarted bool | StartedRefresh
  | OpenedAsynq | StartedWorkers | StartedClassifier | MarkedReady | StartedHTTP | Woken stop_cause | MarkedNotReady
  | CancelledContext | DrainedHTTP bool | CalledWorkerShutdown | WorkersStopped | JoinedGoroutines bool | ClosedAsynq | ClosedRedis | ClosedPostgres

datatype run_error = ConfigFailed config_error | PostgresFailed | MigrationsFailed | RedisFailed | SeedFailed | ScheduleFailed
  | ProviderUnknown | HTTPServerFailed | WorkersFailed

record boot_env =
  be_config :: "config option \<times> config_error option"
  be_seed :: bool
  be_migrate :: bool
  be_postgres :: bool
  be_migrations :: bool
  be_redis :: bool
  be_seeded :: bool
  be_schedule :: bool
  be_cold :: bool
  be_stop :: stop_cause
  be_drained :: bool
  be_joined :: bool
  be_workers_stop :: nat

text \<open>
  The last phase, once the process waits: shutdown in reverse order of startup. \<open>CancelledContext\<close> is the call of \<open>stop\<close>;
  after a signal the context is cancelled already. \<open>CalledWorkerShutdown\<close> is the call of asynq's \<open>Shutdown\<close>.
\<close>

definition shutdown_steps :: "boot_env \<Rightarrow> boot_event list" where
  "shutdown_steps e =
     [Woken (be_stop e), MarkedNotReady, CancelledContext, DrainedHTTP (be_drained e), CalledWorkerShutdown, JoinedGoroutines (be_joined e)]"

text \<open>
  When the workers have stopped. On a signal \<open>asynqServer.Run\<close> stops them too, and a second \<open>Shutdown\<close> does not wait: they have
  stopped after \<open>be_workers_stop\<close> of the steps, before the first one or not before the last. When the HTTP server has failed
  nobody else stops them, so \<open>Shutdown\<close> returns with the workers stopped. When \<open>Run\<close> itself has failed there were none.
\<close>

fun insert_at :: "nat \<Rightarrow> 'a \<Rightarrow> 'a list \<Rightarrow> 'a list" where
  "insert_at 0 x ys = x # ys"
| "insert_at (Suc n) x [] = []"
| "insert_at (Suc n) x (y # ys) = y # insert_at n x ys"

definition shutdown :: "boot_env \<Rightarrow> boot_event list" where
  "shutdown e =
     (case be_stop e of
        StopSignal \<Rightarrow> insert_at (be_workers_stop e) WorkersStopped (shutdown_steps e)
      | ServerFailed \<Rightarrow> insert_at 5 WorkersStopped (shutdown_steps e)
      | WorkerFailed \<Rightarrow> shutdown_steps e)"

definition exit_error :: "boot_env \<Rightarrow> run_error option" where
  "exit_error e = (case be_stop e of StopSignal \<Rightarrow> None | ServerFailed \<Rightarrow> Some HTTPServerFailed | WorkerFailed \<Rightarrow> Some WorkersFailed)"

definition run :: "boot_env \<Rightarrow> boot_event list \<times> run_error option" where
  "run e =
     (case be_config e of
        (cf, Some err) \<Rightarrow> ([], Some (ConfigFailed err))
      | (None, None) \<Rightarrow> ([], None)
      | (Some c, None) \<Rightarrow>
          (let d = [CancelledContext] in
           if \<not> be_postgres e then (d, Some PostgresFailed)
           else
             (let t = [OpenedPostgres]; d = ClosedPostgres # d; migrating = be_migrate e \<or> AutoMigrate c in
              if migrating \<and> \<not> be_migrations e then (t @ d, Some MigrationsFailed)
              else
                (let t = t @ (if migrating then [Migrated] else []) in
                 if be_migrate e then (t @ d, None)
                 else if \<not> be_redis e then (t @ d, Some RedisFailed)
                 else
                   (let t = t @ [OpenedRedis]; d = ClosedRedis # d in
                    if be_seed e
                    then (if be_seeded e then (t @ [Seeded] @ d, None) else (t @ d, Some SeedFailed))
                    else if \<not> be_schedule e then (t @ d, Some ScheduleFailed)
                    else
                      (let t = t @ [LoadedSchedule, StartedWatcher, ColdStarted (be_cold e), StartedRefresh, OpenedAsynq];
                           d = ClosedAsynq # d
                       in case buildProvider c of
                            None \<Rightarrow> (t @ d, Some ProviderUnknown)
                          | Some provider \<Rightarrow>
                              (let t = t @ [StartedWorkers, StartedClassifier, MarkedReady, StartedHTTP] @ shutdown e
                               in (t @ d, exit_error e))))))))"

text \<open>The exit status of the process.\<close>

definition main_exit :: "boot_env \<Rightarrow> int" where
  "main_exit e = (if snd (run e) \<noteq> None then 1 else 0)"

section \<open>Specification\<close>

fun closing :: "boot_event \<Rightarrow> boot_event option" where
  "closing OpenedPostgres = Some ClosedPostgres"
| "closing OpenedRedis = Some ClosedRedis"
| "closing OpenedAsynq = Some ClosedAsynq"
| "closing ev = None"

definition is_close :: "boot_event \<Rightarrow> bool" where
  "is_close ev \<longleftrightarrow> ev \<in> {ClosedPostgres, ClosedRedis, ClosedAsynq}"

text \<open>The first event comes before the second, wherever they occur.\<close>

definition comes_before :: "boot_event \<Rightarrow> boot_event \<Rightarrow> boot_event list \<Rightarrow> bool" where
  "comes_before a b t \<longleftrightarrow> b \<in> set t \<longrightarrow> a \<in> set (takeWhile (\<lambda>ev. ev \<noteq> b) t)"

lemmas trace_defs = comes_before_def is_close_def List.map_filter_def

text \<open>What \<open>run\<close> does itself does not depend on when the workers stop.\<close>

lemma filter_insert_at: "filter (\<lambda>ev. ev \<noteq> x) (insert_at n x ys) = filter (\<lambda>ev. ev \<noteq> x) ys"
  by (induction n x ys rule: insert_at.induct) simp_all

lemma filter_shutdown: "filter (\<lambda>ev. ev \<noteq> WorkersStopped) (shutdown e) = shutdown_steps e"
  by (cases "be_stop e") (simp_all add: shutdown_def filter_insert_at, simp_all add: shutdown_steps_def)

lemma mem_shutdown: "ev \<noteq> WorkersStopped \<Longrightarrow> ev \<in> set (shutdown e) \<longleftrightarrow> ev \<in> set (shutdown_steps e)"
  unfolding filter_shutdown [of e, symmetric] by simp

lemma comes_before_main:
  assumes "WorkersStopped \<notin> {a, b}"
  shows "comes_before a b t \<longleftrightarrow> comes_before a b (filter (\<lambda>ev. ev \<noteq> WorkersStopped) t)"
  using assms by (induction t) (auto simp: comes_before_def)

lemma closings_main:
  "List.map_filter closing (rev t) = List.map_filter closing (rev (filter (\<lambda>ev. ev \<noteq> WorkersStopped) t))"
  "filter is_close t = filter is_close (filter (\<lambda>ev. ev \<noteq> WorkersStopped) t)"
  by (induction t) (auto simp: List.map_filter_def is_close_def)

section \<open>Properties\<close>

text \<open>C24: whatever fails, every connection that was opened is closed, in reverse order; the service is
  marked ready only after the schedule is loaded and a cold start was tried, and traffic is served only
  after that; on the way down the process withdraws its readiness before it drains the server, and drains the server before it
  tells the workers to stop, so that they stop after it when nothing else stops them, that is when the shutdown was not caused by a
  signal; and seeding never runs with the watcher.\<close>

theorem boot_order:
  "List.map_filter closing (rev (fst (run e))) = filter is_close (fst (run e)) \<and>
   comes_before LoadedSchedule MarkedReady (fst (run e)) \<and> comes_before (ColdStarted (be_cold e)) MarkedReady (fst (run e)) \<and>
   comes_before MarkedReady StartedHTTP (fst (run e)) \<and> comes_before LoadedSchedule StartedWatcher (fst (run e)) \<and>
   comes_before MarkedNotReady (DrainedHTTP (be_drained e)) (fst (run e)) \<and>
   comes_before (DrainedHTTP (be_drained e)) CalledWorkerShutdown (fst (run e)) \<and>
   (if be_stop e = StopSignal then True else comes_before (DrainedHTTP (be_drained e)) WorkersStopped (fst (run e))) \<and>
   \<not> (Seeded \<in> set (fst (run e)) \<and> StartedWatcher \<in> set (fst (run e)))"
proof (cases "be_config e")
  case (Pair cf err)
  show ?thesis
  proof (cases "cf = None \<or> err \<noteq> None")
    case True
    with Pair show ?thesis by (auto simp: run_def trace_defs split: option.splits)
  next
    case False
    then obtain c where c: "be_config e = (Some c, None)" using Pair by auto
    have workers: "(if be_stop e = StopSignal then True else comes_before (DrainedHTTP (be_drained e)) WorkersStopped (fst (run e)))"
      using c by (cases "be_stop e"; cases "buildProvider c")
        (auto simp: run_def trace_defs shutdown_def shutdown_steps_def numeral_eq_Suc Let_def)
    let ?main = "filter (\<lambda>ev. ev \<noteq> WorkersStopped) (fst (run e))"
    have "List.map_filter closing (rev ?main) = filter is_close ?main \<and>
       comes_before LoadedSchedule MarkedReady ?main \<and> comes_before (ColdStarted (be_cold e)) MarkedReady ?main \<and>
       comes_before MarkedReady StartedHTTP ?main \<and> comes_before LoadedSchedule StartedWatcher ?main \<and>
       comes_before MarkedNotReady (DrainedHTTP (be_drained e)) ?main \<and>
       comes_before (DrainedHTTP (be_drained e)) CalledWorkerShutdown ?main \<and>
       \<not> (Seeded \<in> set ?main \<and> StartedWatcher \<in> set ?main)"
      using c by (cases "be_postgres e"; cases "be_migrate e"; cases "AutoMigrate c"; cases "be_migrations e"; cases "be_redis e";
          cases "be_seed e"; cases "be_schedule e"; cases "buildProvider c")
        (simp_all add: run_def trace_defs filter_shutdown mem_shutdown shutdown_steps_def Let_def)
    with workers show ?thesis
      by (auto simp: comes_before_main [where t = "fst (run e)"] closings_main [of "fst (run e)"])
  qed
qed

text \<open>With a configuration that passes validation the seat provider is always known, so a run that has
  loaded the schedule serves until it is stopped, and fails then only if a server failed.\<close>

theorem accepted_config_serves:
  assumes "be_config e = (Some c, config_validate c)" "LoadedSchedule \<in> set (fst (run e))"
  shows "StartedHTTP \<in> set (fst (run e)) \<and> snd (run e) = exit_error e"
proof -
  have "be_config e = (Some c, None)" "buildProvider c \<noteq> None"
    using assms by (auto simp: run_def config_validate_def config_problems_Nil buildProvider_def split: if_splits)
  with assms(2) show ?thesis by (auto simp: run_def Let_def split: if_splits option.splits)
qed

definition sample_boot :: boot_env where
  "sample_boot = \<lparr>be_config = (Some (read_env (\<lambda>k. [])), config_validate (read_env (\<lambda>k. []))), be_seed = False, be_migrate = False,
     be_postgres = True, be_migrations = True, be_redis = True, be_seeded = True, be_schedule = True, be_cold = False,
     be_stop = StopSignal, be_drained = True, be_joined = True, be_workers_stop = 0\<rparr>"

lemma default_config_accepted: "config_validate (read_env (\<lambda>k. [])) = None"
proof -
  have "config_problems (read_env (\<lambda>k. [])) = []"
    unfolding config_problems_Nil
    by (simp add: read_env_def envInt_def env_def envBool_def trim_space_def DefaultMaxRounds_def
        DefaultMinTransferSeconds_def DefaultDateWindowDays_def DefaultMaxWalkSeconds_def DefaultMaxFootpathsPerStation_def
        MaxAllowedRounds_def i32_def to_lower_def)
  then show ?thesis by (simp add: config_validate_def)
qed

theorem accepted_config_serves_witness: "StartedHTTP \<in> set (fst (run sample_boot)) \<and> snd (run sample_boot) = None"
proof -
  have p: "SeatProvider (read_env (\<lambda>k. [])) = ''mock''"
    by (simp add: read_env_def env_def trim_space_def to_lower_def)
  have "LoadedSchedule \<in> set (fst (run sample_boot))"
    by (simp add: run_def sample_boot_def default_config_accepted buildProvider_def p Let_def)
  from accepted_config_serves [OF _ this, of "read_env (\<lambda>k. [])"] show ?thesis
    by (simp add: sample_boot_def exit_error_def)
qed

text \<open>After a signal the order of the shutdown does not hold for the workers: \<open>asynqServer.Run\<close> hears the signal itself
  and may have stopped them while the service is still marked ready and serves.\<close>

theorem workers_may_stop_first:
  "\<exists>e. be_stop e = StopSignal \<and> comes_before WorkersStopped MarkedNotReady (fst (run e)) \<and> MarkedNotReady \<in> set (fst (run e)) \<and>
     comes_before WorkersStopped (DrainedHTTP (be_drained e)) (fst (run e))"
proof -
  have p: "SeatProvider (read_env (\<lambda>k. [])) = ''mock''"
    by (simp add: read_env_def env_def trim_space_def to_lower_def)
  show ?thesis
    by (rule exI [of _ sample_boot])
      (simp add: run_def sample_boot_def default_config_accepted buildProvider_def p comes_before_def shutdown_def shutdown_steps_def Let_def)
qed

end
