(* ===== verification/Ingestion.thy ===== *)
theory Ingestion
  imports Domain_Types
begin

text \<open>
  Batch ingestion, \<^verbatim>\<open>internal/schedule/ingestion.go\<close>: the validation of a batch, each error with
  the values its message prints, and the transaction that writes it. Postgres is a parameter: what
  one statement does to a database, or that it fails, and whether the transaction begins and
  commits. A transaction works on its own copy; a rollback drops the copy.
\<close>

record ingest_trip =
  it_TripID :: string
  it_Date :: string
  it_RouteID :: string
  it_DepUnix :: int
  it_StopTimes :: "stop_time list"

definition it_key :: "ingest_trip \<Rightarrow> trip_key" where
  "it_key t = TripKey (it_TripID t) (it_Date t)"

section \<open>Validation\<close>

datatype batch_error =
    DuplicateTrip trip_key
  | NoStopTimes trip_key
  | NegativeArrival trip_key nat int
  | DepartsBeforeArrival trip_key nat int int
  | NonMonotone trip_key nat int int

fun validate_stops :: "trip_key \<Rightarrow> nat \<Rightarrow> stop_time list \<Rightarrow> batch_error option" where
  "validate_stops key i [] = None"
| "validate_stops key i (st # sts) =
     (if st_ArrivalUnix st < 0 then Some (NegativeArrival key i (st_ArrivalUnix st))
      else if st_DepartureUnix st < st_ArrivalUnix st
      then Some (DepartsBeforeArrival key i (st_DepartureUnix st) (st_ArrivalUnix st))
      else validate_stops key (i + 1) sts)"

text \<open>The second loop, from position \<open>i\<close>: \<open>prev\<close> is the stop before.\<close>

fun validate_monotone :: "trip_key \<Rightarrow> nat \<Rightarrow> stop_time \<Rightarrow> stop_time list \<Rightarrow> batch_error option" where
  "validate_monotone key i prev [] = None"
| "validate_monotone key i prev (st # sts) =
     (if st_DepartureUnix st \<le> st_DepartureUnix prev
      then Some (NonMonotone key i (st_DepartureUnix st) (st_DepartureUnix prev))
      else validate_monotone key (i + 1) st sts)"

fun validate_trips :: "trip_key list \<Rightarrow> ingest_trip list \<Rightarrow> batch_error option" where
  "validate_trips seen [] = None"
| "validate_trips seen (t # ts) =
     (let key = it_key t in
      if key \<in> set seen then Some (DuplicateTrip key)
      else if length (it_StopTimes t) = 0 then Some (NoStopTimes key)
      else case validate_stops key 0 (it_StopTimes t) of
        Some e \<Rightarrow> Some e
      | None \<Rightarrow>
          (case validate_monotone key 1 (hd (it_StopTimes t)) (tl (it_StopTimes t)) of
             Some e \<Rightarrow> Some e
           | None \<Rightarrow> validate_trips (key # seen) ts))"

definition ValidateBatch :: "ingest_trip list \<Rightarrow> batch_error option" where
  "ValidateBatch trips = validate_trips [] trips"

section \<open>The transaction\<close>

datatype sql =
    UpsertTrip trip_key string int
  | DeleteStopTimes trip_key
  | InsertStopTime stop_time
  | BumpSchemaVersion

datatype ingest_error =
    ValidationFailed batch_error
  | BeginFailed
  | InsertTripFailed trip_key
  | DeleteStopsFailed trip_key
  | InsertStopFailed trip_key int
  | BumpFailed
  | CommitFailed

text \<open>The inner loop over the stop times and the loop over the trips, each on the copy \<open>tx\<close>.\<close>

fun insert_stops :: "('db \<Rightarrow> sql \<Rightarrow> 'db option) \<Rightarrow> stop_time list \<Rightarrow> 'db \<Rightarrow> ingest_error + 'db" where
  "insert_stops exec [] tx = Inr tx"
| "insert_stops exec (st # sts) tx =
     (case exec tx (InsertStopTime st) of
        None \<Rightarrow> Inl (InsertStopFailed (TripKey (st_TripID st) (st_Date st)) (st_StopSeq st))
      | Some tx \<Rightarrow> insert_stops exec sts tx)"

fun insert_trips :: "('db \<Rightarrow> sql \<Rightarrow> 'db option) \<Rightarrow> ingest_trip list \<Rightarrow> 'db \<Rightarrow> ingest_error + 'db" where
  "insert_trips exec [] tx = Inr tx"
| "insert_trips exec (t # ts) tx =
     (case exec tx (UpsertTrip (it_key t) (it_RouteID t) (it_DepUnix t)) of
        None \<Rightarrow> Inl (InsertTripFailed (it_key t))
      | Some tx \<Rightarrow>
          (case exec tx (DeleteStopTimes (it_key t)) of
             None \<Rightarrow> Inl (DeleteStopsFailed (it_key t))
           | Some tx \<Rightarrow>
               (case insert_stops exec (it_StopTimes t) tx of
                  Inl e \<Rightarrow> Inl e
                | Inr tx \<Rightarrow> insert_trips exec ts tx)))"

definition IngestBatch :: "('db \<Rightarrow> sql \<Rightarrow> 'db option) \<Rightarrow> bool \<Rightarrow> ('db \<Rightarrow> bool) \<Rightarrow> ingest_trip list \<Rightarrow> 'db \<Rightarrow> ingest_error option \<times> 'db" where
  "IngestBatch exec begins commits trips db =
     (case ValidateBatch trips of
        Some e \<Rightarrow> (Some (ValidationFailed e), db)
      | None \<Rightarrow>
          if \<not> begins then (Some BeginFailed, db)
          else
            (case insert_trips exec trips db of
               Inl e \<Rightarrow> (Some e, db)
             | Inr tx \<Rightarrow>
                 (case exec tx BumpSchemaVersion of
                    None \<Rightarrow> (Some BumpFailed, db)
                  | Some tx \<Rightarrow> if commits tx then (None, tx) else (Some CommitFailed, db))))"

section \<open>Specifications\<close>

definition stop_valid :: "stop_time \<Rightarrow> bool" where
  "stop_valid st \<longleftrightarrow> 0 \<le> st_ArrivalUnix st \<and> st_ArrivalUnix st \<le> st_DepartureUnix st"

definition trip_valid :: "ingest_trip \<Rightarrow> bool" where
  "trip_valid t \<longleftrightarrow> it_StopTimes t \<noteq> [] \<and> list_all stop_valid (it_StopTimes t) \<and>
     sorted_wrt (<) (map st_DepartureUnix (it_StopTimes t))"

lemma validate_stops_None: "validate_stops key i sts = None \<longleftrightarrow> list_all stop_valid sts"
  by (induction key i sts rule: validate_stops.induct) (auto simp: stop_valid_def)

lemma validate_monotone_None:
  "validate_monotone key i prev sts = None \<longleftrightarrow> sorted_wrt (<) (map st_DepartureUnix (prev # sts))"
proof (induction key i prev sts rule: validate_monotone.induct)
  case (2 key i prev st sts)
  then show ?case by auto
qed simp

lemma validate_trips_None:
  "validate_trips seen ts = None \<longleftrightarrow>
     distinct (map it_key ts) \<and> set (map it_key ts) \<inter> set seen = {} \<and> list_all trip_valid ts"
proof (induction seen ts rule: validate_trips.induct)
  case (2 seen t ts)
  have hd: "it_StopTimes t \<noteq> [] \<Longrightarrow> hd (it_StopTimes t) # tl (it_StopTimes t) = it_StopTimes t" by simp
  show ?case
  proof (cases "it_key t \<in> set seen \<or> \<not> trip_valid t")
    case True
    then show ?thesis
      using validate_stops_None [of "it_key t" 0 "it_StopTimes t"]
        validate_monotone_None [of "it_key t" 1 "hd (it_StopTimes t)" "tl (it_StopTimes t)"] hd
      by (cases "it_StopTimes t") (auto simp: Let_def trip_valid_def split: option.splits)
  next
    case False
    then have v: "it_StopTimes t \<noteq> []" "validate_stops (it_key t) 0 (it_StopTimes t) = None"
      "validate_monotone (it_key t) 1 (hd (it_StopTimes t)) (tl (it_StopTimes t)) = None" "it_key t \<notin> set seen"
      by (auto simp: trip_valid_def validate_stops_None validate_monotone_None)
    with "2.IH" [OF refl v(4)] False show ?thesis by (auto simp: Let_def)
  qed
qed simp

text \<open>The statements of a batch in order.\<close>

definition batch_sql :: "ingest_trip list \<Rightarrow> sql list" where
  "batch_sql trips = concat (map (\<lambda>t. UpsertTrip (it_key t) (it_RouteID t) (it_DepUnix t) #
     DeleteStopTimes (it_key t) # map InsertStopTime (it_StopTimes t)) trips) @ [BumpSchemaVersion]"

fun run_sql :: "('db \<Rightarrow> sql \<Rightarrow> 'db option) \<Rightarrow> sql list \<Rightarrow> 'db \<Rightarrow> 'db option" where
  "run_sql exec [] db = Some db"
| "run_sql exec (s # ss) db = (case exec db s of None \<Rightarrow> None | Some db \<Rightarrow> run_sql exec ss db)"

lemma run_sql_append: "run_sql exec (xs @ ys) db =
    (case run_sql exec xs db of None \<Rightarrow> None | Some db \<Rightarrow> run_sql exec ys db)"
  by (induction exec xs db rule: run_sql.induct) (auto split: option.splits)

lemma insert_stops_run: "run_sql exec (map InsertStopTime sts) tx = (case insert_stops exec sts tx of Inl e \<Rightarrow> None | Inr tx \<Rightarrow> Some tx)"
  by (induction exec sts tx rule: insert_stops.induct) (auto split: option.splits)

lemma insert_trips_run:
  "run_sql exec (concat (map (\<lambda>t. UpsertTrip (it_key t) (it_RouteID t) (it_DepUnix t) #
     DeleteStopTimes (it_key t) # map InsertStopTime (it_StopTimes t)) ts)) tx =
   (case insert_trips exec ts tx of Inl e \<Rightarrow> None | Inr tx \<Rightarrow> Some tx)"
  by (induction exec ts tx rule: insert_trips.induct)
    (auto simp: run_sql_append insert_stops_run split: option.splits sum.splits)

section \<open>Properties\<close>

text \<open>C37: validation accepts exactly the batches whose trips have different keys, at least one stop
  each, no negative arrival, no departure before the arrival at the same stop and strictly
  increasing departures.\<close>

theorem ValidateBatch_accepts:
  "ValidateBatch trips = None \<longleftrightarrow> distinct (map it_key trips) \<and> list_all trip_valid trips"
  by (simp add: ValidateBatch_def validate_trips_None)

text \<open>C21: ingestion is all or nothing: it succeeds exactly when the batch is valid and every
  statement, the begin and the commit succeed, and then the database is the result of the
  statements in order; on any error the database is the one before.\<close>

theorem IngestBatch_atomic:
  "case IngestBatch exec begins commits trips db of (err, db') \<Rightarrow>
     (case err of
        None \<Rightarrow> ValidateBatch trips = None \<and> begins \<and> run_sql exec (batch_sql trips) db = Some db' \<and> commits db'
      | Some e \<Rightarrow> db' = db \<and>
          \<not> (ValidateBatch trips = None \<and> begins \<and> (\<exists>tx. run_sql exec (batch_sql trips) db = Some tx \<and> commits tx)))"
  by (auto simp: IngestBatch_def batch_sql_def run_sql_append insert_trips_run split: option.splits sum.splits)

text \<open>Validation compares departures with departures only: it accepts a trip that reaches its
  second stop before it has left its first.\<close>

theorem ValidateBatch_accepts_arrival_before_departure:
  "\<exists>trip. ValidateBatch [trip] = None \<and>
     st_ArrivalUnix (it_StopTimes trip ! 1) < st_DepartureUnix (it_StopTimes trip ! 0)"
proof -
  let ?st = "\<lambda>seq sid arr dep. \<lparr>st_TripID = ''T1'', st_Date = ''2026-08-27'', st_StopSeq = seq, st_StationID = sid,
    st_ArrivalUnix = arr, st_DepartureUnix = dep\<rparr>"
  let ?trip = "\<lparr>it_TripID = ''T1'', it_Date = ''2026-08-27'', it_RouteID = ''R1'', it_DepUnix = 100,
    it_StopTimes = [?st 1 ''A'' 100 100, ?st 2 ''B'' 50 200]\<rparr>"
  have "ValidateBatch [?trip] = None" by (simp add: ValidateBatch_def it_key_def)
  then show ?thesis by (intro exI [of _ ?trip]) simp
qed

text \<open>Validation never looks at the keys of the stop rows: a batch is accepted whose stop times
  are inserted for another trip than the one whose old stop times are deleted.\<close>

theorem ValidateBatch_ignores_stop_keys:
  "\<exists>trip st. ValidateBatch [trip] = None \<and> InsertStopTime st \<in> set (batch_sql [trip]) \<and>
     TripKey (st_TripID st) (st_Date st) \<noteq> it_key trip"
proof -
  let ?st = "\<lparr>st_TripID = ''T2'', st_Date = ''2026-08-27'', st_StopSeq = 1, st_StationID = ''A'',
    st_ArrivalUnix = 100, st_DepartureUnix = 100\<rparr>"
  let ?trip = "\<lparr>it_TripID = ''T1'', it_Date = ''2026-08-27'', it_RouteID = ''R1'', it_DepUnix = 100, it_StopTimes = [?st]\<rparr>"
  have "ValidateBatch [?trip] = None" "InsertStopTime ?st \<in> set (batch_sql [?trip])" "TripKey ''T2'' ''2026-08-27'' \<noteq> it_key ?trip"
    by (simp_all add: ValidateBatch_def it_key_def batch_sql_def)
  then show ?thesis by (intro exI [of _ ?trip] exI [of _ ?st]) simp
qed

end
