(* ===== verification/Content_Hash.thy ===== *)
theory Content_Hash
  imports Route_Buffer
begin

text \<open>
  The content hash of \<^verbatim>\<open>internal/schedule/buffer.go\<close>: the byte string \<open>manifestHash\<close>
  feeds to SHA-256 (a parameter), the hexadecimal rendering and the guard \<open>manifestChanged\<close>.
  The interface \<open>prefix_code\<close> says that an encoding can be read back off the front of a byte
  string; the hash input is a composition of such encodings, so it determines everything that is
  written into it. The theory \<open>Reload_Guard\<close> shows that a built schedule has nothing else.
\<close>

section \<open>The bytes\<close>

text \<open>\<open>binary.BigEndian.PutUint64(scratch, uint64(v))\<close>: eight bytes, most significant first.\<close>

primrec be_bytes :: "nat \<Rightarrow> nat \<Rightarrow> string" where
  "be_bytes 0 x = []"
| "be_bytes (Suc k) x = be_bytes k (x div 256) @ [char_of (x mod 256)]"

definition put_int :: "int \<Rightarrow> string" where
  "put_int v = be_bytes 8 (nat (v mod 2 ^ 64))"

definition put_str :: "string \<Rightarrow> string" where
  "put_str s = put_int (int (length s)) @ s"

definition hash_trip :: "trip_stop_times \<Rightarrow> string" where
  "hash_trip tst =
     put_str (TripID (Key tst)) @ put_str (Date (Key tst)) @
     put_int (int (length (Arrivals tst))) @ concat (map put_int (Arrivals tst)) @
     put_int (int (length (Departures tst))) @ concat (map put_int (Departures tst))"

definition hash_route :: "route_entry \<Rightarrow> trip_stop_times list option \<Rightarrow> string" where
  "hash_route route trips =
     put_str (RouteID route) @
     put_int (int (length (StopIDs route))) @ concat (map put_str (StopIDs route)) @
     (case trips of
        None \<Rightarrow> []
      | Some ts \<Rightarrow> put_int (int (length ts)) @ concat (map hash_trip ts))"

definition hash_edges :: "string \<times> footpath list \<Rightarrow> string" where
  "hash_edges = (\<lambda>(k, edges).
     put_str k @ put_int (int (length edges)) @
     concat (map (\<lambda>e. put_str (NeighbourStop e) @ put_int (WalkSeconds e)) edges))"

definition manifest_bytes :: "route_buffer \<Rightarrow> string" where
  "manifest_bytes buf =
     (let fpKeys = sort (map fst (Footpaths buf)) in
      put_int (int (length (Routes buf))) @
      concat (map (\<lambda>ri. hash_route (Routes buf ! ri)
          (if ri \<ge> length (StopTimes buf) then None else Some (StopTimes buf ! ri)))
        [0..<length (Routes buf)]) @
      put_int (int (length fpKeys)) @
      concat (map (\<lambda>k. hash_edges (k, gm_get (Footpaths buf) k [])) fpKeys))"

definition hexdigits :: string where "hexdigits = ''0123456789abcdef''"

definition hexBytes :: "string \<Rightarrow> string" where
  "hexBytes b = concat (map (\<lambda>v. [hexdigits ! (of_char v div 16), hexdigits ! (of_char v mod 16)]) b)"

definition manifestHash :: "(string \<Rightarrow> string) \<Rightarrow> route_buffer \<Rightarrow> string" where
  "manifestHash sha256 buf = hexBytes (sha256 (manifest_bytes buf))"

text \<open>
  The guard holds its mutex throughout: it answers whether to publish and returns the stored
  hash, which \<open>ResetManifest\<close> sets to the empty string.
\<close>

definition manifestChanged :: "string \<Rightarrow> string \<Rightarrow> bool \<times> string" where
  "manifestChanged hash stored = (if stored = hash then (False, stored) else (True, hash))"

definition ResetManifest :: string where "ResetManifest = []"

section \<open>Prefix codes\<close>

locale prefix_code =
  fixes enc :: "'a \<Rightarrow> string" and dom :: "'a \<Rightarrow> bool"
  assumes prefix: "dom x \<Longrightarrow> dom y \<Longrightarrow> enc x @ r = enc y @ s \<Longrightarrow> x = y \<and> r = s"
begin

lemma enc_inject: "dom x \<Longrightarrow> dom y \<Longrightarrow> enc x = enc y \<Longrightarrow> x = y"
  using prefix [of x y "[]" "[]"] by simp

lemma concat_prefix:
  "list_all dom xs \<Longrightarrow> list_all dom ys \<Longrightarrow> length xs = length ys \<Longrightarrow>
     concat (map enc xs) @ r = concat (map enc ys) @ s \<Longrightarrow> xs = ys \<and> r = s"
proof (induction xs ys rule: list_induct2')
  case (4 x xs y ys)
  then show ?case using prefix [of x y "concat (map enc xs) @ r" "concat (map enc ys) @ s"] by simp
qed auto

end

lemma length_be_bytes [simp]: "length (be_bytes k x) = k"
  by (induction k arbitrary: x) auto

lemma be_bytes_inject: "x < 256 ^ k \<Longrightarrow> y < 256 ^ k \<Longrightarrow> be_bytes k x = be_bytes k y \<Longrightarrow> x = y"
proof (induction k arbitrary: x y)
  case (Suc k)
  then have "x div 256 < 256 ^ k" "y div 256 < 256 ^ k" by (auto simp: less_mult_imp_div_less mult.commute)
  moreover from Suc.prems(3) have "be_bytes k (x div 256) = be_bytes k (y div 256)"
    "(char_of (x mod 256) :: char) = char_of (y mod 256)" by auto
  moreover have "x mod 256 = y mod 256"
    using Suc.prems(3) by (metis append1_eq_conv be_bytes.simps(2) mod_mod_trivial of_char_of)
  ultimately have "x div 256 = y div 256" "x mod 256 = y mod 256"
    using Suc.IH by blast+
  then show ?case by (metis div_mult_mod_eq)
qed simp

interpretation int_code: prefix_code put_int in_i64
proof
  fix x y :: int and r s
  assume xy: "in_i64 x" "in_i64 y" "put_int x @ r = put_int y @ s"
  then have "put_int x = put_int y" "r = s" by (auto simp: put_int_def)
  then have "nat (x mod 2 ^ 64) = nat (y mod 2 ^ 64)"
    by (intro be_bytes_inject [of _ 8]) (auto simp: put_int_def nat_less_iff)
  then have "x mod 2 ^ 64 = y mod 2 ^ 64"
    by (metis eq_nat_nat_iff pos_mod_sign zero_less_power zero_less_numeral)
  then have "i64 x = i64 y" unfolding i64_def by (metis mod_add_left_eq)
  with xy(1,2) show "x = y \<and> r = s" using \<open>r = s\<close> by (simp add: i64_id)
qed

text \<open>Slices Go can hold: the length fits a 64-bit integer.\<close>

definition sized :: "'a list \<Rightarrow> bool" where
  "sized xs \<longleftrightarrow> int (length xs) < 2 ^ 63"

lemma sized_i64: "sized xs \<Longrightarrow> in_i64 (int (length xs))"
  by (simp add: sized_def in_i64_def)

context prefix_code
begin

lemma counted_prefix:
  assumes "sized xs" "sized ys" "list_all dom xs" "list_all dom ys"
    and "put_int (int (length xs)) @ concat (map enc xs) @ r = put_int (int (length ys)) @ concat (map enc ys) @ s"
  shows "xs = ys \<and> r = s"
proof -
  from int_code.prefix [OF sized_i64 [OF assms(1)] sized_i64 [OF assms(2)] assms(5)]
  have "length xs = length ys" "concat (map enc xs) @ r = concat (map enc ys) @ s" by auto
  with concat_prefix assms(3,4) show ?thesis by blast
qed

end

interpretation str_code: prefix_code put_str sized
proof
  fix x y r s
  assume xy: "sized x" "sized y" "put_str x @ r = put_str y @ s"
  then show "x = y \<and> r = s"
    using int_code.prefix [OF sized_i64 [OF xy(1)] sized_i64 [OF xy(2)], of "x @ r" "y @ s"]
    by (auto simp: put_str_def)
qed

section \<open>What the hash input determines\<close>

text \<open>
  The part of a buffer that is hashed: route IDs, stop sequences, each trip's key and times, and
  the footpaths in key order. Codes are stated on this part. The station IDs of a trip, the trip
  keys of a route, both indexes and the FIFO flags are not hashed; the loader derives them.
\<close>

type_synonym trip_view = "trip_key \<times> int list \<times> int list"

definition trip_view :: "trip_stop_times \<Rightarrow> trip_view" where
  "trip_view t = (Key t, Arrivals t, Departures t)"

definition buffer_view :: "route_buffer \<Rightarrow>
    (string \<times> string list \<times> trip_view list) list \<times> (string \<times> footpath list) list" where
  "buffer_view buf =
     (map (\<lambda>(r, ts). (RouteID r, StopIDs r, map trip_view ts)) (zip (Routes buf) (StopTimes buf)),
      map (\<lambda>k. (k, gm_get (Footpaths buf) k [])) (sort (map fst (Footpaths buf))))"

definition enc_trip :: "trip_view \<Rightarrow> string" where
  "enc_trip = (\<lambda>(k, as, ds).
     put_str (TripID k) @ put_str (Date k) @
     put_int (int (length as)) @ concat (map put_int as) @
     put_int (int (length ds)) @ concat (map put_int ds))"

definition trip_dom :: "trip_view \<Rightarrow> bool" where
  "trip_dom = (\<lambda>(k, as, ds). sized (TripID k) \<and> sized (Date k) \<and> sized as \<and> list_all in_i64 as \<and>
     sized ds \<and> list_all in_i64 ds)"

definition enc_route :: "string \<times> string list \<times> trip_view list \<Rightarrow> string" where
  "enc_route = (\<lambda>(rid, stops, ts).
     put_str rid @ put_int (int (length stops)) @ concat (map put_str stops) @
     put_int (int (length ts)) @ concat (map enc_trip ts))"

definition route_dom :: "string \<times> string list \<times> trip_view list \<Rightarrow> bool" where
  "route_dom = (\<lambda>(rid, stops, ts). sized rid \<and> sized stops \<and> list_all sized stops \<and>
     sized ts \<and> list_all trip_dom ts)"

definition edge_dom :: "footpath \<Rightarrow> bool" where
  "edge_dom e \<longleftrightarrow> sized (NeighbourStop e) \<and> in_i64 (WalkSeconds e)"

definition edges_dom :: "string \<times> footpath list \<Rightarrow> bool" where
  "edges_dom = (\<lambda>(k, es). sized k \<and> sized es \<and> list_all edge_dom es)"

interpretation trip_code: prefix_code enc_trip trip_dom
proof
  fix x y :: trip_view and r s
  obtain k a d k' a' d' where xy: "x = (k, a, d)" "y = (k', a', d')" by (cases x; cases y) auto
  assume dom: "trip_dom x" "trip_dom y" and eq: "enc_trip x @ r = enc_trip y @ s"
  note d = dom [unfolded xy trip_dom_def prod.case]
  have "TripID k = TripID k' \<and> Date k = Date k' \<and> a = a' \<and> d = d' \<and> r = s"
    using eq d unfolding xy enc_trip_def prod.case append_assoc
    by (metis str_code.prefix int_code.counted_prefix)
  then show "x = y \<and> r = s" by (simp add: xy trip_key.expand)
qed

interpretation route_code: prefix_code enc_route route_dom
proof
  fix x y :: "string \<times> string list \<times> trip_view list" and r s
  obtain i p t i' p' t' where xy: "x = (i, p, t)" "y = (i', p', t')" by (cases x; cases y) auto
  assume dom: "route_dom x" "route_dom y" and eq: "enc_route x @ r = enc_route y @ s"
  note d = dom [unfolded xy route_dom_def prod.case]
  from d have dx: "sized i" "sized p" "list_all sized p" "sized t" "list_all trip_dom t"
    and dy: "sized i'" "sized p'" "list_all sized p'" "sized t'" "list_all trip_dom t'" by simp_all
  note e0 = eq [unfolded xy enc_route_def prod.case append_assoc]
  note s0 = str_code.prefix [OF dx(1) dy(1) e0]
  note s1 = str_code.counted_prefix [OF dx(2) dy(2) dx(3) dy(3) s0 [THEN conjunct2]]
  note s2 = trip_code.counted_prefix [OF dx(4) dy(4) dx(5) dy(5) s1 [THEN conjunct2]]
  have "i = i'" by (rule s0 [THEN conjunct1])
  have "p = p'" by (rule s1 [THEN conjunct1])
  have "t = t' \<and> r = s" by (rule s2)
  with \<open>i = i'\<close> \<open>p = p'\<close> have "i = i' \<and> p = p' \<and> t = t' \<and> r = s" by blast
  then show "x = y \<and> r = s" by (simp add: xy)
qed

interpretation edge_code: prefix_code "\<lambda>e. put_str (NeighbourStop e) @ put_int (WalkSeconds e)" edge_dom
proof
  fix x y :: footpath and r s
  assume dom: "edge_dom x" "edge_dom y"
    and eq: "(put_str (NeighbourStop x) @ put_int (WalkSeconds x)) @ r =
      (put_str (NeighbourStop y) @ put_int (WalkSeconds y)) @ s"
  have "NeighbourStop x = NeighbourStop y \<and> WalkSeconds x = WalkSeconds y \<and> r = s"
    using eq dom unfolding edge_dom_def append_assoc by (metis str_code.prefix int_code.prefix)
  then show "x = y \<and> r = s" by (simp add: footpath.expand)
qed

interpretation edges_code: prefix_code hash_edges edges_dom
proof
  fix x y :: "string \<times> footpath list" and r s
  obtain k e k' e' where xy: "x = (k, e)" "y = (k', e')" by (cases x; cases y) auto
  assume dom: "edges_dom x" "edges_dom y" and eq: "hash_edges x @ r = hash_edges y @ s"
  note d = dom [unfolded xy edges_dom_def prod.case]
  from d have dx: "sized k" "sized e" "list_all edge_dom e"
    and dy: "sized k'" "sized e'" "list_all edge_dom e'" by simp_all
  note e0 = eq [unfolded xy hash_edges_def prod.case append_assoc]
  note s0 = str_code.prefix [OF dx(1) dy(1) e0]
  note s1 = edge_code.counted_prefix [OF dx(2) dy(2) dx(3) dy(3) s0 [THEN conjunct2]]
  from s0 s1 show "x = y \<and> r = s" by (simp add: xy)
qed

lemma hash_route_enc:
  "hash_route r (Some ts) = enc_route (RouteID r, StopIDs r, map trip_view ts)"
  by (simp add: hash_route_def enc_route_def hash_trip_def [abs_def] enc_trip_def trip_view_def comp_def)

text \<open>A buffer whose slices and integers are Go's, with stop times for every route.\<close>

definition buffer_sized :: "route_buffer \<Rightarrow> bool" where
  "buffer_sized buf \<longleftrightarrow> length (StopTimes buf) = length (Routes buf) \<and> sized (Routes buf) \<and> sized (Footpaths buf) \<and>
     list_all route_dom (fst (buffer_view buf)) \<and> list_all edges_dom (snd (buffer_view buf))"

lemma manifest_bytes_enc:
  assumes "length (StopTimes buf) = length (Routes buf)"
  shows "manifest_bytes buf =
     put_int (int (length (fst (buffer_view buf)))) @ concat (map enc_route (fst (buffer_view buf))) @
     put_int (int (length (snd (buffer_view buf)))) @ concat (map hash_edges (snd (buffer_view buf))) @ []"
proof -
  have "map (\<lambda>ri. hash_route (Routes buf ! ri)
          (if ri \<ge> length (StopTimes buf) then None else Some (StopTimes buf ! ri))) [0..<length (Routes buf)] =
        map enc_route (fst (buffer_view buf))"
    using assms by (intro nth_equalityI) (auto simp: buffer_view_def hash_route_enc)
  then show ?thesis
    using assms by (simp add: manifest_bytes_def Let_def buffer_view_def comp_def)
qed

lemma hexBytes_inject: "hexBytes b = hexBytes c \<Longrightarrow> b = c"
proof (induction b c rule: list_induct2')
  case (4 x xs y ys)
  have hex: "i = j" if "i < 16" "j < 16" "hexdigits ! i = hexdigits ! j" for i j
  proof -
    have "distinct hexdigits" "length hexdigits = 16" by (simp_all add: hexdigits_def)
    with that show ?thesis by (simp add: nth_eq_iff_index_eq)
  qed
  have b: "of_char c div 16 < (16::nat)" for c :: char
  proof -
    have "(of_char c :: nat) < 256" by (metis mod_less_divisor of_char_mod_256 zero_less_numeral)
    then show ?thesis by (intro less_mult_imp_div_less) simp
  qed
  from 4 have "(of_char x :: nat) div 16 = of_char y div 16" "(of_char x :: nat) mod 16 = of_char y mod 16"
    using hex b by (auto simp: hexBytes_def)
  then have "(of_char x :: nat) = of_char y" by (metis div_mult_mod_eq)
  with 4 show ?case by (simp add: hexBytes_def)
qed (auto simp: hexBytes_def)

lemma manifest_bytes_view:
  assumes "buffer_sized b1" "buffer_sized b2" "manifest_bytes b1 = manifest_bytes b2"
  shows "buffer_view b1 = buffer_view b2"
proof -
  have len: "length (StopTimes b1) = length (Routes b1)" "length (StopTimes b2) = length (Routes b2)"
    using assms(1,2) by (simp_all add: buffer_sized_def)
  have d: "sized (fst (buffer_view b)) \<and> sized (snd (buffer_view b)) \<and> list_all route_dom (fst (buffer_view b)) \<and>
      list_all edges_dom (snd (buffer_view b))" if "buffer_sized b" for b
    using that by (simp add: buffer_sized_def buffer_view_def sized_def)
  note eq = assms(3) [unfolded manifest_bytes_enc [OF len(1)] manifest_bytes_enc [OF len(2)]]
  from route_code.counted_prefix [OF _ _ _ _ eq] d [OF assms(1)] d [OF assms(2)]
  have r: "fst (buffer_view b1) = fst (buffer_view b2)"
    and rest: "put_int (int (length (snd (buffer_view b1)))) @ concat (map hash_edges (snd (buffer_view b1))) @ [] =
      put_int (int (length (snd (buffer_view b2)))) @ concat (map hash_edges (snd (buffer_view b2))) @ []" by blast+
  from edges_code.counted_prefix [OF _ _ _ _ rest] d [OF assms(1)] d [OF assms(2)]
  have "snd (buffer_view b1) = snd (buffer_view b2)" by blast
  with r show ?thesis by (rule prod_eqI)
qed

end
