(* ===== verification/Loader.thy ===== *)
theory Loader
  imports Content_Hash
begin

text \<open>
  The schedule load of \<^verbatim>\<open>internal/schedule/loader.go\<close>. What Postgres answers is an argument: the
  rows of the two queries in their \<open>ORDER BY\<close> order, a failing \<open>rows.Scan\<close> as \<open>None\<close> in the
  list, a failing query or iteration as its own case. \<open>ReloadRouteArrays\<close> builds a staging buffer
  and publishes it under the content hash guard; the published pointer and the stored hash are the
  state. \<open>buffer_wf\<close> is the invariant of everything that is ever published.
\<close>

section \<open>Inputs and state\<close>

record schedule_row =
  row_RouteID :: string
  row_TripID :: string
  row_Date :: string
  row_StopSeq :: int
  row_StationID :: string
  row_Arrival :: int
  row_Departure :: int

text \<open>\<open>Rows rs ok\<close>: the rows in order, then the answer of \<open>rows.Err()\<close>.\<close>

datatype 'r query = QueryFailed | Rows "'r option list" bool

datatype load_error = QuerySchedule | ScanScheduleRow | IterateScheduleRows

record trip_record =
  tr_key :: trip_key
  tr_routeID :: string
  tr_stops :: "(string \<times> int \<times> int) list"

text \<open>
  The grouping loop. The records the code points to are a store, addressed by position; the
  current trip is the one allocated last, and \<open>routeTrips\<close> holds addresses.
\<close>

record grouping =
  store :: "trip_record list"
  routeTrips :: "(string, nat list) gomap"
  routeOrder :: "string list"

record schedule_state =
  live :: route_buffer
  manifest :: string

section \<open>Grouping the rows\<close>

definition open_trip :: "schedule_row \<Rightarrow> grouping \<Rightarrow> grouping" where
  "open_trip r g =
     (let key = TripKey (row_TripID r) (row_Date r) in
      if store g = [] \<or> tr_key (last (store g)) \<noteq> key
      then g\<lparr>store := store g @ [\<lparr>tr_key = key, tr_routeID = row_RouteID r, tr_stops = []\<rparr>],
             routeTrips := gm_put (row_RouteID r)
               (gm_get (routeTrips g) (row_RouteID r) [] @ [length (store g)]) (routeTrips g),
             routeOrder := add_new (row_RouteID r) (routeOrder g)\<rparr>
      else g)"

definition add_stop :: "schedule_row \<Rightarrow> grouping \<Rightarrow> grouping" where
  "add_stop r g =
     (let t = last (store g) in
      g\<lparr>store := butlast (store g) @
          [t\<lparr>tr_stops := tr_stops t @ [(row_StationID r, row_Arrival r, row_Departure r)]\<rparr>]\<rparr>)"

fun group_rows :: "schedule_row option list \<Rightarrow> grouping \<Rightarrow> grouping option" where
  "group_rows [] g = Some g"
| "group_rows (None # rows) g = None"
| "group_rows (Some r # rows) g = group_rows rows (add_stop r (open_trip r g))"

section \<open>Building the routes\<close>

definition stop_times_of :: "trip_record \<Rightarrow> trip_stop_times" where
  "stop_times_of t =
     \<lparr>Key = tr_key t, Arrivals = map (\<lambda>(sid, arr, dep). arr) (tr_stops t),
      Departures = map (\<lambda>(sid, arr, dep). dep) (tr_stops t), StationIDs = map fst (tr_stops t)\<rparr>"

text \<open>The trips that share the canonical stops: same count, then the same station at each position.\<close>

definition valid_trips :: "string list \<Rightarrow> trip_record list \<Rightarrow> trip_record list" where
  "valid_trips stopIDs trips =
     filter (\<lambda>t. \<not> (length (tr_stops t) \<noteq> length stopIDs) \<and>
               \<not> list_ex (\<lambda>i. fst (tr_stops t ! i) \<noteq> stopIDs ! i) [0..<length (tr_stops t)]) trips"

definition trip_order :: "trip_stop_times \<Rightarrow> int \<times> string \<times> string" where
  "trip_order t = (Departures t ! 0, Date (Key t), TripID (Key t))"

definition index_trips :: "int \<Rightarrow> trip_stop_times list \<Rightarrow> (trip_key, trip_location) gomap \<Rightarrow> (trip_key, trip_location) gomap" where
  "index_trips ri tsts idx =
     fold (\<lambda>ti. gm_put (Key (tsts ! ti)) \<lparr>tl_RouteIdx = ri, tl_TripIdx = int ti\<rparr>) [0..<length tsts] idx"

definition index_stops :: "int \<Rightarrow> string list \<Rightarrow> (string, route_stop list) gomap \<Rightarrow> (string, route_stop list) gomap" where
  "index_stops ri stopIDs idx =
     fold (\<lambda>pos m. gm_put (stopIDs ! pos)
        (gm_get m (stopIDs ! pos) [] @ [\<lparr>RouteIdx = ri, StopPos = int pos\<rparr>]) m) [0..<length stopIDs] idx"

definition add_route :: "grouping \<Rightarrow> string \<Rightarrow> route_buffer \<Rightarrow> route_buffer" where
  "add_route g routeID staging =
     (let trips = map (\<lambda>a. store g ! a) (gm_get (routeTrips g) routeID []) in
      if length trips = 0 then staging
      else
        (let stopIDs = map fst (tr_stops (hd trips)) in
         if length stopIDs = 0 then staging
         else
           (let valid = valid_trips stopIDs trips in
            if length valid = 0 then staging
            else
              (let routeIdx = int (length (Routes staging));
                   routeStopTimes = sort_key trip_order (map stop_times_of valid)
               in staging
                 \<lparr>Routes := Routes staging @ [\<lparr>RouteID = routeID, StopIDs = stopIDs, TripKeys = map Key routeStopTimes\<rparr>],
                  StopTimes := StopTimes staging @ [routeStopTimes],
                  TripIndex := index_trips routeIdx routeStopTimes (TripIndex staging),
                  StopToRoutes := index_stops routeIdx stopIDs (StopToRoutes staging),
                  RouteFIFO := RouteFIFO staging @ [computeFIFO routeStopTimes]\<rparr>))))"

definition build_routes :: "grouping \<Rightarrow> route_buffer" where
  "build_routes g = fold (add_route g) (routeOrder g) newRouteBuffer"

section \<open>Footpaths\<close>

record footpath_row =
  fr_StationID :: string
  fr_NeighbourID :: string
  fr_WalkSeconds :: int

text \<open>\<open>loadFootpaths\<close> returns what it has read so far beside the error; the flag says whether
  there was one.\<close>

fun read_footpaths :: "footpath_row option list \<Rightarrow> walk_graph \<Rightarrow> walk_graph \<times> bool" where
  "read_footpaths [] out = (out, True)"
| "read_footpaths (None # rows) out = (out, False)"
| "read_footpaths (Some r # rows) out =
     (if fr_WalkSeconds r \<le> 0 \<or> fr_StationID r = fr_NeighbourID r then read_footpaths rows out
      else read_footpaths rows
        (gm_put (fr_StationID r)
           (gm_get out (fr_StationID r) [] @ [Footpath (fr_NeighbourID r) (fr_WalkSeconds r)]) out))"

definition loadFootpaths :: "footpath_row query \<Rightarrow> walk_graph \<times> bool" where
  "loadFootpaths q =
     (case q of
        QueryFailed \<Rightarrow> ([], False)
      | Rows rows ok \<Rightarrow> (let (out, scanned) = read_footpaths rows [] in (out, scanned \<and> ok)))"

section \<open>The reload\<close>

text \<open>The end of a reload: a schedule that differs from the one published last takes its place.\<close>

definition publish_staging :: "(string \<Rightarrow> string) \<Rightarrow> load_options \<Rightarrow> footpath_row query \<Rightarrow> route_buffer \<Rightarrow> schedule_state \<Rightarrow> schedule_state" where
  "publish_staging sha256 opts fq staging st =
     (let direct = fst (loadFootpaths fq);
          staging = staging\<lparr>Footpaths := closeFootpaths direct opts\<rparr>;
          (changed, stored) = manifestChanged (manifestHash sha256 staging) (manifest st)
      in if \<not> changed then st\<lparr>manifest := stored\<rparr>
         else st\<lparr>manifest := stored, live := staging\<rparr>)"

definition ReloadRouteArrays :: "(string \<Rightarrow> string) \<Rightarrow> load_options \<Rightarrow> schedule_row query \<Rightarrow> footpath_row query \<Rightarrow>
    schedule_state \<Rightarrow> load_error + schedule_state" where
  "ReloadRouteArrays sha256 opts q fq st =
     (case q of
        QueryFailed \<Rightarrow> Inl QuerySchedule
      | Rows rows ok \<Rightarrow>
          (case group_rows rows \<lparr>store = [], routeTrips = [], routeOrder = []\<rparr> of
             None \<Rightarrow> Inl ScanScheduleRow
           | Some g \<Rightarrow>
               if \<not> ok then Inl IterateScheduleRows
               else Inr (publish_staging sha256 opts fq (build_routes g) st)))"

text \<open>The state at start, and what any sequence of reloads makes of it; a failed reload keeps it.\<close>

definition init_schedule :: schedule_state where
  "init_schedule = \<lparr>live = newRouteBuffer, manifest = []\<rparr>"

definition reload_step :: "(string \<Rightarrow> string) \<Rightarrow> load_options \<Rightarrow> schedule_row query \<Rightarrow> footpath_row query \<Rightarrow> schedule_state \<Rightarrow> schedule_state" where
  "reload_step sha256 opts q fq st =
     (case ReloadRouteArrays sha256 opts q fq st of Inl e \<Rightarrow> st | Inr st' \<Rightarrow> st')"

inductive schedule_reachable :: "(string \<Rightarrow> string) \<Rightarrow> schedule_state \<Rightarrow> bool" for sha256 where
  schedule_init: "schedule_reachable sha256 init_schedule"
| schedule_reload: "schedule_reachable sha256 st \<Longrightarrow> schedule_reachable sha256 (reload_step sha256 opts q fq st)"
| schedule_reset: "schedule_reachable sha256 st \<Longrightarrow> schedule_reachable sha256 (st\<lparr>manifest := ResetManifest\<rparr>)"

section \<open>The invariant of a published buffer\<close>

definition route_wf :: "route_entry \<Rightarrow> trip_stop_times list \<Rightarrow> bool" where
  "route_wf r ts \<longleftrightarrow>
     StopIDs r \<noteq> [] \<and> ts \<noteq> [] \<and> TripKeys r = map Key ts \<and> sorted (map trip_order ts) \<and>
     (\<forall>t \<in> set ts. length (Arrivals t) = length (StopIDs r) \<and> length (Departures t) = length (StopIDs r) \<and>
        StationIDs t = StopIDs r)"

text \<open>The stop index lists exactly the positions at which routes serve a station.\<close>

definition stops_indexed :: "route_buffer \<Rightarrow> bool" where
  "stops_indexed b \<longleftrightarrow>
     (\<forall>st rs. rs \<in> set (gm_get (StopToRoutes b) st []) \<longleftrightarrow>
        (\<exists>ri pos. rs = \<lparr>RouteIdx = int ri, StopPos = int pos\<rparr> \<and> ri < length (Routes b) \<and>
           pos < length (StopIDs (Routes b ! ri)) \<and> StopIDs (Routes b ! ri) ! pos = st))"

definition trips_indexed :: "route_buffer \<Rightarrow> bool" where
  "trips_indexed b \<longleftrightarrow>
     (\<forall>key loc. map_of (TripIndex b) key = Some loc \<longrightarrow>
        (\<exists>ri ti. loc = \<lparr>tl_RouteIdx = int ri, tl_TripIdx = int ti\<rparr> \<and> ri < length (StopTimes b) \<and>
           ti < length (StopTimes b ! ri) \<and> Key (StopTimes b ! ri ! ti) = key)) \<and>
     (\<forall>ts \<in> set (StopTimes b). \<forall>t \<in> set ts. map_of (TripIndex b) (Key t) \<noteq> None)"

definition buffer_wf :: "route_buffer \<Rightarrow> bool" where
  "buffer_wf b \<longleftrightarrow>
     length (StopTimes b) = length (Routes b) \<and> length (RouteFIFO b) = length (Routes b) \<and>
     (\<forall>ri < length (Routes b). route_wf (Routes b ! ri) (StopTimes b ! ri) \<and>
        RouteFIFO b ! ri = computeFIFO (StopTimes b ! ri)) \<and>
     gm_ok (StopToRoutes b) \<and> gm_ok (TripIndex b) \<and> gm_ok (Footpaths b) \<and>
     stops_indexed b \<and> trips_indexed b"

lemma gm_get_put [simp]: "gm_get (gm_put k v m) k' z = (if k' = k then v else gm_get m k' z)"
  by (simp add: gm_get_def gomap_simps)

lemma index_stops_fold:
  "gm_ok m \<Longrightarrow> gm_ok (fold (\<lambda>pos m. gm_put (ids ! pos) (gm_get m (ids ! pos) [] @ [f pos]) m) ps m) \<and>
   gm_get (fold (\<lambda>pos m. gm_put (ids ! pos) (gm_get m (ids ! pos) [] @ [f pos]) m) ps m) st [] =
     gm_get m st [] @ map f (filter (\<lambda>pos. ids ! pos = st) ps)"
proof (induction ps arbitrary: m)
  case (Cons p ps)
  from Cons.IH [of "gm_put (ids ! p) (gm_get m (ids ! p) [] @ [f p]) m", OF gm_ok_put [OF Cons.prems]] show ?case
    by auto
qed simp

lemma gm_get_index_stops:
  "gm_ok m \<Longrightarrow> gm_ok (index_stops ri ids m) \<and> gm_get (index_stops ri ids m) st [] =
     gm_get m st [] @ map (\<lambda>pos. \<lparr>RouteIdx = ri, StopPos = int pos\<rparr>) (filter (\<lambda>pos. ids ! pos = st) [0..<length ids])"
  unfolding index_stops_def by (rule index_stops_fold)

lemma index_trips_fold:
  assumes "gm_ok m"
  shows "gm_ok (fold (\<lambda>ti. gm_put (Key (ts ! ti)) (f ti)) is m) \<and>
    (\<forall>key loc. map_of (fold (\<lambda>ti. gm_put (Key (ts ! ti)) (f ti)) is m) key = Some loc \<longrightarrow>
       map_of m key = Some loc \<or> (\<exists>ti \<in> set is. loc = f ti \<and> Key (ts ! ti) = key)) \<and>
    dom (map_of (fold (\<lambda>ti. gm_put (Key (ts ! ti)) (f ti)) is m)) = dom (map_of m) \<union> (\<lambda>ti. Key (ts ! ti)) ` set is"
  using assms
proof (induction "is" arbitrary: m)
  case (Cons i "is")
  note IH = Cons.IH [of "gm_put (Key (ts ! i)) (f i) m", OF gm_ok_put [OF Cons.prems]]
  from IH show ?case by (auto simp: gomap_simps split: if_splits)
qed simp

lemma gm_ok_index_trips: "gm_ok m \<Longrightarrow> gm_ok (index_trips ri ts m)"
  unfolding index_trips_def using index_trips_fold [THEN conjunct1] .

lemma newRouteBuffer_wf: "buffer_wf newRouteBuffer"
  by (simp add: buffer_wf_def newRouteBuffer_def stops_indexed_def trips_indexed_def gm_get_def)

lemma positions_agree:
  "map f xs = ys \<longleftrightarrow> \<not> length xs \<noteq> length ys \<and> \<not> list_ex (\<lambda>i. f (xs ! i) \<noteq> ys ! i) [0..<length xs]"
proof -
  have "list_ex (\<lambda>i. f (xs ! i) \<noteq> ys ! i) [0..<length xs] \<longleftrightarrow> (\<exists>i < length xs. f (xs ! i) \<noteq> ys ! i)"
    by (auto simp: list_ex_iff)
  moreover have "map f xs = ys \<longleftrightarrow> length xs = length ys \<and> (\<forall>i < length xs. f (xs ! i) = ys ! i)"
    by (metis length_map nth_equalityI nth_map)
  ultimately show ?thesis by blast
qed

lemma valid_trips_stops:
  "t \<in> set (valid_trips stopIDs trips) \<longleftrightarrow> t \<in> set trips \<and> map fst (tr_stops t) = stopIDs"
  unfolding valid_trips_def set_filter mem_Collect_eq positions_agree by (rule refl)

lemma stops_indexed_add:
  assumes "stops_indexed b" "gm_ok (StopToRoutes b)"
  shows "stops_indexed (b\<lparr>Routes := Routes b @ [r], StopTimes := x, TripIndex := y,
    StopToRoutes := index_stops (int (length (Routes b))) (StopIDs r) (StopToRoutes b), RouteFIFO := z\<rparr>)"
proof -
  have "rs \<in> set (gm_get (index_stops (int (length (Routes b))) (StopIDs r) (StopToRoutes b)) st []) \<longleftrightarrow>
      (\<exists>ri pos. rs = \<lparr>RouteIdx = int ri, StopPos = int pos\<rparr> \<and> ri < Suc (length (Routes b)) \<and>
         pos < length (StopIDs ((Routes b @ [r]) ! ri)) \<and> StopIDs ((Routes b @ [r]) ! ri) ! pos = st)" (is "?l \<longleftrightarrow> ?r") for rs st
  proof -
    have "?l \<longleftrightarrow> rs \<in> set (gm_get (StopToRoutes b) st []) \<or>
        (\<exists>pos < length (StopIDs r). StopIDs r ! pos = st \<and> rs = \<lparr>RouteIdx = int (length (Routes b)), StopPos = int pos\<rparr>)"
      using gm_get_index_stops [OF assms(2)] by auto
    also have "\<dots> \<longleftrightarrow> ?r"
      using assms(1) by (auto simp: stops_indexed_def less_Suc_eq nth_append)
    finally show ?thesis .
  qed
  then show ?thesis by (simp add: stops_indexed_def)
qed

lemma trips_indexed_add:
  assumes "trips_indexed b" "gm_ok (TripIndex b)" "length (StopTimes b) = length (Routes b)"
  shows "trips_indexed (b\<lparr>Routes := w, StopTimes := StopTimes b @ [ts],
    TripIndex := index_trips (int (length (Routes b))) ts (TripIndex b), StopToRoutes := y, RouteFIFO := z\<rparr>)"
proof -
  note ix = index_trips_fold [OF assms(2), of ts "\<lambda>ti. \<lparr>tl_RouteIdx = int (length (Routes b)), tl_TripIdx = int ti\<rparr>" "[0..<length ts]",
      folded index_trips_def]
  have "\<exists>ri ti. loc = \<lparr>tl_RouteIdx = int ri, tl_TripIdx = int ti\<rparr> \<and> ri < Suc (length (StopTimes b)) \<and>
      ti < length ((StopTimes b @ [ts]) ! ri) \<and> Key ((StopTimes b @ [ts]) ! ri ! ti) = key"
    if "map_of (index_trips (int (length (Routes b))) ts (TripIndex b)) key = Some loc" for key loc
  proof -
    from ix that have "map_of (TripIndex b) key = Some loc \<or>
        (\<exists>ti \<in> set [0..<length ts]. loc = \<lparr>tl_RouteIdx = int (length (Routes b)), tl_TripIdx = int ti\<rparr> \<and> Key (ts ! ti) = key)"
      by blast
    then consider "map_of (TripIndex b) key = Some loc"
      | ti where "ti < length ts" "loc = \<lparr>tl_RouteIdx = int (length (Routes b)), tl_TripIdx = int ti\<rparr>" "Key (ts ! ti) = key"
      by auto
    then show ?thesis
    proof cases
      case 1
      with assms(1) obtain ri ti where "loc = \<lparr>tl_RouteIdx = int ri, tl_TripIdx = int ti\<rparr>" "ri < length (StopTimes b)"
        "ti < length (StopTimes b ! ri)" "Key (StopTimes b ! ri ! ti) = key" by (fastforce simp: trips_indexed_def)
      then show ?thesis by (intro exI [of _ ri] exI [of _ ti]) (simp add: nth_append)
    next
      case 2
      then show ?thesis using assms(3) by (intro exI [of _ "length (Routes b)"] exI [of _ ti]) (simp add: nth_append)
    qed
  qed
  moreover have "map_of (index_trips (int (length (Routes b))) ts (TripIndex b)) (Key t) \<noteq> None"
    if "t \<in> set ts \<or> (\<exists>ts' \<in> set (StopTimes b). t \<in> set ts')" for t
  proof -
    have "t \<in> set ts \<Longrightarrow> Key t \<in> (\<lambda>ti. Key (ts ! ti)) ` set [0..<length ts]"
      by (force simp: in_set_conv_nth)
    with that ix assms(1) have "Key t \<in> dom (map_of (index_trips (int (length (Routes b))) ts (TripIndex b)))"
      by (auto simp: trips_indexed_def)
    then show ?thesis by (simp add: domIff)
  qed
  ultimately show ?thesis unfolding trips_indexed_def by (simp, blast)
qed

lemma route_wf_built:
  assumes "stopIDs \<noteq> []" "valid_trips stopIDs trips \<noteq> []"
  shows "route_wf \<lparr>RouteID = rid, StopIDs = stopIDs, TripKeys = map Key (sort_key trip_order (map stop_times_of (valid_trips stopIDs trips)))\<rparr>
    (sort_key trip_order (map stop_times_of (valid_trips stopIDs trips)))"
proof -
  have "length (Arrivals (stop_times_of t)) = length stopIDs \<and> length (Departures (stop_times_of t)) = length stopIDs \<and>
      StationIDs (stop_times_of t) = stopIDs" if "t \<in> set (valid_trips stopIDs trips)" for t
    using that by (auto simp: stop_times_of_def valid_trips_stops)
  moreover have "sort_key trip_order (map stop_times_of (valid_trips stopIDs trips)) \<noteq> []"
    using assms(2) by (metis length_0_conv length_map length_sort)
  ultimately show ?thesis using assms(1) by (auto simp: route_wf_def)
qed

lemma add_route_wf:
  assumes "buffer_wf b"
  shows "buffer_wf (add_route g rid b)"
proof -
  define trips where "trips = map (\<lambda>a. store g ! a) (gm_get (routeTrips g) rid [])"
  define ids where "ids = map fst (tr_stops (hd trips))"
  define ts where "ts = sort_key trip_order (map stop_times_of (valid_trips ids trips))"
  let ?r = "\<lparr>RouteID = rid, StopIDs = ids, TripKeys = map Key ts\<rparr>"
  let ?b = "b\<lparr>Routes := Routes b @ [?r], StopTimes := StopTimes b @ [ts],
    TripIndex := index_trips (int (length (Routes b))) ts (TripIndex b),
    StopToRoutes := index_stops (int (length (Routes b))) ids (StopToRoutes b),
    RouteFIFO := RouteFIFO b @ [computeFIFO ts]\<rparr>"
  show ?thesis
  proof (cases "trips = [] \<or> ids = [] \<or> valid_trips ids trips = []")
    case True
    then have "add_route g rid b = b"
      unfolding add_route_def Let_def trips_def [symmetric] ids_def [symmetric] by auto
    then show ?thesis using assms by simp
  next
    case False
    then have eq: "add_route g rid b = ?b"
      unfolding add_route_def Let_def trips_def [symmetric] ids_def [symmetric] ts_def [symmetric] by simp
    from False have "route_wf ?r ts" unfolding ts_def by (intro route_wf_built) auto
    then have "route_wf ((Routes b @ [?r]) ! ri) ((StopTimes b @ [ts]) ! ri) \<and>
        (RouteFIFO b @ [computeFIFO ts]) ! ri = computeFIFO ((StopTimes b @ [ts]) ! ri)" if "ri < Suc (length (Routes b))" for ri
      using assms that by (auto simp: buffer_wf_def nth_append less_Suc_eq)
    moreover have "stops_indexed ?b" "trips_indexed ?b"
      using stops_indexed_add [where b = b and r = ?r] trips_indexed_add [where b = b] assms by (simp_all add: buffer_wf_def)
    moreover have "gm_ok (index_trips (int (length (Routes b))) ts (TripIndex b))"
      "gm_ok (index_stops (int (length (Routes b))) ids (StopToRoutes b))"
      using gm_ok_index_trips gm_get_index_stops assms unfolding buffer_wf_def by blast+
    ultimately show ?thesis using assms unfolding eq by (simp add: buffer_wf_def)
  qed
qed

lemma build_routes_wf: "buffer_wf (build_routes g)"
proof -
  have "buffer_wf b \<Longrightarrow> buffer_wf (fold (add_route g) rids b)" for rids b
    by (induction rids arbitrary: b) (auto intro: add_route_wf)
  then show ?thesis unfolding build_routes_def by (blast intro: newRouteBuffer_wf)
qed

section \<open>Grouping loses nothing\<close>

definition row_stop :: "schedule_row \<Rightarrow> trip_key \<times> string \<times> int \<times> int" where
  "row_stop r = (TripKey (row_TripID r) (row_Date r), row_StationID r, row_Arrival r, row_Departure r)"

definition flatten :: "grouping \<Rightarrow> (trip_key \<times> string \<times> int \<times> int) list" where
  "flatten g = concat (map (\<lambda>t. map (\<lambda>s. (tr_key t, s)) (tr_stops t)) (store g))"

text \<open>The addresses of a route are those of its records, and every record has a route.\<close>

definition grouping_ok :: "grouping \<Rightarrow> bool" where
  "grouping_ok g \<longleftrightarrow>
     (\<forall>rid. gm_get (routeTrips g) rid [] = filter (\<lambda>a. tr_routeID (store g ! a) = rid) [0..<length (store g)]) \<and>
     set (routeOrder g) = tr_routeID ` set (store g) \<and> distinct (routeOrder g)"

lemma flatten_row: "flatten (add_stop r (open_trip r g)) = flatten g @ [row_stop r]"
proof (cases "store g = [] \<or> tr_key (last (store g)) \<noteq> TripKey (row_TripID r) (row_Date r)")
  case True
  then show ?thesis by (simp add: add_stop_def open_trip_def flatten_def row_stop_def Let_def)
next
  case False
  then obtain ts t where st: "store g = ts @ [t]" by (metis append_butlast_last_id)
  with False show ?thesis by (simp add: add_stop_def open_trip_def flatten_def row_stop_def Let_def)
qed

lemma filter_upt_cong:
  "(\<And>a. a < n \<Longrightarrow> P a = Q a) \<Longrightarrow> filter P [0..<n] = filter Q [0..<n]"
  by (rule filter_cong) auto

lemma grouping_ok_open: "grouping_ok g \<Longrightarrow> grouping_ok (open_trip r g)"
proof (cases "store g = [] \<or> tr_key (last (store g)) \<noteq> TripKey (row_TripID r) (row_Date r)")
  case True
  assume ok: "grouping_ok g"
  let ?t = "\<lparr>tr_key = TripKey (row_TripID r) (row_Date r), tr_routeID = row_RouteID r, tr_stops = []\<rparr>"
  have "filter (\<lambda>a. tr_routeID ((store g @ [?t]) ! a) = rid) [0..<length (store g)] =
      filter (\<lambda>a. tr_routeID (store g ! a) = rid) [0..<length (store g)]" for rid
    by (rule filter_upt_cong) (simp add: nth_append)
  with True ok show ?thesis by (auto simp: grouping_ok_def open_trip_def Let_def)
qed (simp add: open_trip_def Let_def)

lemma open_trip_store: "store (open_trip r g) \<noteq> []"
  by (auto simp: open_trip_def Let_def)

lemma grouping_ok_add:
  assumes "grouping_ok g" "store g \<noteq> []"
  shows "grouping_ok (add_stop r g)"
proof -
  obtain ts t where st: "store g = ts @ [t]" using assms(2) by (metis append_butlast_last_id)
  let ?t = "t\<lparr>tr_stops := tr_stops t @ [(row_StationID r, row_Arrival r, row_Departure r)]\<rparr>"
  have "tr_routeID ((ts @ [?t]) ! a) = tr_routeID ((ts @ [t]) ! a)" if "a < Suc (length ts)" for a
    using that by (auto simp: nth_append)
  then have "filter (\<lambda>a. tr_routeID ((ts @ [?t]) ! a) = rid) [0..<Suc (length ts)] =
      filter (\<lambda>a. tr_routeID ((ts @ [t]) ! a) = rid) [0..<Suc (length ts)]" for rid
    by (intro filter_upt_cong) simp
  with assms(1) show ?thesis by (simp add: grouping_ok_def add_stop_def st del: upt_Suc)
qed

lemma group_rows_ok:
  "group_rows rows g = Some g' \<Longrightarrow> grouping_ok g \<Longrightarrow>
     grouping_ok g' \<and> flatten g' = flatten g @ map (row_stop \<circ> the) rows \<and> None \<notin> set rows"
proof (induction rows g rule: group_rows.induct)
  case (3 r rows g)
  from 3 grouping_ok_open grouping_ok_add open_trip_store show ?case by (simp add: flatten_row)
qed auto

lemma group_rows_None: "group_rows rows g = None \<longleftrightarrow> None \<in> set rows"
  by (induction rows g rule: group_rows.induct) auto

section \<open>What is published\<close>

lemma gm_ok_closeFootpaths: "gm_ok (closeFootpaths direct opts)"
proof -
  have "gm_ok out \<Longrightarrow> gm_ok (fold (\<lambda>k out. if p k then out else gm_put k (f k) out) ks out)" for p f ks and out :: walk_graph
    by (induction ks arbitrary: out) auto
  then show ?thesis by (simp add: closeFootpaths_def Let_def)
qed

lemma read_footpaths_ok:
  assumes "gm_ok out" "\<And>a e. e \<in> set (gm_get out a []) \<Longrightarrow> 0 < WalkSeconds e \<and> WalkSeconds e < 2 ^ 62"
    and "\<And>r. Some r \<in> set rows \<Longrightarrow> fr_WalkSeconds r < 2 ^ 62"
  shows "gm_ok (fst (read_footpaths rows out)) \<and>
    (\<forall>a e. e \<in> set (gm_get (fst (read_footpaths rows out)) a []) \<longrightarrow> 0 < WalkSeconds e \<and> WalkSeconds e < 2 ^ 62)"
  using assms
proof (induction rows out rule: read_footpaths.induct)
  case (3 r rows out)
  show ?case
  proof (cases "fr_WalkSeconds r \<le> 0 \<or> fr_StationID r = fr_NeighbourID r")
    case True
    with 3 show ?thesis by auto
  next
    case False
    let ?out = "gm_put (fr_StationID r) (gm_get out (fr_StationID r) [] @ [Footpath (fr_NeighbourID r) (fr_WalkSeconds r)]) out"
    have "e \<in> set (gm_get ?out a []) \<Longrightarrow> 0 < WalkSeconds e \<and> WalkSeconds e < 2 ^ 62" for a e
      using "3.prems"(2) "3.prems"(3) [of r] False by (auto split: if_splits)
    with 3 False show ?thesis by (auto intro: gm_ok_put)
  qed
qed auto

lemma gm_get_list_all:
  assumes "gm_ok m" "\<And>a e. e \<in> set (gm_get m a []) \<Longrightarrow> P e"
  shows "list_all (\<lambda>(a, es). list_all P es) m"
proof -
  have "P e" if "(a, es) \<in> set m" "e \<in> set es" for a es e
  proof -
    from that(1) assms(1) have "map_of m a = Some es" by (simp add: gm_ok_def)
    with that(2) assms(2) [of e a] show ?thesis by (simp add: gm_get_def)
  qed
  then show ?thesis by (auto simp: list_all_iff)
qed

lemma loadFootpaths_graph_ok:
  assumes "\<And>rows ok r. fq = Rows rows ok \<Longrightarrow> Some r \<in> set rows \<Longrightarrow> fr_WalkSeconds r < 2 ^ 62"
  shows "graph_ok (fst (loadFootpaths fq))"
proof (cases fq)
  case (Rows rows ok)
  have "gm_ok (fst (read_footpaths rows [])) \<and>
    (\<forall>a e. e \<in> set (gm_get (fst (read_footpaths rows [])) a []) \<longrightarrow> 0 < WalkSeconds e \<and> WalkSeconds e < 2 ^ 62)"
    by (rule read_footpaths_ok) (use assms [OF Rows] in \<open>auto simp: gm_get_def\<close>)
  then have "graph_ok (fst (read_footpaths rows []))"
    unfolding graph_ok_def by (intro conjI gm_get_list_all) blast+
  then show ?thesis by (cases "read_footpaths rows []") (simp add: loadFootpaths_def Rows)
qed (simp add: loadFootpaths_def graph_ok_def gm_ok_def)

lemma buffer_wf_footpaths: "buffer_wf b \<Longrightarrow> gm_ok fp \<Longrightarrow> buffer_wf (b\<lparr>Footpaths := fp\<rparr>)"
proof -
  assume wf: "buffer_wf b" and "gm_ok fp"
  have "stops_indexed (b\<lparr>Footpaths := fp\<rparr>) = stops_indexed b" "trips_indexed (b\<lparr>Footpaths := fp\<rparr>) = trips_indexed b"
    by (simp_all add: stops_indexed_def trips_indexed_def)
  with wf \<open>gm_ok fp\<close> show ?thesis by (simp add: buffer_wf_def)
qed

lemma reload_step_wf: "buffer_wf (live st) \<Longrightarrow> buffer_wf (live (reload_step sha256 opts q fq st))"
  using buffer_wf_footpaths [OF build_routes_wf gm_ok_closeFootpaths]
  by (auto simp: reload_step_def ReloadRouteArrays_def publish_staging_def Let_def split: sum.splits query.splits option.splits prod.splits if_splits)

lemma schedule_reachable_wf: "schedule_reachable sha256 st \<Longrightarrow> buffer_wf (live st)"
proof (induction rule: schedule_reachable.induct)
  case schedule_init
  then show ?case by (simp add: init_schedule_def newRouteBuffer_wf)
qed (simp_all add: reload_step_wf)

lemma wf_TripDeparture:
  assumes "buffer_wf b"
  shows "(\<exists>ts \<in> set (StopTimes b). \<exists>t \<in> set ts. Key t = key \<and> TripDeparture b key = Some (Departures t ! 0)) \<or>
    TripDeparture b key = Some 0 \<and> (\<forall>ts \<in> set (StopTimes b). \<forall>t \<in> set ts. Key t \<noteq> key)"
proof (cases "map_of (TripIndex b) key")
  case None
  then have "TripDeparture b key = Some 0" by (simp add: TripDeparture_def)
  moreover have "\<forall>ts \<in> set (StopTimes b). \<forall>t \<in> set ts. Key t \<noteq> key"
    using assms None unfolding buffer_wf_def trips_indexed_def by blast
  ultimately show ?thesis by blast
next
  case (Some loc)
  with assms obtain ri ti where loc: "loc = \<lparr>tl_RouteIdx = int ri, tl_TripIdx = int ti\<rparr>" "ri < length (StopTimes b)"
      "ti < length (StopTimes b ! ri)" "Key (StopTimes b ! ri ! ti) = key"
    unfolding buffer_wf_def trips_indexed_def by blast
  have "route_wf (Routes b ! ri) (StopTimes b ! ri)" using assms loc(2) by (simp add: buffer_wf_def)
  then have "Departures (StopTimes b ! ri ! ti) \<noteq> []"
    using nth_mem [OF loc(3)] unfolding route_wf_def by (metis length_0_conv)
  then have "TripDeparture b key = Some (Departures (StopTimes b ! ri ! ti) ! 0)"
    using loc by (simp add: TripDeparture_def Some Let_def)
  moreover have "StopTimes b ! ri \<in> set (StopTimes b)" "StopTimes b ! ri ! ti \<in> set (StopTimes b ! ri)"
    using loc by simp_all
  ultimately show ?thesis using loc(4) by blast
qed

section \<open>Properties\<close>

lemma manifestHash_not_Nil: "[] \<noteq> manifestHash id b"
proof -
  have "put_int n \<noteq> []" for n unfolding put_int_def by (metis length_be_bytes list.size(3) zero_neq_numeral)
  then have "manifest_bytes b \<noteq> []" by (simp add: manifest_bytes_def Let_def)
  then show ?thesis by (cases "manifest_bytes b") (auto simp: manifestHash_def hexBytes_def)
qed

text \<open>C8: every buffer that is ever published is well formed: the arrays of routes, trips and FIFO
  flags are parallel, the flags are what the overtaking test computes, every trip has an arrival
  and a departure for each stop of its route and is sorted by first departure, and the stop and
  trip indexes point exactly at what they index.\<close>

theorem published_buffers_well_formed:
  assumes "schedule_reachable sha256 st"
  shows "buffer_wf (live st)"
  using assms by (rule schedule_reachable_wf)

theorem published_buffers_well_formed_witness:
  "let row = (\<lambda>trip seq sid t. Some \<lparr>row_RouteID = ''R1'', row_TripID = trip, row_Date = ''2026-08-27'', row_StopSeq = seq,
         row_StationID = sid, row_Arrival = t, row_Departure = t\<rparr>);
       st = reload_step id DefaultLoadOptions
         (Rows [row ''T1'' 1 ''A'' 20, row ''T1'' 2 ''B'' 30, row ''T2'' 1 ''A'' 10, row ''T2'' 2 ''B'' 15] True) QueryFailed init_schedule
   in map TripKeys (Routes (live st)) = [[TripKey ''T2'' ''2026-08-27'', TripKey ''T1'' ''2026-08-27'']] \<and> buffer_wf (live st)"
proof -
  define row where "row = (\<lambda>trip seq sid t. Some \<lparr>row_RouteID = ''R1'', row_TripID = trip, row_Date = ''2026-08-27'', row_StopSeq = seq,
         row_StationID = sid, row_Arrival = t, row_Departure = t\<rparr>)"
  define st where "st = reload_step id DefaultLoadOptions
    (Rows [row ''T1'' (1::int) ''A'' 20, row ''T1'' 2 ''B'' 30, row ''T2'' 1 ''A'' 10, row ''T2'' 2 ''B'' 15] True) QueryFailed init_schedule"
  have "map TripKeys (Routes (live st)) = [[TripKey ''T2'' ''2026-08-27'', TripKey ''T1'' ''2026-08-27'']]"
    by (simp add: st_def row_def reload_step_def ReloadRouteArrays_def publish_staging_def init_schedule_def manifestChanged_def
        open_trip_def add_stop_def gm_get_def add_new_def build_routes_def add_route_def newRouteBuffer_def
        valid_trips_def stop_times_of_def trip_order_def Let_def manifestHash_not_Nil)
  moreover have "schedule_reachable id st"
    unfolding st_def by (intro schedule_reachable.intros)
  ultimately show ?thesis
    using published_buffers_well_formed [of id st] unfolding Let_def st_def row_def by blast
qed

text \<open>C33: a reload fails exactly when the query fails, a row cannot be scanned or the iteration ends
  in an error, in that order; the failure of the footpath query is not one.\<close>

theorem reload_fails_exactly:
  "ReloadRouteArrays sha256 opts q fq st = Inl e \<longleftrightarrow>
     (case q of QueryFailed \<Rightarrow> e = QuerySchedule
      | Rows rows ok \<Rightarrow> e = (if None \<in> set rows then ScanScheduleRow else IterateScheduleRows) \<and>
          (if None \<in> set rows then True else ok = False))"
proof (cases q)
  case (Rows rows ok)
  then show ?thesis
    using group_rows_None [of rows "\<lparr>store = [], routeTrips = [], routeOrder = []\<rparr>"]
    by (cases "group_rows rows \<lparr>store = [], routeTrips = [], routeOrder = []\<rparr>")
      (auto simp: ReloadRouteArrays_def publish_staging_def Let_def split: prod.splits)
qed (auto simp: ReloadRouteArrays_def)

text \<open>Grouping keeps every row: the records, read back in order, are the rows that were scanned,
  and each record is filed under its own route exactly once.\<close>

theorem grouping_keeps_every_row:
  assumes "group_rows rows \<lparr>store = [], routeTrips = [], routeOrder = []\<rparr> = Some g"
  shows "flatten g = map (row_stop \<circ> the) rows \<and>
    (\<forall>rid. gm_get (routeTrips g) rid [] = filter (\<lambda>a. tr_routeID (store g ! a) = rid) [0..<length (store g)]) \<and>
    set (routeOrder g) = tr_routeID ` set (store g) \<and> distinct (routeOrder g)"
  using group_rows_ok [OF assms] by (simp add: grouping_ok_def flatten_def gm_get_def)

theorem grouping_keeps_every_row_witness:
  "let r = (\<lambda>rid trip sid t. \<lparr>row_RouteID = rid, row_TripID = trip, row_Date = ''d'', row_StopSeq = 1, row_StationID = sid,
         row_Arrival = t, row_Departure = t\<rparr>)
   in \<exists>g. group_rows [Some (r ''R1'' ''T1'' ''A'' 1), Some (r ''R2'' ''T2'' ''B'' 2)] \<lparr>store = [], routeTrips = [], routeOrder = []\<rparr> = Some g \<and>
        flatten g = [(TripKey ''T1'' ''d'', ''A'', 1, 1), (TripKey ''T2'' ''d'', ''B'', 2, 2)]"
proof -
  define r where "r = (\<lambda>rid trip sid t. \<lparr>row_RouteID = rid, row_TripID = trip, row_Date = ''d'', row_StopSeq = 1, row_StationID = sid,
         row_Arrival = t, row_Departure = t\<rparr>)"
  let ?rows = "[Some (r ''R1'' ''T1'' ''A'' 1), Some (r ''R2'' ''T2'' ''B'' 2)]"
  obtain g where g: "group_rows ?rows \<lparr>store = [], routeTrips = [], routeOrder = []\<rparr> = Some g" by simp
  from grouping_keeps_every_row [OF g] have "flatten g = [(TripKey ''T1'' ''d'', ''A'', 1, 1), (TripKey ''T2'' ''d'', ''B'', 2, 2)]"
    by (simp add: row_stop_def r_def)
  with g show ?thesis by (auto simp: Let_def r_def)
qed

text \<open>Looking up a departure in a published buffer never indexes out of range: it gives the first
  departure of a trip with the key, or zero when no published trip has it.\<close>

theorem trip_departure_of_published:
  assumes "schedule_reachable sha256 st"
  shows "(\<exists>ts \<in> set (StopTimes (live st)). \<exists>t \<in> set ts. Key t = key \<and> TripDeparture (live st) key = Some (Departures t ! 0)) \<or>
    TripDeparture (live st) key = Some 0 \<and> (\<forall>ts \<in> set (StopTimes (live st)). \<forall>t \<in> set ts. Key t \<noteq> key)"
  by (rule wf_TripDeparture [OF schedule_reachable_wf [OF assms]])

theorem trip_departure_of_published_witness:
  "schedule_reachable id init_schedule \<and> TripDeparture (live init_schedule) (TripKey ''T1'' ''2026-08-27'') = Some 0"
  using trip_departure_of_published [OF schedule_init [of id], of "TripKey ''T1'' ''2026-08-27''"]
  by (simp add: schedule_init) (simp add: init_schedule_def newRouteBuffer_def)

text \<open>The direct walk edges that are loaded satisfy what the closure asks for: one entry per
  station, no walk to where one already is, positive times.\<close>

theorem loaded_footpaths_closable:
  assumes "\<And>rows ok r. fq = Rows rows ok \<Longrightarrow> Some r \<in> set rows \<Longrightarrow> fr_WalkSeconds r < 2 ^ 31"
  shows "graph_ok (fst (loadFootpaths fq))"
  using assms by (intro loadFootpaths_graph_ok) fastforce

theorem loaded_footpaths_closable_witness:
  "let fq = Rows [Some \<lparr>fr_StationID = ''A'', fr_NeighbourID = ''B'', fr_WalkSeconds = 60\<rparr>,
                  Some \<lparr>fr_StationID = ''A'', fr_NeighbourID = ''A'', fr_WalkSeconds = 5\<rparr>,
                  Some \<lparr>fr_StationID = ''B'', fr_NeighbourID = ''A'', fr_WalkSeconds = 0\<rparr>] True
   in fst (loadFootpaths fq) = [(''A'', [Footpath ''B'' 60])] \<and> graph_ok (fst (loadFootpaths fq))"
proof -
  define fq where "fq = Rows [Some \<lparr>fr_StationID = ''A'', fr_NeighbourID = ''B'', fr_WalkSeconds = 60\<rparr>,
    Some \<lparr>fr_StationID = ''A'', fr_NeighbourID = ''A'', fr_WalkSeconds = 5\<rparr>,
    Some \<lparr>fr_StationID = ''B'', fr_NeighbourID = ''A'', fr_WalkSeconds = 0\<rparr>] True"
  have "graph_ok (fst (loadFootpaths fq))"
    by (rule loaded_footpaths_closable) (auto simp: fq_def)
  moreover have "fst (loadFootpaths fq) = [(''A'', [Footpath ''B'' 60])]"
    by (simp add: fq_def loadFootpaths_def gm_get_def)
  ultimately show ?thesis by (simp add: fq_def Let_def)
qed

end
