(* ===== verification/Redis.thy ===== *)
theory Redis
  imports Prelude
begin

text \<open>
  What the program uses of Redis, which is not part of it: the values of a reply, the commands the
  change gate and the poll task send, what their documentation promises of them (\<open>redis_laws\<close>, the
  hypothesis of the theorems that need it), and a store in memory that meets it for the witnesses.
\<close>

text \<open>One value of a reply: nil, a text or something else.\<close>

datatype redis_value = RedisNil | RedisText string | RedisOther

section \<open>Commands\<close>

text \<open>
  \<open>SETNX\<close> answers \<open>None\<close> when the reply is an error. So does \<open>DEL\<close>, which then may have deleted the key or may not have
  reached the server at all; otherwise it answers how many keys it deleted, and the key is gone. Time does not
  pass in a command: keys do not expire.
  \<open>entries\<close> is what a stream holds, oldest entry first; the code reads it with other commands.
\<close>

record 'r redis_ops =
  GET :: "string \<Rightarrow> 'r \<Rightarrow> string option"
  SET :: "string \<Rightarrow> string \<Rightarrow> 'r \<Rightarrow> 'r"
  XADD :: "string \<Rightarrow> (string \<times> string) list \<Rightarrow> 'r \<Rightarrow> 'r"
  SETNX :: "string \<Rightarrow> string \<Rightarrow> int \<Rightarrow> 'r \<Rightarrow> bool option \<times> 'r"
  DEL :: "string \<Rightarrow> 'r \<Rightarrow> int option \<times> 'r"
  entries :: "string \<Rightarrow> 'r \<Rightarrow> (string \<times> (string \<times> string) list) list"

definition redis_laws :: "'r redis_ops \<Rightarrow> bool" where
  "redis_laws R \<longleftrightarrow>
     (\<forall>k v r k'. GET R k' (SET R k v r) = (if k' = k then Some v else GET R k' r)) \<and>
     (\<forall>k v r k'. k' \<noteq> k \<longrightarrow> entries R k' (SET R k v r) = entries R k' r) \<and>
     (\<forall>k f r k'. k' \<noteq> k \<longrightarrow> GET R k' (XADD R k f r) = GET R k' r) \<and>
     (\<forall>k f r. \<exists>n eid. n \<le> length (entries R k r) \<and> entries R k (XADD R k f r) = drop n (entries R k r) @ [(eid, f)]) \<and>
     (\<forall>k v ttl r k'. k' \<noteq> k \<or> fst (SETNX R k v ttl r) = Some False \<longrightarrow> GET R k' (snd (SETNX R k v ttl r)) = GET R k' r) \<and>
     (\<forall>k v ttl r. fst (SETNX R k v ttl r) = Some True \<longrightarrow> GET R k r = None \<and> GET R k (snd (SETNX R k v ttl r)) = Some v) \<and>
     (\<forall>k r k'. k' \<noteq> k \<longrightarrow> GET R k' (snd (DEL R k r)) = GET R k' r) \<and>
     (\<forall>k r. if fst (DEL R k r) = None then GET R k (snd (DEL R k r)) \<in> {GET R k r, None} else GET R k (snd (DEL R k r)) = None) \<and>
     (\<forall>k v ttl r k'. k' \<noteq> k \<longrightarrow> entries R k' (snd (SETNX R k v ttl r)) = entries R k' r) \<and>
     (\<forall>k r k'. k' \<noteq> k \<longrightarrow> entries R k' (snd (DEL R k r)) = entries R k' r)"

text \<open>The laws one by one.\<close>

lemma redis_laws_each:
  assumes "redis_laws R"
  shows "\<forall>k v r k'. GET R k' (SET R k v r) = (if k' = k then Some v else GET R k' r)"
    and "\<forall>k v r k'. k' \<noteq> k \<longrightarrow> entries R k' (SET R k v r) = entries R k' r"
    and "\<forall>k f r k'. k' \<noteq> k \<longrightarrow> GET R k' (XADD R k f r) = GET R k' r"
    and "\<forall>k f r. \<exists>n eid. n \<le> length (entries R k r) \<and> entries R k (XADD R k f r) = drop n (entries R k r) @ [(eid, f)]"
    and "\<forall>k v ttl r k'. k' \<noteq> k \<or> fst (SETNX R k v ttl r) = Some False \<longrightarrow> GET R k' (snd (SETNX R k v ttl r)) = GET R k' r"
    and "\<forall>k v ttl r. fst (SETNX R k v ttl r) = Some True \<longrightarrow> GET R k r = None \<and> GET R k (snd (SETNX R k v ttl r)) = Some v"
    and "\<forall>k r k'. k' \<noteq> k \<longrightarrow> GET R k' (snd (DEL R k r)) = GET R k' r"
    and "\<forall>k r. if fst (DEL R k r) = None then GET R k (snd (DEL R k r)) \<in> {GET R k r, None} else GET R k (snd (DEL R k r)) = None"
    and "\<forall>k v ttl r k'. k' \<noteq> k \<longrightarrow> entries R k' (snd (SETNX R k v ttl r)) = entries R k' r"
    and "\<forall>k r k'. k' \<noteq> k \<longrightarrow> entries R k' (snd (DEL R k r)) = entries R k' r"
  by (insert assms [unfolded redis_laws_def]) (elim conjE, assumption)+

lemmas GET_SET = redis_laws_each(1) [rule_format]
lemmas entries_SET = redis_laws_each(2) [rule_format]
lemmas GET_XADD = redis_laws_each(3) [rule_format]
lemmas entries_XADD = redis_laws_each(4) [rule_format]
lemmas SETNX_keeps = redis_laws_each(5) [rule_format]
lemmas SETNX_sets = redis_laws_each(6) [rule_format]
lemmas DEL_keeps = redis_laws_each(7) [rule_format]
lemmas DEL_deletes = redis_laws_each(8) [rule_format]
lemmas entries_SETNX = redis_laws_each(9) [rule_format]
lemmas entries_DEL = redis_laws_each(10) [rule_format]

text \<open>A Redis keyspace as replies.\<close>

definition redis_lookup :: "'r redis_ops \<Rightarrow> 'r \<Rightarrow> string \<Rightarrow> redis_value" where
  "redis_lookup R r k = (case GET R k r of None \<Rightarrow> RedisNil | Some s \<Rightarrow> RedisText s)"

section \<open>A Redis in memory\<close>

text \<open>An instance of the parameter, for the witnesses: keys without expiry and streams.\<close>

record mem =
  kv :: "string \<Rightarrow> string option"
  streams :: "string \<Rightarrow> (string \<times> (string \<times> string) list) list"

definition mem_redis :: "mem redis_ops" where
  "mem_redis =
     \<lparr>GET = (\<lambda>k r. kv r k), SET = (\<lambda>k v r. r\<lparr>kv := (kv r)(k \<mapsto> v)\<rparr>),
      XADD = (\<lambda>k f r. r\<lparr>streams := (streams r)(k := streams r k @ [(show_nat (Suc (length (streams r k))) @ ''-0'', f)])\<rparr>),
      SETNX = (\<lambda>k v ttl r. if kv r k = None then (Some True, r\<lparr>kv := (kv r)(k \<mapsto> v)\<rparr>) else (Some False, r)),
      DEL = (\<lambda>k r. (Some (if kv r k = None then 0 else 1), r\<lparr>kv := (kv r)(k := None)\<rparr>)), entries = (\<lambda>k r. streams r k)\<rparr>"

definition empty_mem :: mem where
  "empty_mem = \<lparr>kv = Map.empty, streams = (\<lambda>k. [])\<rparr>"

lemma mem_redis_laws: "redis_laws mem_redis"
proof -
  have "\<exists>n eid. n \<le> length (entries mem_redis k r) \<and> entries mem_redis k (XADD mem_redis k f r) = drop n (entries mem_redis k r) @ [(eid, f)]" for k f r
    by (intro exI [of _ 0]) (simp add: mem_redis_def)
  then show ?thesis unfolding redis_laws_def by (auto simp: mem_redis_def split: if_splits)
qed

text \<open>The same store behind a connection on which no \<open>DEL\<close> gets through, as under a cancelled context.\<close>

definition undeleting_redis :: "mem redis_ops" where
  "undeleting_redis = mem_redis\<lparr>DEL := (\<lambda>k r. (None, r))\<rparr>"

lemma undeleting_redis_laws: "redis_laws undeleting_redis"
  using mem_redis_laws unfolding redis_laws_def by (simp add: undeleting_redis_def)

end
