(* ===== verification/Seat_Gate.thy ===== *)
theory Seat_Gate
  imports Zone Content_Hash Redis
begin

text \<open>
  The write side of the seat data: the change gate of \<^verbatim>\<open>internal/seat/luagate.go\<close> with its script
  \<^verbatim>\<open>lua/seat_gate.lua\<close>, and the poll task of \<^verbatim>\<open>internal/seat/poller.go\<close>. Redis is a parameter, the
  record of commands of \<open>Redis\<close>. JSON and SHA-256 are parameters too, and the time stamp is the text the clock prints.
\<close>

section \<open>The change gate\<close>

text \<open>The script: \<open>GET\<close> of a missing key is \<open>false\<close> in Lua and different from every string.\<close>

definition seat_gate :: "'r redis_ops \<Rightarrow> string list \<Rightarrow> string list \<Rightarrow> 'r \<Rightarrow> int \<times> 'r" where
  "seat_gate R KEYS ARGV r =
     (let cur_hash = GET R (KEYS ! 0) r;
          r = (if cur_hash \<noteq> Some (ARGV ! 0)
               then XADD R (KEYS ! 3) [(''trip'', ARGV ! 3), (''changed_at'', ARGV ! 2)]
                      (SET R (KEYS ! 0) (ARGV ! 0) (SET R (KEYS ! 1) (ARGV ! 1) r))
               else r);
          r = SET R (KEYS ! 2) (ARGV ! 2) r
      in (if cur_hash \<noteq> Some (ARGV ! 0) then 1 else 0, r))"

definition canonical_bytes :: "seat_map \<Rightarrow> string" where
  "canonical_bytes m = concat (map (\<lambda>k. k @ '':'' @ show_int (gm_get m k 0) @ '','') (sort (gm_keys m)))"

definition canonicalHash :: "(string \<Rightarrow> string) \<Rightarrow> seat_map \<Rightarrow> string" where
  "canonicalHash sha256 m = hexBytes (sha256 (canonical_bytes m))"

text \<open>
  \<open>luaGate\<close> gives \<open>None\<close> for an error. The run of the script can fail before it reached the server
  or lose its reply after it ran. Marshalling a map of integers cannot fail.
\<close>

datatype script_run = ScriptRan | ScriptReplyLost | ScriptNotRun

definition luaGate :: "'r redis_ops \<Rightarrow> (string \<Rightarrow> string) \<Rightarrow> (seat_map \<Rightarrow> string) \<Rightarrow> string \<Rightarrow> script_run \<Rightarrow>
    string \<Rightarrow> string \<Rightarrow> seat_map \<Rightarrow> 'r \<Rightarrow> int option \<times> 'r" where
  "luaGate R sha256 marshal ts run tripID date seats r =
     (let seatJSON = marshal seats;
          hash = canonicalHash sha256 seats;
          tripDate = SeatTripDate tripID date;
          keys = [SeatHashKey tripID date, SeatMapKey tripID date, SeatTSKey tripID date, DirtyStreamKey];
          (result, r') = seat_gate R keys [hash, seatJSON, ts, tripDate] r
      in case run of
           ScriptRan \<Rightarrow> (Some result, r')
         | ScriptReplyLost \<Rightarrow> (None, r')
         | ScriptNotRun \<Rightarrow> (None, r))"

section \<open>The poll task\<close>

text \<open>The first two errors carry \<open>asynq.SkipRetry\<close>; \<open>PollPanic\<close> is an index out of range in the
  departure lookup.\<close>

datatype poll_result = PollDone | BadPayload | MissingFields | LockFailed | ProviderFailed | GateFailed | PollPanic

definition skip_retry :: "poll_result \<Rightarrow> bool" where
  "skip_retry e \<longleftrightarrow> e = BadPayload \<or> e = MissingFields"

definition poll_lock :: "trip_key \<Rightarrow> string" where
  "poll_lock p = ''poll_lock:'' @ TripID p @ '':'' @ Date p"

definition HandlePollTask :: "'r redis_ops \<Rightarrow> (string \<Rightarrow> string) \<Rightarrow> (seat_map \<Rightarrow> string) \<Rightarrow> (string \<Rightarrow> trip_key option) \<Rightarrow>
    (string \<Rightarrow> string \<Rightarrow> seat_map option) \<Rightarrow> script_run \<Rightarrow> route_buffer \<Rightarrow> int \<Rightarrow> string \<Rightarrow> string \<Rightarrow> 'r \<Rightarrow> poll_result \<times> 'r" where
  "HandlePollTask R sha256 marshal unmarshal fetchSeats run buf now ts payload r =
     (case unmarshal payload of
        None \<Rightarrow> (BadPayload, r)
      | Some p \<Rightarrow>
          if TripID p = [] \<or> Date p = [] then (MissingFields, r)
          else
            (case GetTripDeparture buf (TripID p) (Date p) of
               None \<Rightarrow> (PollPanic, r)
             | Some depUnix \<Rightarrow>
                 if depUnix = 0 then (PollDone, r)
                 else
                   (let z = ClassifyZone now depUnix; lockKey = poll_lock p;
                        (ok, r) = SETNX R lockKey ''1'' (Interval z) r
                    in case ok of
                         None \<Rightarrow> (LockFailed, r)
                       | Some ok \<Rightarrow>
                           if \<not> ok then (PollDone, r)
                           else
                             (case fetchSeats (TripID p) (Date p) of
                                None \<Rightarrow> (ProviderFailed, snd (DEL R lockKey r))
                              | Some seats \<Rightarrow>
                                  (let (changed, r) = luaGate R sha256 marshal ts run (TripID p) (Date p) seats r
                                   in case changed of
                                        None \<Rightarrow> (GateFailed, snd (DEL R lockKey r))
                                      | Some _ \<Rightarrow> (PollDone, r))))))"

section \<open>Lemmas\<close>

lemma canonical_bytes_order: "gm_ok m \<Longrightarrow> mset m = mset m' \<Longrightarrow> canonical_bytes m = canonical_bytes m'"
proof -
  assume m: "gm_ok m" "mset m = mset m'"
  have "mset (gm_keys m) = mset (gm_keys m')" using m(2) by (simp add: gm_keys_def)
  then have "sort (gm_keys m) = sort (gm_keys m')" by (metis mset_sort properties_for_sort sorted_sort)
  moreover have "gm_get m = gm_get m'" using map_of_mset_eq [OF m(2,1)] by (simp add: gm_get_def fun_eq_iff)
  ultimately show ?thesis by (simp add: canonical_bytes_def)
qed

text \<open>An entry ends at its first comma and its name at the first colon, when names have neither.\<close>

lemma show_int_chars: "c \<in> set (show_int n) \<Longrightarrow> c \<noteq> CHR '':'' \<and> c \<noteq> CHR '',''"
  using show_nat_digits [of c] by (auto simp: show_int_def is_digit_def split: if_splits)

lemma append_cut:
  assumes "x \<notin> set a" "x \<notin> set b"
  shows "a @ x # s = b @ x # t \<longleftrightarrow> a = b \<and> s = t"
proof
  assume eq: "a @ x # s = b @ x # t"
  have cut: "takeWhile (\<lambda>c. c \<noteq> x) (l @ x # r) = l" if "x \<notin> set l" for l r
    using that by (induction l) auto
  from cut [of a s] cut [of b t] eq assms have "a = b" by simp
  with eq show "a = b \<and> s = t" by simp
qed simp

definition plain_name :: "string \<Rightarrow> bool" where
  "plain_name k \<longleftrightarrow> CHR '':'' \<notin> set k \<and> CHR '','' \<notin> set k"

lemma entries_inject:
  "\<forall>(k, v) \<in> set xs \<union> set ys. plain_name k \<Longrightarrow>
   concat (map (\<lambda>(k, v). k @ '':'' @ show_int v @ '','') xs) = concat (map (\<lambda>(k, v). k @ '':'' @ show_int v @ '','') ys) \<longleftrightarrow> xs = ys"
proof (induction xs arbitrary: ys)
  case Nil
  then show ?case by (cases ys) auto
next
  case (Cons x xs)
  obtain k v where x: "x = (k, v)" by fastforce
  show ?case
  proof (cases ys)
    case (Cons y ys')
    obtain k' v' where y: "y = (k', v')" by fastforce
    have names: "CHR '':'' \<notin> set k" "CHR '':'' \<notin> set k'" using Cons.prems x y Cons by (auto simp: plain_name_def)
    have comma: "CHR '','' \<notin> set (show_int v)" "CHR '','' \<notin> set (show_int v')" using show_int_chars by blast+
    have rest: "\<forall>(k, v) \<in> set xs \<union> set ys'. plain_name k" using Cons.prems Cons by auto
    show ?thesis
      using Cons.IH [OF rest] append_cut [OF names] append_cut [OF comma] by (simp add: x y Cons show_int_inject)
  qed (simp add: x)
qed

lemma canonical_bytes_inject:
  assumes "gm_ok m" "gm_ok m'" "list_all plain_name (gm_keys m)" "list_all plain_name (gm_keys m')"
  shows "canonical_bytes m = canonical_bytes m' \<longleftrightarrow> map_of m = map_of m'"
proof
  let ?p = "\<lambda>m. map (\<lambda>k. (k, gm_get m k 0)) (sort (gm_keys m))"
  have cb: "canonical_bytes m = concat (map (\<lambda>(k, v). k @ '':'' @ show_int v @ '','') (?p m))" for m
    by (simp add: canonical_bytes_def o_def)
  have p: "map_of (?p m) = map_of m" for m :: seat_map
  proof (rule ext)
    show "map_of (?p m) k = map_of m k" for k
    proof (cases "k \<in> fst ` set m")
      case True
      then obtain v where "map_of m k = Some v" by (metis map_of_eq_None_iff option.exhaust)
      with True show ?thesis by (simp add: map_of_map_restrict restrict_map_def gm_keys_def gm_get_def)
    next
      case False
      then have "map_of m k = None" by (simp add: map_of_eq_None_iff)
      with False show ?thesis by (simp add: map_of_map_restrict restrict_map_def gm_keys_def)
    qed
  qed
  assume "canonical_bytes m = canonical_bytes m'"
  then have "?p m = ?p m'"
    unfolding cb using assms(3,4) by (subst (asm) entries_inject) (auto simp: list_all_iff)
  then show "map_of m = map_of m'" using p by metis
next
  assume eq: "map_of m = map_of m'"
  then have "set (gm_keys m) = set (gm_keys m')" by (metis dom_map_of_conv_image_fst gm_keys_def set_map)
  then have "sort (gm_keys m) = sort (gm_keys m')"
    using assms(1,2) by (metis gm_keys_def gm_ok_def sorted_list_of_set_sort_remdups distinct_remdups_id)
  with eq show "canonical_bytes m = canonical_bytes m'" by (simp add: canonical_bytes_def gm_get_def)
qed

lemma gate_keys_differ:
  "SeatHashKey t d \<noteq> DirtyStreamKey" "SeatMapKey t d \<noteq> DirtyStreamKey" "SeatTSKey t d \<noteq> DirtyStreamKey"
  "SeatHashKey t d \<noteq> SeatMapKey t d" "SeatHashKey t d \<noteq> SeatTSKey t d" "SeatMapKey t d \<noteq> SeatTSKey t d"
  by (simp_all add: SeatHashKey_def SeatMapKey_def SeatTSKey_def DirtyStreamKey_def)

lemma poll_lock_differs:
  "poll_lock p \<noteq> SeatHashKey t d" "poll_lock p \<noteq> SeatMapKey t d" "poll_lock p \<noteq> SeatTSKey t d" "poll_lock p \<noteq> DirtyStreamKey"
  by (simp_all add: poll_lock_def SeatHashKey_def SeatMapKey_def SeatTSKey_def DirtyStreamKey_def)

lemma luaGate_other_keys:
  assumes "redis_laws R" "luaGate R sha256 marshal ts run t d seats r = (res, r')"
    and "k \<notin> {SeatHashKey t d, SeatMapKey t d, SeatTSKey t d, DirtyStreamKey}"
  shows "GET R k r' = GET R k r"
  using assms(2,3)
  by (auto simp: luaGate_def seat_gate_def Let_def GET_SET [OF assms(1)] GET_XADD [OF assms(1)] split: script_run.splits if_splits)


lemma gate_state:
  assumes "redis_laws R" "luaGate R sha256 marshal ts ScriptRan t d seats r = (Some 1, r')"
  shows "GET R (SeatMapKey t d) r' = Some (marshal seats) \<and> GET R (SeatTSKey t d) r' = Some ts \<and>
    (\<exists>n eid. n \<le> length (entries R DirtyStreamKey r) \<and> entries R DirtyStreamKey r' =
       drop n (entries R DirtyStreamKey r) @ [(eid, [(''trip'', SeatTripDate t d), (''changed_at'', ts)])])"
proof -
  note laws = GET_SET [OF assms(1)] GET_XADD [OF assms(1)] entries_SET [OF assms(1)]
  note keys = gate_keys_differ [of t d] gate_keys_differ [of t d, symmetric]
  have "\<exists>n eid. n \<le> length (entries R DirtyStreamKey r) \<and>
      entries R DirtyStreamKey (XADD R DirtyStreamKey f (SET R (SeatHashKey t d) h (SET R (SeatMapKey t d) j r))) =
        drop n (entries R DirtyStreamKey r) @ [(eid, f)]" for f h j
    using entries_XADD [OF assms(1), of DirtyStreamKey "SET R (SeatHashKey t d) h (SET R (SeatMapKey t d) j r)" f]
    by (simp add: laws keys)
  then show ?thesis
    using assms(2) by (auto simp: luaGate_def seat_gate_def laws keys Let_def split: if_splits)
qed

section \<open>Properties\<close>

text \<open>C28: the fingerprint of a seat map identifies its contents: unless SHA-256 collides on the two
  byte strings, two maps have the same fingerprint exactly when they hold the same counts, in
  whatever order they are iterated, provided no class name has a colon or a comma.\<close>

theorem canonicalHash_identifies_seats:
  assumes "gm_ok m" "gm_ok m'" "list_all plain_name (gm_keys m)" "list_all plain_name (gm_keys m')"
    and "sha256 (canonical_bytes m) = sha256 (canonical_bytes m') \<Longrightarrow> canonical_bytes m = canonical_bytes m'"
  shows "canonicalHash sha256 m = canonicalHash sha256 m' \<longleftrightarrow> map_of m = map_of m'"
  using assms(5) canonical_bytes_inject [OF assms(1-4)] hexBytes_inject unfolding canonicalHash_def by metis

theorem canonicalHash_identifies_seats_witness:
  "canonicalHash id [(''lower'', 3), (''upper'', -1)] = canonicalHash id [(''upper'', -1), (''lower'', 3)] \<and>
   canonicalHash id [(''lower'', 3)] \<noteq> canonicalHash id [(''lower'', 30)]"
proof -
  have "map_of [(''lower'', 3), (''upper'', -1 :: int)] = map_of [(''upper'', -1), (''lower'', 3)]"
    by (rule ext) simp
  moreover have "map_of [(''lower'', 3 :: int)] \<noteq> map_of [(''lower'', 30)]" by (simp add: fun_eq_iff)
  moreover note canonicalHash_identifies_seats [of "[(''lower'', 3), (''upper'', -1)]" "[(''upper'', -1), (''lower'', 3)]" id]
    canonicalHash_identifies_seats [of "[(''lower'', 3)]" "[(''lower'', 30)]" id]
  ultimately show ?thesis by (simp add: gm_ok_def gm_keys_def plain_name_def)
qed

text \<open>A colon and a comma in a class name break the fingerprint: different seat maps share one
  whatever the hash function is, so the gate takes the change for none.\<close>

theorem canonicalHash_confuses_names:
  "canonicalHash sha256 [(''a'', 1), (''b'', 2)] = canonicalHash sha256 [(''a:1,b'', 2)] \<and>
   map_of [(''a'', 1 :: int), (''b'', 2)] \<noteq> map_of [(''a:1,b'', 2)]"
proof -
  have "sort [''a'', ''b''] = [''a'', ''b'']" by simp
  moreover have "char_of (49 :: nat) = CHR ''1''" by code_simp
  ultimately have "canonical_bytes [(''a'', 1), (''b'', 2)] = canonical_bytes [(''a:1,b'', 2)]"
    by (simp add: canonical_bytes_def gm_keys_def gm_get_def show_int_def show_nat.simps digit_char_def)
  moreover have "map_of [(''a'', 1 :: int), (''b'', 2)] ''a'' \<noteq> map_of [(''a:1,b'', 2)] ''a''" by simp
  ultimately show ?thesis unfolding canonicalHash_def by metis
qed

text \<open>C16: the gate announces a change exactly when the stored fingerprint differs: then one entry
  naming the trip and date ends the stream and the new seats and fingerprint are stored, otherwise
  stream and seats stay; the time stamp is always renewed, and running the gate again with the same
  seats announces nothing.\<close>

theorem gate_announces_changes_once:
  assumes "redis_laws R" "luaGate R sha256 marshal ts ScriptRan t d seats r = (res, r')"
  shows "GET R (SeatHashKey t d) r' = Some (canonicalHash sha256 seats) \<and> GET R (SeatTSKey t d) r' = Some ts \<and>
    fst (luaGate R sha256 marshal ts2 ScriptRan t d seats r') = Some 0 \<and>
    (if GET R (SeatHashKey t d) r = Some (canonicalHash sha256 seats)
     then res = Some 0 \<and> GET R (SeatMapKey t d) r' = GET R (SeatMapKey t d) r \<and> entries R DirtyStreamKey r' = entries R DirtyStreamKey r
     else res = Some 1 \<and> GET R (SeatMapKey t d) r' = Some (marshal seats) \<and>
       (\<exists>n eid. n \<le> length (entries R DirtyStreamKey r) \<and>
          entries R DirtyStreamKey r' = drop n (entries R DirtyStreamKey r) @ [(eid, [(''trip'', SeatTripDate t d), (''changed_at'', ts)])]))"
proof -
  note laws = GET_SET [OF assms(1)] GET_XADD [OF assms(1)] entries_SET [OF assms(1)]
  note keys = gate_keys_differ [of t d] gate_keys_differ [of t d, symmetric]
  have h: "GET R (SeatHashKey t d) r' = Some (canonicalHash sha256 seats)"
    using assms(2) by (auto simp: luaGate_def seat_gate_def laws keys Let_def split: if_splits)
  then have "fst (luaGate R sha256 marshal ts2 ScriptRan t d seats r') = Some 0"
    by (simp add: luaGate_def seat_gate_def Let_def)
  moreover have "\<exists>n eid. n \<le> length (entries R DirtyStreamKey r) \<and>
      entries R DirtyStreamKey (XADD R DirtyStreamKey f (SET R (SeatHashKey t d) h (SET R (SeatMapKey t d) j r))) =
        drop n (entries R DirtyStreamKey r) @ [(eid, f)]" for f h j
    using entries_XADD [OF assms(1), of DirtyStreamKey "SET R (SeatHashKey t d) h (SET R (SeatMapKey t d) j r)" f]
    by (simp add: laws keys)
  ultimately show ?thesis
    using h assms(2) by (auto simp: luaGate_def seat_gate_def laws keys Let_def split: if_splits)
qed

theorem gate_announces_changes_once_witness:
  "let (res, r') = luaGate mem_redis id (\<lambda>m. ''{}'') ''1.0'' ScriptRan ''T1'' ''2026-08-27'' [(''SL'', 3)] empty_mem
   in fst (luaGate mem_redis id (\<lambda>m. ''{}'') ''2.0'' ScriptRan ''T1'' ''2026-08-27'' [(''SL'', 3)] r') = Some 0 \<and> res = Some 1"
proof -
  obtain res r' where run: "luaGate mem_redis id (\<lambda>m. ''{}'') ''1.0'' ScriptRan ''T1'' ''2026-08-27'' [(''SL'', 3)] empty_mem = (res, r')"
    by fastforce
  have "GET mem_redis k empty_mem = None" for k by (simp add: mem_redis_def empty_mem_def)
  with gate_announces_changes_once [OF mem_redis_laws run, of "''2.0''"] run show ?thesis by simp
qed

text \<open>A seat map that Redis has lost while its fingerprint is still there stays lost: polling the
  same seats again, however often, does not write it back.\<close>

theorem gate_does_not_restore_lost_map:
  assumes "redis_laws R" "GET R (SeatHashKey t d) r = Some (canonicalHash sha256 seats)" "GET R (SeatMapKey t d) r = None"
  shows "GET R (SeatMapKey t d) (((\<lambda>r. snd (luaGate R sha256 marshal ts ScriptRan t d seats r)) ^^ n) r) = None"
proof -
  note keys = gate_keys_differ [of t d] gate_keys_differ [of t d, symmetric]
  have "GET R (SeatHashKey t d) (((\<lambda>r. snd (luaGate R sha256 marshal ts ScriptRan t d seats r)) ^^ n) r) = Some (canonicalHash sha256 seats) \<and>
      GET R (SeatMapKey t d) (((\<lambda>r. snd (luaGate R sha256 marshal ts ScriptRan t d seats r)) ^^ n) r) = None"
    using assms(2,3) by (induction n) (simp_all add: luaGate_def seat_gate_def Let_def GET_SET [OF assms(1)] keys)
  then show ?thesis by simp
qed

theorem gate_does_not_restore_lost_map_witness:
  "kv (((\<lambda>r. snd (luaGate mem_redis id (\<lambda>m. ''{}'') ''1.0'' ScriptRan ''T1'' ''2026-08-27'' [] r)) ^^ 3)
     (empty_mem\<lparr>kv := [''seat:hash:T1:2026-08-27'' \<mapsto> []]\<rparr>)) ''seat:map:T1:2026-08-27'' = None"
proof -
  have "canonicalHash id [] = []" by (simp add: canonicalHash_def canonical_bytes_def gm_keys_def hexBytes_def)
  with gate_does_not_restore_lost_map [OF mem_redis_laws, where t = "''T1''" and d = "''2026-08-27''" and
      r = "empty_mem\<lparr>kv := [''seat:hash:T1:2026-08-27'' \<mapsto> []]\<rparr>" and ?sha256.0 = id and seats = "[]" and
      marshal = "\<lambda>m. ''{}''" and ts = "''1.0''" and n = 3]
  show ?thesis by (simp add: SeatMapKey_def SeatHashKey_def) (simp add: mem_redis_def)
qed

text \<open>C31: of a poll that has taken the lock of a trip that is in the schedule, the lock remains when the
  poll succeeds, to end with its expiry, and a failure releases it with one \<open>DEL\<close> for the retry: it is free then, except that
  when this \<open>DEL\<close>, whose outcome the code does not look at, was itself not answered the lock may remain too; a poll that does
  not get the lock changes no key. Nothing else touches the lock meanwhile, and it does not expire.\<close>

theorem poll_lock_released_on_failure:
  assumes "redis_laws R" "HandlePollTask R sha256 marshal unmarshal fetchSeats run buf now ts payload r = (res, r')"
    and "unmarshal payload = Some p" "TripID p \<noteq> []" "Date p \<noteq> []" "TripDeparture buf p = Some dep" "dep \<noteq> 0"
  shows "case fst (SETNX R (poll_lock p) ''1'' (Interval (ClassifyZone now dep)) r) of
      Some True \<Rightarrow>
        (res = PollDone \<and> GET R (poll_lock p) r' = Some ''1'') \<or>
        (res \<in> {ProviderFailed, GateFailed} \<and>
         (\<exists>n r2. DEL R (poll_lock p) r2 = (n, r') \<and> GET R (poll_lock p) r2 = Some ''1'' \<and>
            (if n = None then GET R (poll_lock p) r' \<in> {Some ''1'', None} else GET R (poll_lock p) r' = None)))
    | Some False \<Rightarrow> res = PollDone \<and> (\<forall>k. GET R k r' = GET R k r)
    | None \<Rightarrow> res = LockFailed"
proof -
  obtain ok r1 where lk: "SETNX R (poll_lock p) ''1'' (Interval (ClassifyZone now dep)) r = (ok, r1)" by fastforce
  have dep: "GetTripDeparture buf (TripID p) (Date p) = Some dep" using assms(6) by (simp add: GetTripDeparture_def)
  have taken: "GET R (poll_lock p) r1 = Some ''1''" if "ok = Some True"
    using SETNX_sets [OF assms(1), of "poll_lock p" "''1''" "Interval (ClassifyZone now dep)" r] lk that by simp
  have other: "GET R k r1 = GET R k r" if "ok = Some False" for k
    using SETNX_keeps [OF assms(1), of k "poll_lock p" "''1''" "Interval (ClassifyZone now dep)" r] lk that by simp
  let ?freed = "\<exists>n r2. DEL R (poll_lock p) r2 = (n, r') \<and> GET R (poll_lock p) r2 = Some ''1'' \<and>
      (if n = None then GET R (poll_lock p) r' \<in> {Some ''1'', None} else GET R (poll_lock p) r' = None)"
  have freed: ?freed if "GET R (poll_lock p) r3 = Some ''1''" "r' = snd (DEL R (poll_lock p) r3)" for r3
    using DEL_deletes [OF assms(1), of "poll_lock p" r3] that
    by (intro exI [of _ "fst (DEL R (poll_lock p) r3)"] exI [of _ r3]) (auto split: if_splits)
  have gate: "GET R (poll_lock p) r3 = GET R (poll_lock p) r2" if "luaGate R sha256 marshal ts run (TripID p) (Date p) seats r2 = (c, r3)" for seats c r2 r3
    by (rule luaGate_other_keys [OF assms(1) that]) (simp add: poll_lock_differs)
  show ?thesis
  proof (cases ok)
    case (Some b)
    show ?thesis
    proof (cases b)
      case True
      with Some assms(2-5,7) dep lk have run: "(case fetchSeats (TripID p) (Date p) of
          None \<Rightarrow> (ProviderFailed, snd (DEL R (poll_lock p) r1))
        | Some seats \<Rightarrow> (case luaGate R sha256 marshal ts run (TripID p) (Date p) seats r1 of
            (None, r) \<Rightarrow> (GateFailed, snd (DEL R (poll_lock p) r)) | (Some _, r) \<Rightarrow> (PollDone, r))) = (res, r')"
        by (simp add: HandlePollTask_def Let_def split: option.splits prod.splits)
      have r1: "GET R (poll_lock p) r1 = Some ''1''" using taken Some True by simp
      have "(res = PollDone \<and> GET R (poll_lock p) r' = Some ''1'') \<or> (res \<in> {ProviderFailed, GateFailed} \<and> ?freed)"
      proof (cases "fetchSeats (TripID p) (Date p)")
        case None
        with run have "res = ProviderFailed" "r' = snd (DEL R (poll_lock p) r1)" by simp_all
        with freed [OF r1] show ?thesis by blast
      next
        case seats: (Some seats)
        obtain c r2 where g: "luaGate R sha256 marshal ts run (TripID p) (Date p) seats r1 = (c, r2)" by fastforce
        with gate r1 have r2: "GET R (poll_lock p) r2 = Some ''1''" by metis
        from run seats g have "(res = PollDone \<and> r' = r2) \<or> (res = GateFailed \<and> r' = snd (DEL R (poll_lock p) r2))" by (cases c) simp_all
        with freed [OF r2] r2 show ?thesis by blast
      qed
      moreover from True Some lk have "fst (SETNX R (poll_lock p) ''1'' (Interval (ClassifyZone now dep)) r) = Some True" by simp
      ultimately show ?thesis by (simp only: option.case bool.case if_True)
    qed (use Some assms(2-5,7) dep lk other in \<open>simp add: HandlePollTask_def Let_def\<close>)
  qed (use assms(2-5,7) dep lk in \<open>simp add: HandlePollTask_def Let_def\<close>)
qed

definition demo_poll :: "mem redis_ops \<Rightarrow> (string \<Rightarrow> string \<Rightarrow> seat_map option) \<Rightarrow> mem \<Rightarrow> poll_result \<times> mem" where
  "demo_poll R fetch r =
     HandlePollTask R id (\<lambda>m. ''{}'') (\<lambda>s. Some (TripKey ''T1'' ''2026-08-27'')) fetch ScriptRan demo_buffer 0 ''1.0'' ''{}'' r"

theorem poll_lock_released_on_failure_witness:
  "GET mem_redis (poll_lock (TripKey ''T1'' ''2026-08-27'')) (snd (demo_poll mem_redis (\<lambda>t d. Some []) empty_mem)) = Some ''1'' \<and>
   GET mem_redis (poll_lock (TripKey ''T1'' ''2026-08-27'')) (snd (demo_poll mem_redis (\<lambda>t d. None) empty_mem)) = None"
proof -
  let ?p = "TripKey ''T1'' ''2026-08-27''"
  have free: "fst (SETNX mem_redis (poll_lock ?p) ''1'' ttl empty_mem) = Some True" for ttl by (simp add: mem_redis_def empty_mem_def)
  have del: "DEL mem_redis (poll_lock ?p) r2 = (n, r3) \<Longrightarrow> n \<noteq> None" for r2 n r3 by (auto simp: mem_redis_def)
  have res: "fst (demo_poll mem_redis (\<lambda>t d. Some []) empty_mem) = PollDone" "fst (demo_poll mem_redis (\<lambda>t d. None) empty_mem) = ProviderFailed"
    by (simp_all add: demo_poll_def HandlePollTask_def demo_buffer_departure GetTripDeparture_def mem_redis_def empty_mem_def luaGate_def seat_gate_def Let_def)
  note poll_lock_released_on_failure [OF mem_redis_laws surjective_pairing _ _ _ demo_buffer_departure,
      where ?sha256.0 = id and marshal = "\<lambda>m. ''{}''" and unmarshal = "\<lambda>s. Some ?p" and run = ScriptRan and now = 0
        and ts = "''1.0''" and payload = "''{}''" and r = empty_mem, folded demo_poll_def]
  from this [where fetchSeats = "\<lambda>t d. Some []"] this [where fetchSeats = "\<lambda>t d. None"] show ?thesis
    using del by (auto simp: free res split: if_splits)
qed

text \<open>What an unanswered \<open>DEL\<close> does: the failed poll leaves its lock, so the retry finds it taken and
  reports success although the seats were never stored.\<close>

theorem undeleted_lock_swallows_retry:
  "let (res, r) = demo_poll undeleting_redis (\<lambda>t d. None) empty_mem
   in res = ProviderFailed \<and> demo_poll undeleting_redis (\<lambda>t d. Some [(''SL'', 3)]) r = (PollDone, r) \<and>
      GET undeleting_redis (SeatMapKey ''T1'' ''2026-08-27'') r = None"
  by (simp add: demo_poll_def HandlePollTask_def demo_buffer_departure GetTripDeparture_def undeleting_redis_def mem_redis_def
      empty_mem_def poll_lock_def SeatMapKey_def Let_def)

end
