(* ===== verification/Seeder.thy ===== *)
theory Seeder
  imports Ingestion Loader Seat_Gate
begin

text \<open>
  The demonstration data of \<^verbatim>\<open>internal/schedule/seeder.go\<close>: the network it generates for thirty days and
  the order of its writes. Postgres is a parameter as in \<open>Ingestion\<close>, and Redis is the one of
  \<open>Redis\<close>. Coordinates are not modelled; fractional hours and speeds are rationals. The trips carry their
  stop times as \<open>ingest_trip\<close> does, which has the same columns.
\<close>

section \<open>The network\<close>

definition daysToSeed :: nat where "daysToSeed = 30"
definition stopDwellSec :: int where "stopDwellSec = 300"
definition seatPipelineBatch :: nat where "seatPipelineBatch = 200"

record route_def =
  rd_routeID :: string
  rd_name :: string
  rd_mode :: string
  rd_stopIDs :: "string list"
  rd_departures :: "rat list"
  rd_hopSeconds :: int
  rd_speedups :: "rat list"

definition seed_stations :: "(string \<times> string \<times> string) list" where
  "seed_stations =
     [(''STA-001'', ''New York'', ''New York''), (''STA-002'', ''Philadelphia'', ''Philadelphia''), (''STA-003'', ''Baltimore'', ''Baltimore''), (''STA-004'', ''Washington DC'', ''Washington DC''),
      (''STA-005'', ''Boston'', ''Boston''), (''STA-006'', ''Providence'', ''Providence''), (''STA-007'', ''New Haven'', ''New Haven''), (''STA-008'', ''Stamford'', ''Stamford''),
      (''STA-009'', ''Newark'', ''Newark''), (''STA-010'', ''Trenton'', ''Trenton'')]"

definition mixed_route :: route_def where
  "mixed_route =
     \<lparr>rd_routeID = ''ROUTE-MIX-1'', rd_name = ''Shore Line (mixed express/local)'', rd_mode = ''rail'',
      rd_stopIDs = [''STA-008'', ''STA-010'', ''STA-002''], rd_departures = [8, 9, 11, 13], rd_hopSeconds = 5400,
      rd_speedups = [1, 4 / 10, 1, 5 / 10]\<rparr>"

definition seed_routes :: "route_def list" where
  "seed_routes =
     [\<lparr>rd_routeID = ''ROUTE-EXP-1'', rd_name = ''Northeast Express'', rd_mode = ''rail'', rd_stopIDs = [''STA-001'', ''STA-004''],
       rd_departures = [8, 10, 12, 14, 16], rd_hopSeconds = 3 * 3600, rd_speedups = [1, 1, 1, 1, 1]\<rparr>,
      \<lparr>rd_routeID = ''ROUTE-LOC-1'', rd_name = ''Northeast Regional'', rd_mode = ''rail'', rd_stopIDs = [''STA-001'', ''STA-002'', ''STA-003'', ''STA-004''],
       rd_departures = [7, 9, 11, 13, 15], rd_hopSeconds = 3600, rd_speedups = [1, 1, 1, 1, 1]\<rparr>,
      \<lparr>rd_routeID = ''ROUTE-NOR-1'', rd_name = ''Northern Local'', rd_mode = ''rail'', rd_stopIDs = [''STA-005'', ''STA-006'', ''STA-007'', ''STA-001''],
       rd_departures = [6, 8, 10, 12, 14], rd_hopSeconds = 3600, rd_speedups = [1, 1, 1, 1, 1]\<rparr>,
      mixed_route,
      \<lparr>rd_routeID = ''ROUTE-OVN-1'', rd_name = ''Overnight Sleeper'', rd_mode = ''rail'', rd_stopIDs = [''STA-005'', ''STA-001'', ''STA-004''],
       rd_departures = [22, 47 / 2], rd_hopSeconds = 4 * 3600, rd_speedups = [1, 1]\<rparr>]"

definition seed_footpaths :: "(string \<times> string \<times> int) list" where
  "seed_footpaths =
     [(''STA-009'', ''STA-001'', 600), (''STA-001'', ''STA-009'', 600), (''STA-010'', ''STA-002'', 720),
      (''STA-002'', ''STA-010'', 720), (''STA-008'', ''STA-007'', 480), (''STA-007'', ''STA-008'', 480)]"

section \<open>Trips and stop times\<close>

text \<open>Arrival and departure at the \<open>seq\<close>-th stop, with the two shifts of the code.\<close>

definition seed_times :: "int \<Rightarrow> int \<Rightarrow> int \<Rightarrow> int \<times> int" where
  "seed_times startUnix hop sq =
     (let arr = startUnix + sq * hop;
          dep = arr;
          dep = (if sq > 0 then arr + stopDwellSec else dep);
          arr = arr + sq * stopDwellSec;
          dep = dep + sq * stopDwellSec
      in (arr, dep))"

text \<open>\<open>dayUnix\<close> is the midnight of the date.\<close>

definition seed_trip :: "string \<Rightarrow> int \<Rightarrow> route_def \<Rightarrow> nat \<Rightarrow> ingest_trip" where
  "seed_trip dateStr dayUnix route t =
     (let tripID = rd_routeID route @ ''_'' @ dateStr @ ''_T'' @ append_int (int t + 1) 2;
          startUnix = dayUnix + \<lfloor>rd_departures route ! t * 3600\<rfloor>;
          speed = (if t < length (rd_speedups route) \<and> rd_speedups route ! t > 0 then rd_speedups route ! t else 1);
          hop = \<lfloor>of_int (rd_hopSeconds route) * speed\<rfloor>
      in \<lparr>it_TripID = tripID, it_Date = dateStr, it_RouteID = rd_routeID route, it_DepUnix = startUnix,
          it_StopTimes = map (\<lambda>sq. \<lparr>st_TripID = tripID, st_Date = dateStr, st_StopSeq = int sq, st_StationID = rd_stopIDs route ! sq,
              st_ArrivalUnix = fst (seed_times startUnix hop (int sq)), st_DepartureUnix = snd (seed_times startUnix hop (int sq))\<rparr>)
            [0..<length (rd_stopIDs route)]\<rparr>)"

definition seed_trips :: "civil \<Rightarrow> int \<Rightarrow> ingest_trip list" where
  "seed_trips today todayUnix =
     concat (map (\<lambda>d. concat (map (\<lambda>route.
         map (seed_trip (format_date (add_days today (int d))) (todayUnix + int d * 86400) route) [0..<length (rd_departures route)])
       seed_routes)) [0..<daysToSeed])"

section \<open>The writes\<close>

datatype seed_sql = TruncateTables | InsertStation string string string | InsertRoute string string string | InsertTrip string string string int
  | InsertSeedStop stop_time | UpsertFootpath string string int | BumpVersion

text \<open>A batch stops at the first statement that fails and is then rolled back as a whole.\<close>

fun sendBatch :: "(seed_sql \<Rightarrow> 'db \<Rightarrow> 'db option) \<Rightarrow> seed_sql list \<Rightarrow> 'db \<Rightarrow> 'db option" where
  "sendBatch exec [] db = Some db"
| "sendBatch exec (q # qs) db = (case exec q db of None \<Rightarrow> None | Some db \<Rightarrow> sendBatch exec qs db)"

definition seatJSON :: string where
  "seatJSON = CHR ''{'' # CHR 0x22 # ''lower'' @ CHR 0x22 # '':10,'' @ CHR 0x22 # ''upper'' @ CHR 0x22 # '':10,'' @
     CHR 0x22 # ''seater'' @ CHR 0x22 # '':20}''"

definition seed_seat :: "'r redis_ops \<Rightarrow> string \<Rightarrow> trip_key \<Rightarrow> 'r \<Rightarrow> 'r" where
  "seed_seat R ts k r =
     XADD R DirtyStreamKey [(''trip'', SeatTripDate (TripID k) (Date k)), (''changed_at'', ts)]
       (SET R (SeatTSKey (TripID k) (Date k)) ts (SET R (SeatMapKey (TripID k) (Date k)) seatJSON r))"

text \<open>Pipelines of 200 trips; \<open>sent j\<close> is whether the \<open>j\<close>-th succeeds and \<open>ts j\<close> its time stamp. The
  commands of a pipeline that fails may have run: \<open>lost\<close> says what is left of them.\<close>

fun seed_pipelines :: "'r redis_ops \<Rightarrow> (nat \<Rightarrow> bool) \<Rightarrow> (nat \<Rightarrow> 'r \<Rightarrow> 'r) \<Rightarrow> (nat \<Rightarrow> string) \<Rightarrow> nat \<Rightarrow> trip_key list list \<Rightarrow> 'r \<Rightarrow> bool \<times> 'r" where
  "seed_pipelines R sent lost ts j [] r = (True, r)"
| "seed_pipelines R sent lost ts j (ks # rest) r =
     (if \<not> sent j then (False, lost j r)
      else seed_pipelines R sent lost ts (j + 1) rest (fold (seed_seat R (ts j)) ks r))"

definition seedSeats :: "'r redis_ops \<Rightarrow> (nat \<Rightarrow> bool) \<Rightarrow> (nat \<Rightarrow> 'r \<Rightarrow> 'r) \<Rightarrow> (nat \<Rightarrow> string) \<Rightarrow> trip_key list \<Rightarrow> 'r \<Rightarrow> bool \<times> 'r" where
  "seedSeats R sent lost ts keys r = seed_pipelines R sent lost ts 0 (chunks seatPipelineBatch keys) r"

datatype seed_error = TruncateFailed | StationsFailed | RoutesFailed | TripsFailed | StopTimesFailed | FootpathsFailed
  | SeatsFailed | BumpVersionFailed

text \<open>The end of the seeding: the walks, then the seats, and last the version that the watchers look at.\<close>

definition finish_seeding :: "(seed_sql \<Rightarrow> 'db \<Rightarrow> 'db option) \<Rightarrow> 'r redis_ops \<Rightarrow> (nat \<Rightarrow> bool) \<Rightarrow> (nat \<Rightarrow> 'r \<Rightarrow> 'r) \<Rightarrow> (nat \<Rightarrow> string) \<Rightarrow>
    trip_key list \<Rightarrow> 'db \<times> 'r \<Rightarrow> seed_error option \<times> 'db \<times> 'r" where
  "finish_seeding exec R sent lost ts seatKeys st =
     (let (db, r) = st in
      case sendBatch exec (map (\<lambda>(a, b, w). UpsertFootpath a b w) seed_footpaths) db of
        None \<Rightarrow> (Some FootpathsFailed, db, r)
      | Some db \<Rightarrow>
          (let (ok, r) = seedSeats R sent lost ts seatKeys r in
           if \<not> ok then (Some SeatsFailed, db, r)
           else case exec BumpVersion db of None \<Rightarrow> (Some BumpVersionFailed, db, r) | Some db \<Rightarrow> (None, db, r)))"

definition SeedDatabase :: "(seed_sql \<Rightarrow> 'db \<Rightarrow> 'db option) \<Rightarrow> 'r redis_ops \<Rightarrow> (nat \<Rightarrow> bool) \<Rightarrow> (nat \<Rightarrow> 'r \<Rightarrow> 'r) \<Rightarrow> (nat \<Rightarrow> string) \<Rightarrow>
    civil \<Rightarrow> int \<Rightarrow> 'db \<times> 'r \<Rightarrow> seed_error option \<times> 'db \<times> 'r" where
  "SeedDatabase exec R sent lost ts today todayUnix st =
     (let (db, r) = st in
      case exec TruncateTables db of None \<Rightarrow> (Some TruncateFailed, db, r) | Some db \<Rightarrow>
      (case sendBatch exec (map (\<lambda>(i, n, c). InsertStation i n c) seed_stations) db of None \<Rightarrow> (Some StationsFailed, db, r) | Some db \<Rightarrow>
      (case sendBatch exec (map (\<lambda>rt. InsertRoute (rd_routeID rt) (rd_name rt) (rd_mode rt)) seed_routes) db of None \<Rightarrow> (Some RoutesFailed, db, r) | Some db \<Rightarrow>
      (let trips = seed_trips today todayUnix in
       case sendBatch exec (map (\<lambda>t. InsertTrip (it_TripID t) (it_Date t) (it_RouteID t) (it_DepUnix t)) trips) db of
         None \<Rightarrow> (Some TripsFailed, db, r) | Some db \<Rightarrow>
      (case sendBatch exec (concat (map (\<lambda>t. map InsertSeedStop (it_StopTimes t)) trips)) db of
         None \<Rightarrow> (Some StopTimesFailed, db, r)
       | Some db \<Rightarrow> finish_seeding exec R sent lost ts (map it_key trips) (db, r))))))"

section \<open>The generated timetable\<close>

definition day_number :: "civil \<Rightarrow> int" where
  "day_number c = 372 * year c + 31 * month c + mday c"

lemma next_day_later: "civil_ok c \<Longrightarrow> day_number c < day_number (next_day c)"
  using days_in_bounds(2) [of "month c" "year c"] by (cases c) (auto simp: day_number_def)

lemma add_days_inject:
  assumes "civil_ok c"
  shows "add_days c (int i) = add_days c (int j) \<longleftrightarrow> i = j"
proof -
  have ok: "civil_ok ((next_day ^^ k) c)" for k
    using assms by (induction k) (auto simp: next_day_ok)
  have "strict_mono (\<lambda>k. day_number ((next_day ^^ k) c))"
    unfolding strict_mono_Suc_iff using next_day_later [OF ok] by simp
  then have "day_number ((next_day ^^ i) c) = day_number ((next_day ^^ j) c) \<longleftrightarrow> i = j" by (rule strict_mono_eq)
  then have "(next_day ^^ i) c = (next_day ^^ j) c \<longleftrightarrow> i = j" by metis
  then show ?thesis by (simp add: add_days_def)
qed

lemma seed_times_closed:
  "seed_times s h sq = (s + sq * (h + 300), s + sq * (h + 300) + (if 0 < sq then 300 else 0))"
  by (simp add: seed_times_def stopDwellSec_def Let_def distrib_left)

lemma seed_trip_valid:
  assumes "rd_stopIDs route \<noteq> []" "0 \<le> rd_hopSeconds route" "0 \<le> dayUnix" "0 \<le> rd_departures route ! t"
  shows "trip_valid (seed_trip dateStr dayUnix route t)"
proof -
  define s where "s = dayUnix + \<lfloor>rd_departures route ! t * 3600\<rfloor>"
  define h where "h = \<lfloor>of_int (rd_hopSeconds route) *
    (if t < length (rd_speedups route) \<and> rd_speedups route ! t > 0 then rd_speedups route ! t else 1)\<rfloor>"
  have s: "0 \<le> s" and h: "0 \<le> h" using assms by (simp_all add: s_def h_def)
  have eq: "it_StopTimes (seed_trip dateStr dayUnix route t) =
      map (\<lambda>sq. \<lparr>st_TripID = it_TripID (seed_trip dateStr dayUnix route t), st_Date = dateStr, st_StopSeq = int sq,
        st_StationID = rd_stopIDs route ! sq, st_ArrivalUnix = fst (seed_times s h (int sq)),
        st_DepartureUnix = snd (seed_times s h (int sq))\<rparr>) [0..<length (rd_stopIDs route)]"
    by (simp add: seed_trip_def Let_def s_def h_def)
  have "s + int i * (h + 300) + (if 0 < i then 300 else 0) < s + int j * (h + 300) + (if 0 < j then 300 else 0)"
    if "i < j" for i j :: nat
  proof -
    have "int i * (h + 300) \<le> int j * (h + 300)" using that h by (intro mult_right_mono) auto
    moreover have "int 0 * (h + 300) < int j * (h + 300)" using that h by (intro mult_strict_right_mono) auto
    moreover have "int i * (h + 300) < int j * (h + 300)" using that h by (intro mult_strict_right_mono) auto
    ultimately show ?thesis using that by auto
  qed
  moreover have "0 \<le> int i * (h + 300)" for i using h by simp
  ultimately show ?thesis
    unfolding trip_valid_def eq using assms(1) s
    by (auto simp: list_all_iff stop_valid_def seed_times_closed sorted_wrt_map sorted_wrt_upt
        intro!: sorted_wrt_mono_rel [OF _ sorted_wrt_upt])
qed

text \<open>The keys of one day's trips: the identifiers differ within the day.\<close>

definition day_keys :: "string \<Rightarrow> trip_key list" where
  "day_keys date = concat (map (\<lambda>route. map (\<lambda>t. TripKey (rd_routeID route @ ''_'' @ date @ ''_T'' @ append_int (int t + 1) 2) date)
     [0..<length (rd_departures route)]) seed_routes)"

lemma seed_trips_keys:
  "map it_key (seed_trips today todayUnix) = concat (map (\<lambda>d. day_keys (format_date (add_days today (int d)))) [0..<daysToSeed])"
  by (simp add: seed_trips_def day_keys_def map_concat it_key_def seed_trip_def Let_def o_def)

lemma day_keys_distinct: "distinct (day_keys date)"
  by (simp add: day_keys_def seed_routes_def mixed_route_def append_int_inject upt_rec)

lemma day_keys_date: "k \<in> set (day_keys date) \<Longrightarrow> Date k = date"
  by (auto simp: day_keys_def)

lemma seed_keys_distinct:
  assumes "civil_ok today"
  shows "distinct (map it_key (seed_trips today todayUnix))"
proof -
  have "distinct (concat (map (\<lambda>d. day_keys (format_date (add_days today (int d)))) [0..<n]))" for n
  proof (induction n)
    case (Suc n)
    have "format_date (add_days today (int i)) \<noteq> format_date (add_days today (int n))" if "i < n" for i
      using that add_days_inject [OF assms, of i n] format_date_inject add_days_ok assms by fastforce
    then have "set (day_keys (format_date (add_days today (int i)))) \<inter> set (day_keys (format_date (add_days today (int n)))) = {}"
      if "i < n" for i
      using that day_keys_date by (metis disjoint_iff)
    then show ?case using Suc by (simp add: day_keys_distinct) (fastforce simp: disjoint_iff)
  qed simp
  then show ?thesis by (simp add: seed_trips_keys)
qed

text \<open>C39: everything the seeder writes would pass the validation of the ingestion: no two trips share
  a key over the thirty days, and every timetable is monotone.\<close>

theorem seeded_schedule_is_valid:
  assumes "civil_ok today" "0 \<le> todayUnix"
  shows "ValidateBatch (seed_trips today todayUnix) = None"
proof -
  have "trip_valid (seed_trip date (todayUnix + int d * 86400) route t)"
    if "route \<in> set seed_routes" "t < length (rd_departures route)" for d route t date
  proof (rule seed_trip_valid)
    have "list_all (\<lambda>r. rd_stopIDs r \<noteq> [] \<and> 0 \<le> rd_hopSeconds r \<and> list_all (\<lambda>x. 0 \<le> x) (rd_departures r)) seed_routes"
      by (simp add: seed_routes_def mixed_route_def)
    with that show "rd_stopIDs route \<noteq> []" "0 \<le> rd_hopSeconds route" "0 \<le> rd_departures route ! t"
      by (auto simp: list_all_iff)
  qed (use assms in simp)
  then have "list_all trip_valid (seed_trips today todayUnix)"
    by (auto simp: seed_trips_def list_all_iff)
  with seed_keys_distinct [OF assms(1)] show ?thesis
    by (simp add: ValidateBatch_def validate_trips_None)
qed

theorem seeded_schedule_is_valid_witness: "ValidateBatch (seed_trips (Civil 2026 8 27) 1787788800) = None"
  by (rule seeded_schedule_is_valid) (simp_all add: days_in_def)

text \<open>The trip as the loader stores it.\<close>

definition as_loaded :: "ingest_trip \<Rightarrow> trip_stop_times" where
  "as_loaded t = stop_times_of \<lparr>tr_key = it_key t, tr_routeID = it_RouteID t,
     tr_stops = map (\<lambda>st. (st_StationID st, st_ArrivalUnix st, st_DepartureUnix st)) (it_StopTimes t)\<rparr>"

definition mixed_trips :: "string \<Rightarrow> int \<Rightarrow> trip_stop_times list" where
  "mixed_trips date day = map (as_loaded \<circ> seed_trip date day mixed_route) [0..<length (rd_departures mixed_route)]"

lemma length_mixed_trips: "length (mixed_trips date day) = 4"
  by (simp add: mixed_trips_def mixed_route_def)

lemma mixed_arrivals:
  "t < 4 \<Longrightarrow> Arrivals (mixed_trips date day ! t) =
     (let s = day + \<lfloor>rd_departures mixed_route ! t * 3600\<rfloor>; h = \<lfloor>5400 * rd_speedups mixed_route ! t\<rfloor>
      in [s, s + (h + 300), s + 2 * (h + 300)])"
  by (auto simp: mixed_trips_def as_loaded_def stop_times_of_def seed_trip_def seed_times_closed mixed_route_def Let_def
      upt_rec numeral_eq_Suc less_Suc_eq)

lemma mixed_local: "Arrivals (mixed_trips date day ! 0) = [day + 28800, day + 34500, day + 40200]"
  by (simp add: mixed_arrivals) (simp add: mixed_route_def Let_def)

lemma mixed_express: "Arrivals (mixed_trips date day ! 1) = [day + 32400, day + 34860, day + 37320]"
  by (simp add: mixed_arrivals) (simp add: mixed_route_def Let_def)

text \<open>On the mixed route the 08:00 local reaches Trenton before the 09:00 express, which overtakes it
  only before Philadelphia, and its run takes 43 per cent of the local's, the dwell not being scaled.
  The route is not FIFO, as the seeder intends.\<close>

theorem mixed_route_overtakes_after_Trenton:
  "let local = Arrivals (mixed_trips date day ! 0); express = Arrivals (mixed_trips date day ! 1) in
     local ! 1 < express ! 1 \<and> express ! 2 < local ! 2 \<and> 100 * (express ! 2 - express ! 0) div (local ! 2 - local ! 0) = 43 \<and>
     \<not> computeFIFO (mixed_trips date day)"
proof -
  have "\<not> non_overtaking (mixed_trips date day)"
  proof
    assume "non_overtaking (mixed_trips date day)"
    from this [unfolded non_overtaking_def, rule_format, of 0 1] have lens: "length (Departures (mixed_trips date day ! 0)) = 3"
      and le: "\<forall>pos < length (Departures (mixed_trips date day ! 0)).
        Arrivals (mixed_trips date day ! 0) ! pos \<le> Arrivals (mixed_trips date day ! 1) ! pos"
      by (simp_all add: length_mixed_trips mixed_local)
    from le [rule_format, of 2] show False by (simp add: lens mixed_local mixed_express [simplified])
  qed
  then show ?thesis by (simp add: mixed_local mixed_express [simplified] length_mixed_trips computeFIFO_iff Let_def)
qed

section \<open>Seeding over live data\<close>

lemma seed_seat_keeps_hash:
  "redis_laws R \<Longrightarrow> GET R (SeatHashKey t d) (fold (seed_seat R ts) ks r) = GET R (SeatHashKey t d) r"
proof (induction ks arbitrary: r)
  case (Cons k ks)
  then have "GET R (SeatHashKey t d) (seed_seat R ts k r) = GET R (SeatHashKey t d) r"
    by (simp add: seed_seat_def GET_SET GET_XADD gate_keys_differ) (simp add: SeatHashKey_def SeatMapKey_def SeatTSKey_def)
  with Cons show ?case by simp
qed simp

lemma seed_seat_map:
  assumes "redis_laws R" "TripKey t d \<in> set ks \<or> GET R (SeatMapKey t d) r = Some seatJSON"
  shows "GET R (SeatMapKey t d) (fold (seed_seat R ts) ks r) = Some seatJSON"
  using assms(2)
proof (induction ks arbitrary: r)
  case (Cons k ks)
  have "GET R (SeatMapKey t d) (seed_seat R ts k r) = (if SeatMapKey t d = SeatMapKey (TripID k) (Date k) then Some seatJSON else GET R (SeatMapKey t d) r)"
    by (simp add: seed_seat_def GET_SET [OF assms(1)] GET_XADD [OF assms(1)] gate_keys_differ)
      (simp add: SeatMapKey_def SeatTSKey_def)
  with Cons.prems have "TripKey t d \<in> set ks \<or> GET R (SeatMapKey t d) (seed_seat R ts k r) = Some seatJSON" by auto
  from Cons.IH [OF this] show ?case by simp
qed simp

lemma seedSeats_all:
  assumes "seedSeats R (\<lambda>j. True) lost ts keys r = (ok, r')" "redis_laws R"
  shows "ok \<and> GET R (SeatHashKey t d) r' = GET R (SeatHashKey t d) r \<and>
    (TripKey t d \<in> set keys \<or> GET R (SeatMapKey t d) r = Some seatJSON \<longrightarrow> GET R (SeatMapKey t d) r' = Some seatJSON)"
proof -
  have "seed_pipelines R (\<lambda>j. True) lost ts j cs r = (ok, r') \<Longrightarrow> ok \<and> GET R (SeatHashKey t d) r' = GET R (SeatHashKey t d) r \<and>
      (TripKey t d \<in> set (concat cs) \<or> GET R (SeatMapKey t d) r = Some seatJSON \<longrightarrow> GET R (SeatMapKey t d) r' = Some seatJSON)" for j cs r
  proof (induction cs arbitrary: j r)
    case (Cons c cs)
    from Cons.IH [of "j + 1" "fold (seed_seat R (ts j)) c r"] Cons.prems show ?case
      using seed_seat_map [OF assms(2), of t d c r "ts j"] seed_seat_keeps_hash [OF assms(2), of t d "ts j" c r] by auto
  qed simp
  from this [of 0 "chunks seatPipelineBatch keys" r] assms(1) show ?thesis
    by (simp add: seedSeats_def concat_chunks seatPipelineBatch_def)
qed

text \<open>Seeding overwrites the seat maps and leaves the fingerprints of the gate. A poll that then returns the
  seats of the old fingerprint is taken for no change: the demonstration numbers stay, and nothing is announced.\<close>

theorem seeding_outlives_unchanged_poll:
  assumes "redis_laws R" "TripKey t d \<in> set keys" "GET R (SeatHashKey t d) r = Some (canonicalHash sha256 seats)"
    and "seedSeats R (\<lambda>j. True) lost ts keys r = (ok, r1)"
    and "luaGate R sha256 marshal now ScriptRan t d seats r1 = (res, r2)"
  shows "ok \<and> res = Some 0 \<and> GET R (SeatMapKey t d) r2 = Some seatJSON \<and> entries R DirtyStreamKey r2 = entries R DirtyStreamKey r1"
  using seedSeats_all [OF assms(4,1), of t d] assms(2,3,5)
  by (auto simp: luaGate_def seat_gate_def Let_def GET_SET [OF assms(1)] entries_SET [OF assms(1)] gate_keys_differ gate_keys_differ [symmetric])

definition seeded_over :: "bool \<times> mem" where
  "seeded_over = seedSeats mem_redis (\<lambda>j. True) (\<lambda>j r. r) (\<lambda>j. ''1.0'') [TripKey ''T1'' ''2026-08-27'']
     (empty_mem\<lparr>kv := [''seat:hash:T1:2026-08-27'' \<mapsto> []]\<rparr>)"

theorem seeding_outlives_unchanged_poll_witness:
  "kv (snd (luaGate mem_redis id (\<lambda>m. ''{}'') ''2.0'' ScriptRan ''T1'' ''2026-08-27'' [] (snd seeded_over))) ''seat:map:T1:2026-08-27'' = Some seatJSON"
proof -
  have hash: "canonicalHash id [] = []" by (simp add: canonicalHash_def canonical_bytes_def gm_keys_def hexBytes_def)
  obtain ok r1 where s: "seeded_over = (ok, r1)" by fastforce
  obtain res r2 where g: "luaGate mem_redis id (\<lambda>m. ''{}'') ''2.0'' ScriptRan ''T1'' ''2026-08-27'' [] r1 = (res, r2)" by fastforce
  have "GET mem_redis (SeatMapKey ''T1'' ''2026-08-27'') r2 = Some seatJSON"
    using seeding_outlives_unchanged_poll [OF mem_redis_laws _ _ s [unfolded seeded_over_def] g]
    by (simp add: hash SeatHashKey_def) (simp add: mem_redis_def)
  moreover have "GET mem_redis k m = kv m k" for k m by (simp add: mem_redis_def)
  ultimately show ?thesis by (simp add: s g SeatMapKey_def)
qed

section \<open>The order of the writes\<close>

lemma sendBatch_append: "sendBatch exec (qs @ qs') db = (case sendBatch exec qs db of None \<Rightarrow> None | Some db \<Rightarrow> sendBatch exec qs' db)"
  by (induction qs arbitrary: db) (auto split: option.splits)

text \<open>The batches of a complete seeding, before the version moves.\<close>

definition seed_batches :: "civil \<Rightarrow> int \<Rightarrow> seed_sql list list" where
  "seed_batches today todayUnix =
     [[TruncateTables], map (\<lambda>(i, n, c). InsertStation i n c) seed_stations,
      map (\<lambda>rt. InsertRoute (rd_routeID rt) (rd_name rt) (rd_mode rt)) seed_routes,
      map (\<lambda>t. InsertTrip (it_TripID t) (it_Date t) (it_RouteID t) (it_DepUnix t)) (seed_trips today todayUnix),
      concat (map (\<lambda>t. map InsertSeedStop (it_StopTimes t)) (seed_trips today todayUnix)),
      map (\<lambda>(a, b, w). UpsertFootpath a b w) seed_footpaths]"

text \<open>C40: a seeding that succeeds has run every statement and then moved the version the watchers
  look at, with the seats of every trip written. One that fails has run the batches before the failing
  one; it has not moved the version, and until all rows are in it has left Redis alone.\<close>

theorem seeding_moves_version_last:
  "case SeedDatabase exec R sent lost ts today todayUnix (db, r) of (err, db', r') \<Rightarrow>
     (if err = None
      then sendBatch exec (concat (seed_batches today todayUnix) @ [BumpVersion]) db = Some db' \<and>
        seedSeats R sent lost ts (map it_key (seed_trips today todayUnix)) r = (True, r')
      else \<exists>n. sendBatch exec (concat (take n (seed_batches today todayUnix))) db = Some db' \<and>
        (n = length (seed_batches today todayUnix) \<or> r' = r)) \<and>
     list_all (\<lambda>qs. BumpVersion \<notin> set qs) (seed_batches today todayUnix)"
proof -
  obtain err db' r' where s: "SeedDatabase exec R sent lost ts today todayUnix (db, r) = (err, db', r')" by (metis prod.collapse)
  let ?B = "seed_batches today todayUnix"
  define ran where "ran n \<longleftrightarrow> sendBatch exec (concat (take n ?B)) db = Some db'" for n
  have "list_all (\<lambda>qs. BumpVersion \<notin> set qs) ?B" by (auto simp: seed_batches_def)
  moreover have "sendBatch exec (concat ?B @ [BumpVersion]) db = Some db' \<and>
      seedSeats R sent lost ts (map it_key (seed_trips today todayUnix)) r = (True, r')" if "err = None"
    using s that by (auto simp: SeedDatabase_def finish_seeding_def sendBatch_append seed_batches_def Let_def
        split: option.splits if_splits prod.splits)
  moreover have stages: "ran 0 \<and> r' = r \<or> ran 1 \<and> r' = r \<or> ran 2 \<and> r' = r \<or> ran 3 \<and> r' = r \<or> ran 4 \<and> r' = r \<or> ran 5 \<and> r' = r \<or> ran 6"
    if "err \<noteq> None"
    using s that by (auto simp: SeedDatabase_def finish_seeding_def sendBatch_append seed_batches_def ran_def Let_def
        split: option.splits if_splits prod.splits)
  moreover have "\<exists>n. ran n \<and> (n = length ?B \<or> r' = r)" if "err \<noteq> None"
  proof -
    have "length ?B = 6" by (simp add: seed_batches_def)
    with stages [OF that] show ?thesis by metis
  qed
  ultimately show ?thesis unfolding s ran_def by simp
qed

end
