(* ===== verification/Signal_State.thy ===== *)
theory Signal_State
  imports Domain_Types
begin

text \<open>
  The published seat-signal buffer, its counters and the readiness flag of
  \<^verbatim>\<open>internal/state/signal.go\<close>. The package variables are the fields of one record; each
  atomic store is one step, so \<open>SwapSignal\<close> is its sequence of stores and a reader can fall
  between two of them.
\<close>

type_synonym signal_buffer = "(trip_key, seat_signal) gomap"

record app_state =
  liveSignal :: signal_buffer
  ready :: bool
  seatDataPresent :: bool
  signalCount :: int
  staleCount :: int
  lastSwapUnix :: int

definition init_app :: app_state where
  "init_app = \<lparr>liveSignal = [], ready = False, seatDataPresent = False, signalCount = 0,
     staleCount = 0, lastSwapUnix = 0\<rparr>"

definition LiveSignal :: "app_state \<Rightarrow> signal_buffer" where
  "LiveSignal s = liveSignal s"

text \<open>The loop over the staging map that counts stale signals.\<close>

definition count_stale :: "signal_buffer \<Rightarrow> int" where
  "count_stale staging = fold (\<lambda>(k, sig) n. if Stale sig then n + 1 else n) staging 0"

text \<open>The atomic stores of \<open>SwapSignal\<close> in program order.\<close>

definition swap_stores :: "int \<Rightarrow> signal_buffer \<Rightarrow> (app_state \<Rightarrow> app_state) list" where
  "swap_stores now staging =
     (let stale = count_stale staging in
      [\<lambda>s. s\<lparr>liveSignal := staging\<rparr>,
       \<lambda>s. s\<lparr>signalCount := int (length staging)\<rparr>,
       \<lambda>s. s\<lparr>staleCount := stale\<rparr>,
       \<lambda>s. s\<lparr>lastSwapUnix := now\<rparr>] @
      (if length staging > 0 then [\<lambda>s. s\<lparr>seatDataPresent := True\<rparr>] else []))"

definition SwapSignal :: "int \<Rightarrow> signal_buffer \<Rightarrow> app_state \<Rightarrow> app_state" where
  "SwapSignal now staging s = fold (\<lambda>store. store) (swap_stores now staging) s"

definition ResetSeatDataLatch :: "app_state \<Rightarrow> app_state" where
  "ResetSeatDataLatch s =
     s\<lparr>seatDataPresent := False, liveSignal := [], signalCount := 0, staleCount := 0,
       lastSwapUnix := 0\<rparr>"

definition SignalCount :: "app_state \<Rightarrow> int" where "SignalCount s = signalCount s"

definition StaleSignalCount :: "app_state \<Rightarrow> int" where "StaleSignalCount s = staleCount s"

text \<open>The age in seconds; \<open>time.Since\<close> reads the clock \<open>now\<close>.\<close>

definition SeatDataAge :: "int \<Rightarrow> app_state \<Rightarrow> int" where
  "SeatDataAge now s = (let last = lastSwapUnix s in if last = 0 then 0 else now - last)"

definition StaleFraction :: "app_state \<Rightarrow> rat" where
  "StaleFraction s =
     (let total = signalCount s in if total = 0 then 0 else of_int (staleCount s) / of_int total)"

definition MarkReady :: "app_state \<Rightarrow> app_state" where "MarkReady s = s\<lparr>ready := True\<rparr>"
definition MarkNotReady :: "app_state \<Rightarrow> app_state" where "MarkNotReady s = s\<lparr>ready := False\<rparr>"
definition IsReady :: "app_state \<Rightarrow> bool" where "IsReady s = ready s"
definition HasSeatData :: "app_state \<Rightarrow> bool" where "HasSeatData s = seatDataPresent s"

section \<open>Reachable states\<close>

datatype app_op = OpSwap int signal_buffer | OpReset | OpReady | OpNotReady

fun app_step :: "app_op \<Rightarrow> app_state \<Rightarrow> app_state" where
  "app_step (OpSwap now staging) s = SwapSignal now staging s"
| "app_step OpReset s = ResetSeatDataLatch s"
| "app_step OpReady s = MarkReady s"
| "app_step OpNotReady s = MarkNotReady s"

inductive app_reachable :: "app_state \<Rightarrow> bool" where
  app_init: "app_reachable init_app"
| app_next: "app_reachable s \<Longrightarrow> app_reachable (app_step op s)"

lemma count_stale_eq: "count_stale staging = int (length (filter (\<lambda>(k, sig). Stale sig) staging))"
proof -
  have "fold (\<lambda>(k, sig) n. if Stale sig then n + 1 else n) m n =
      n + int (length (filter (\<lambda>(k, sig). Stale sig) m))" for m :: signal_buffer and n :: int
    by (induction m arbitrary: n) auto
  then show ?thesis by (simp add: count_stale_def)
qed

text \<open>The count does not depend on the order in which the map is ranged over.\<close>

lemma count_stale_mset: "mset m = mset m' \<Longrightarrow> count_stale m = count_stale m'"
  by (metis count_stale_eq mset_filter size_mset)

lemma SwapSignal_eq:
  "SwapSignal now staging s =
     s\<lparr>liveSignal := staging, signalCount := int (length staging), staleCount := count_stale staging,
       lastSwapUnix := now, seatDataPresent := (seatDataPresent s \<or> staging \<noteq> [])\<rparr>"
  by (simp add: SwapSignal_def swap_stores_def Let_def)

definition app_inv :: "app_state \<Rightarrow> bool" where
  "app_inv s \<longleftrightarrow> signalCount s = int (length (liveSignal s)) \<and> staleCount s = count_stale (liveSignal s) \<and>
     (liveSignal s \<noteq> [] \<longrightarrow> seatDataPresent s)"

lemma app_inv_reachable: "app_reachable s \<Longrightarrow> app_inv s"
proof (induction rule: app_reachable.induct)
  case app_init
  show ?case by (simp add: app_inv_def init_app_def count_stale_def)
next
  case (app_next s op)
  then show ?case
    by (cases op) (auto simp: app_inv_def SwapSignal_eq ResetSeatDataLatch_def MarkReady_def
        MarkNotReady_def count_stale_def)
qed

lemma count_stale_bounds: "0 \<le> count_stale m" "count_stale m \<le> int (length m)"
  by (simp_all add: count_stale_eq)

section \<open>Properties\<close>

text \<open>Between swaps the counters describe the published buffer, so the stale fraction lies in
  [0, 1], and a non-empty buffer means the seat-data latch is set.\<close>

theorem signal_counters_describe_buffer:
  assumes "app_reachable s"
  shows "SignalCount s = int (length (LiveSignal s)) \<and>
     StaleSignalCount s = int (length (filter (\<lambda>(k, sig). Stale sig) (LiveSignal s))) \<and>
     0 \<le> StaleFraction s \<and> StaleFraction s \<le> 1 \<and> (LiveSignal s \<noteq> [] \<longrightarrow> HasSeatData s)"
  using app_inv_reachable [OF assms] count_stale_bounds [of "liveSignal s"]
  by (auto simp: app_inv_def SignalCount_def StaleSignalCount_def LiveSignal_def HasSeatData_def
      StaleFraction_def Let_def count_stale_eq divide_le_eq_1)

theorem signal_counters_describe_buffer_witness:
  "let sig = \<lparr>ByClass = [], Total = 0, Stale = True, SnapshotTs = 0\<rparr>;
       s = SwapSignal 7 [(TripKey ''T'' ''D'', sig)] init_app
   in SignalCount s = 1 \<and> StaleFraction s \<le> 1 \<and> HasSeatData s"
proof -
  define sig where "sig = \<lparr>ByClass = [], Total = 0, Stale = True, SnapshotTs = 0\<rparr>"
  have "app_reachable (app_step (OpSwap 7 [(TripKey ''T'' ''D'', sig)]) init_app)"
    by (intro app_reachable.intros)
  then show ?thesis
    using signal_counters_describe_buffer [of "SwapSignal 7 [(TripKey ''T'' ''D'', sig)] init_app"]
    by (simp add: Let_def sig_def [symmetric] SwapSignal_eq LiveSignal_def)
qed

text \<open>A reader that falls between the stores of \<open>SwapSignal\<close> can see a stale fraction above
  one, because the signal count and the stale count are published by separate stores: here the
  first two stores of a swap from two stale signals to one fresh signal.\<close>

theorem stale_fraction_torn_read:
  "let stale = \<lparr>ByClass = [], Total = 0, Stale = True, SnapshotTs = 0\<rparr>;
       old = [(TripKey ''A'' ''D'', stale), (TripKey ''B'' ''D'', stale)];
       fresh = [(TripKey ''A'' ''D'', stale\<lparr>Stale := False\<rparr>)];
       s = SwapSignal 1 old init_app
   in StaleFraction (fold (\<lambda>store. store) (take 2 (swap_stores 2 fresh)) s) = 2 \<and>
      StaleFraction (SwapSignal 2 fresh s) = 0"
  by (simp add: Let_def SwapSignal_eq swap_stores_def StaleFraction_def count_stale_def init_app_def
      numeral_2_eq_2)

text \<open>The seat-data latch is one way: once a non-empty buffer was published it stays set
  through every later swap, empty ones included, and through the readiness changes.\<close>

theorem seat_data_latch:
  assumes "staging \<noteq> []" "OpReset \<notin> set ops"
  shows "HasSeatData (fold app_step ops (SwapSignal now staging s))"
proof -
  have "seatDataPresent s \<Longrightarrow> seatDataPresent (fold app_step ops s)" for s
    using assms(2)
  proof (induction ops arbitrary: s)
    case (Cons op ops)
    then show ?case by (cases op) (auto simp: SwapSignal_eq MarkReady_def MarkNotReady_def)
  qed simp
  then show ?thesis using assms(1) by (simp add: HasSeatData_def SwapSignal_eq)
qed

theorem seat_data_latch_witness:
  "let sig = \<lparr>ByClass = [], Total = 0, Stale = False, SnapshotTs = 0\<rparr>
   in HasSeatData (fold app_step [OpSwap 9 [], OpNotReady] (SwapSignal 7 [(TripKey ''T'' ''D'', sig)] init_app))"
  unfolding Let_def by (rule seat_data_latch) simp_all

end
