(* ===== verification/Path_Check.thy ===== *)
theory Path_Check
  imports Domain_Types
begin

text \<open>
  \<open>ValidatePath\<close> of \<^verbatim>\<open>internal/raptor/validator.go\<close>: the check every reconstructed
  journey passes before it is shown. Each \<open>fmt.Errorf\<close> of the code is a constructor that
  carries the values the message prints.
\<close>

datatype path_error =
    PathHasNoLegs
  | PathStartsAt string string
  | PathEndsAt string string
  | PathDepartsAt int int
  | LegArrivesBeforeDeparture nat int int
  | LegHasNoTripID nat
  | LegGap nat string nat string
  | LegOverlap nat int nat int

text \<open>The loop over the legs; \<open>prev\<close> is the leg before position \<open>i\<close>, absent at zero.\<close>

fun validate_legs :: "nat \<Rightarrow> leg option \<Rightarrow> leg list \<Rightarrow> path_error option" where
  "validate_legs i prev [] = None"
| "validate_legs i prev (l # ls) =
     (if ArrivalUnix l < DepartureUnix l
      then Some (LegArrivesBeforeDeparture i (ArrivalUnix l) (DepartureUnix l))
      else if Kind l = LegTransit \<and> leg_TripID l = [] then Some (LegHasNoTripID i)
      else
        (case prev of
           None \<Rightarrow> validate_legs (i + 1) (Some l) ls
         | Some p \<Rightarrow>
             if AlightStation p \<noteq> BoardStation l
             then Some (LegGap (i - 1) (AlightStation p) i (BoardStation l))
             else if DepartureUnix l < ArrivalUnix p
             then Some (LegOverlap i (DepartureUnix l) (i - 1) (ArrivalUnix p))
             else validate_legs (i + 1) (Some l) ls))"

definition ValidatePath :: "path \<Rightarrow> search_params \<Rightarrow> path_error option" where
  "ValidatePath p params =
     (if Legs p = [] then Some PathHasNoLegs
      else if BoardStation (hd (Legs p)) \<noteq> Origin params
      then Some (PathStartsAt (BoardStation (hd (Legs p))) (Origin params))
      else if AlightStation (last (Legs p)) \<noteq> Destination params
      then Some (PathEndsAt (AlightStation (last (Legs p))) (Destination params))
      else if DepartureUnix (hd (Legs p)) < DepTime params
      then Some (PathDepartsAt (DepartureUnix (hd (Legs p))) (DepTime params))
      else validate_legs 0 None (Legs p))"

section \<open>What the check accepts\<close>

text \<open>A leg in itself, and two legs in a row.\<close>

definition leg_ok :: "leg \<Rightarrow> bool" where
  "leg_ok l \<longleftrightarrow> DepartureUnix l \<le> ArrivalUnix l \<and> (Kind l = LegTransit \<longrightarrow> leg_TripID l \<noteq> [])"

definition legs_join :: "leg \<Rightarrow> leg \<Rightarrow> bool" where
  "legs_join p l \<longleftrightarrow> AlightStation p = BoardStation l \<and> ArrivalUnix p \<le> DepartureUnix l"

definition connected_legs :: "leg list \<Rightarrow> bool" where
  "connected_legs ls \<longleftrightarrow> list_all leg_ok ls \<and> successively legs_join ls"

definition path_well_formed :: "path \<Rightarrow> search_params \<Rightarrow> bool" where
  "path_well_formed p params \<longleftrightarrow>
     Legs p \<noteq> [] \<and> BoardStation (hd (Legs p)) = Origin params \<and>
     AlightStation (last (Legs p)) = Destination params \<and>
     DepTime params \<le> DepartureUnix (hd (Legs p)) \<and> connected_legs (Legs p)"

lemma validate_legs_iff:
  "validate_legs i prev ls = None \<longleftrightarrow>
     list_all leg_ok ls \<and> successively legs_join (case prev of None \<Rightarrow> ls | Some p \<Rightarrow> p # ls)"
  by (induction i prev ls rule: validate_legs.induct)
    (auto simp: leg_ok_def legs_join_def split: option.splits)

lemma ValidatePath_iff: "ValidatePath p params = None \<longleftrightarrow> path_well_formed p params"
  by (auto simp: ValidatePath_def path_well_formed_def connected_legs_def validate_legs_iff)

text \<open>Along a connected list of legs time never runs backwards.\<close>

lemma connected_legs_times:
  "connected_legs (l # ls) \<Longrightarrow> DepartureUnix l \<le> ArrivalUnix (last (l # ls))"
proof (induction ls arbitrary: l)
  case (Cons m ls)
  then have "connected_legs (m # ls)" "DepartureUnix l \<le> ArrivalUnix l" "ArrivalUnix l \<le> DepartureUnix m"
    by (auto simp: connected_legs_def leg_ok_def legs_join_def)
  with Cons.IH [of m] show ?case by simp
qed (simp add: connected_legs_def leg_ok_def)

section \<open>Properties\<close>

text \<open>C36: the check accepts exactly the journeys with at least one leg that start at the requested
  origin, not before the requested time, end at the destination, never run backwards in time,
  join end to end, and name a trip on every transit leg.\<close>

theorem ValidatePath_accepts_well_formed:
  "ValidatePath p params = None \<longleftrightarrow> path_well_formed p params"
  by (rule ValidatePath_iff)

end
