(* ===== verification/Engine.thy ===== *)
theory Engine
  imports Content_Hash Signal_State Path_Check
begin

text \<open>
  The search of \<^verbatim>\<open>internal/raptor/engine.go\<close>. The query, the two snapshots and the derived
  settings that never change are a \<open>search_env\<close>; the label maps, journals and pruning bounds
  are a \<open>search_state\<close> passed through the operations in the order of the code. A slice of maps
  indexed by round is a function from rounds to maps, where a nil map is the empty one (Go reads
  both alike). The set of improved stations is a list without duplicates. The order in which Go
  ranges over a map is a parameter of the environment. Sums of \<open>int64\<close> wrap.
\<close>

section \<open>State\<close>

record journal_entry =
  je_kind :: leg_kind
  je_fromRound :: int
  je_from :: string
  je_tripKey :: trip_key
  je_routeID :: string
  je_departure :: int
  je_arrival :: int

text \<open>The order in which Go ranges over the marked stations, the queued routes and the improved
  stations of a round.\<close>

record map_orders =
  iter_marked :: "nat \<Rightarrow> string list \<Rightarrow> string list"
  iter_queue :: "nat \<Rightarrow> int list \<Rightarrow> int list"
  iter_improved :: "nat \<Rightarrow> string list \<Rightarrow> string list"

record search_env =
  params :: search_params
  rounds :: nat
  xferSec :: int
  dest :: string
  routes :: route_buffer
  signals :: signal_buffer
  allowed :: "string list"
  orders :: map_orders

record search_state =
  tau :: "nat \<Rightarrow> string \<Rightarrow> int option"
  journal :: "nat \<Rightarrow> string \<Rightarrow> journal_entry option"
  best :: "string \<Rightarrow> int option"
  preWalk :: "nat \<Rightarrow> string \<Rightarrow> journal_entry option"

type_synonym work = "search_state \<times> string list"

definition infinity :: int where "infinity = max_int64"

section \<open>Filters\<close>

definition canBoard :: "signal_buffer \<Rightarrow> trip_key \<Rightarrow> string \<Rightarrow> int \<Rightarrow> bool" where
  "canBoard buf key class n =
     (case map_of buf key of
        None \<Rightarrow> True
      | Some sig \<Rightarrow> if Stale sig then True else gm_get (ByClass sig) class 0 \<ge> n)"

definition tripUsable :: "search_env \<Rightarrow> trip_stop_times \<Rightarrow> bool" where
  "tripUsable E t =
     (if Date (Key t) \<notin> set (allowed E) then False
      else canBoard (signals E) (Key t) (SeatClass (params E)) (Passengers (params E)))"

definition improves :: "search_env \<Rightarrow> search_state \<Rightarrow> int \<Rightarrow> string \<Rightarrow> bool" where
  "improves E s arr station =
     (if (case best s (dest E) of None \<Rightarrow> False | Some bd \<Rightarrow> arr \<ge> bd) then False
      else (case best s station of None \<Rightarrow> True | Some b \<Rightarrow> arr < b))"

section \<open>Route scans\<close>

text \<open>The three writes that record a label, and the mark of its station.\<close>

definition set_label :: "nat \<Rightarrow> string \<Rightarrow> int \<Rightarrow> journal_entry \<Rightarrow> work \<Rightarrow> work" where
  "set_label k station arr e = (\<lambda>(s, improved).
     (s\<lparr>tau := (tau s)(k := (tau s k)(station \<mapsto> arr)),
        best := (best s)(station \<mapsto> arr),
        journal := (journal s)(k := (journal s k)(station \<mapsto> e))\<rparr>,
      add_new station improved))"

text \<open>
  \<open>earliestTrip\<close>: the binary search over the departures at \<open>pos\<close>, then the forward
  scan over the trips from there.
\<close>

fun forward_scan :: "search_env \<Rightarrow> trip_stop_times list \<Rightarrow> nat \<Rightarrow> int \<Rightarrow> nat list \<Rightarrow> int" where
  "forward_scan E trips pos mustBeat [] = -1"
| "forward_scan E trips pos mustBeat (i # is) =
     (let d = Departures (trips ! i) in
      if pos \<ge> length d then forward_scan E trips pos mustBeat is
      else if d ! pos \<ge> mustBeat then -1
      else if tripUsable E (trips ! i) then int i
      else forward_scan E trips pos mustBeat is)"

definition earliestTrip :: "search_env \<Rightarrow> trip_stop_times list \<Rightarrow> nat \<Rightarrow> int \<Rightarrow> int \<Rightarrow> int" where
  "earliestTrip E trips pos rdy mustBeat =
     (let lo = sort_search (length trips) (\<lambda>i.
            let d = Departures (trips ! i) in if pos \<ge> length d then True else d ! pos \<ge> rdy)
      in forward_scan E trips pos mustBeat [lo..<length trips])"

text \<open>The label of the previous rnd, with the transfer buffer after a vehicle.\<close>

definition ready_at :: "search_env \<Rightarrow> nat \<Rightarrow> search_state \<Rightarrow> string \<Rightarrow> int option" where
  "ready_at E k s station =
     (case tau s (k - 1) station of
        None \<Rightarrow> None
      | Some rdy \<Rightarrow>
          (case journal s (k - 1) station of
             None \<Rightarrow> Some rdy
           | Some e \<Rightarrow> if je_kind e = LegTransit then Some (i64 (rdy + xferSec E)) else Some rdy))"

definition transit_entry :: "nat \<Rightarrow> string \<Rightarrow> trip_key \<Rightarrow> string \<Rightarrow> int \<Rightarrow> int \<Rightarrow> journal_entry" where
  "transit_entry k from key rid dep arr =
     \<lparr>je_kind = LegTransit, je_fromRound = int k - 1, je_from = from, je_tripKey = key,
      je_routeID = rid, je_departure = dep, je_arrival = arr\<rparr>"

text \<open>Step A of both scans: propagate the arrival of the trip being ridden.\<close>

definition alight :: "search_env \<Rightarrow> nat \<Rightarrow> route_entry \<Rightarrow> trip_stop_times \<Rightarrow> nat \<Rightarrow> string \<Rightarrow> int \<Rightarrow> work \<Rightarrow> work" where
  "alight E k route t pos boardStation boardDep w =
     (let station = StopIDs route ! pos; arr = Arrivals t ! pos in
      if improves E (fst w) arr station
      then set_label k station arr (transit_entry k boardStation (Key t) (RouteID route) boardDep arr) w
      else w)"

text \<open>One stop of the classic scan; the ride is the trip index, \<open>-1\<close> for none, and where
  and when it was boarded.\<close>

type_synonym ride = "int \<times> string \<times> int"

definition scan_stop :: "search_env \<Rightarrow> nat \<Rightarrow> route_entry \<Rightarrow> trip_stop_times list \<Rightarrow> nat \<Rightarrow> ride \<times> work \<Rightarrow> ride \<times> work" where
  "scan_stop E k route trips pos = (\<lambda>((tripIdx, boardStation, boardDep), w).
     (let station = StopIDs route ! pos;
          w' = (if tripIdx \<ge> 0 \<and> pos < length (Arrivals (trips ! nat tripIdx))
                then alight E k route (trips ! nat tripIdx) pos boardStation boardDep w else w)
      in case ready_at E k (fst w') station of
           None \<Rightarrow> ((tripIdx, boardStation, boardDep), w')
         | Some rdy \<Rightarrow>
             (let curDep = (if tripIdx \<ge> 0 \<and> pos < length (Departures (trips ! nat tripIdx))
                            then Departures (trips ! nat tripIdx) ! pos else infinity)
              in if rdy > curDep then ((tripIdx, boardStation, boardDep), w')
                 else let cand = earliestTrip E trips pos rdy curDep in
                   if cand \<ge> 0 then ((cand, station, Departures (trips ! nat cand) ! pos), w')
                   else ((tripIdx, boardStation, boardDep), w'))))"

text \<open>One stop of the scan of a single trip, used on overtaking routes.\<close>

type_synonym trip_ride = "bool \<times> string \<times> int"

definition scan_trip_stop :: "search_env \<Rightarrow> nat \<Rightarrow> route_entry \<Rightarrow> trip_stop_times \<Rightarrow> nat \<Rightarrow> trip_ride \<times> work \<Rightarrow> trip_ride \<times> work" where
  "scan_trip_stop E k route t pos = (\<lambda>((boarded, boardStation, boardDep), w).
     (let station = StopIDs route ! pos;
          w' = (if boarded \<and> pos < length (Arrivals t)
                then alight E k route t pos boardStation boardDep w else w)
      in if boarded \<or> pos \<ge> length (Departures t) then ((boarded, boardStation, boardDep), w')
         else case ready_at E k (fst w') station of
           None \<Rightarrow> ((boarded, boardStation, boardDep), w')
         | Some rdy \<Rightarrow>
             if Departures t ! pos \<ge> rdy then ((True, station, Departures t ! pos), w')
             else ((boarded, boardStation, boardDep), w')))"

definition scanTrip :: "search_env \<Rightarrow> nat \<Rightarrow> route_entry \<Rightarrow> trip_stop_times \<Rightarrow> nat \<Rightarrow> work \<Rightarrow> work" where
  "scanTrip E k route t boardPos w =
     (if \<not> tripUsable E t then w
      else snd (fold (scan_trip_stop E k route t) [boardPos..<length (StopIDs route)] ((False, [], 0), w)))"

definition scanRoute :: "search_env \<Rightarrow> nat \<Rightarrow> int \<Rightarrow> int \<Rightarrow> work \<Rightarrow> work" where
  "scanRoute E k routeIdx boardPos w =
     (if routeIdx < 0 \<or> routeIdx \<ge> int (length (StopTimes (routes E))) \<or> routeIdx \<ge> int (length (Routes (routes E)))
      then w
      else
        (let route = Routes (routes E) ! nat routeIdx; trips = StopTimes (routes E) ! nat routeIdx in
         if length trips = 0 \<or> length (StopIDs route) = 0 then w
         else
           (let boardPos = (if boardPos < 0 then 0 else boardPos) in
            if \<not> IsFIFO (routes E) routeIdx
            then fold (\<lambda>t. scanTrip E k route t (nat boardPos)) trips w
            else snd (fold (scan_stop E k route trips) [nat boardPos..<length (StopIDs route)] ((-1, [], 0), w)))))"

section \<open>Footpaths\<close>

definition walk_entry :: "nat \<Rightarrow> string \<Rightarrow> int \<Rightarrow> int \<Rightarrow> journal_entry" where
  "walk_entry k from depart arr =
     \<lparr>je_kind = LegWalk, je_fromRound = int k, je_from = from, je_tripKey = TripKey [] [],
      je_routeID = WalkRouteID, je_departure = depart, je_arrival = arr\<rparr>"

text \<open>The first pass: the sources that can walk anywhere, with their departure times, and the
  entry each was reached by.\<close>

definition snapshot_source :: "search_env \<Rightarrow> nat \<Rightarrow> string \<Rightarrow> search_state \<times> (string \<times> int) list \<Rightarrow> search_state \<times> (string \<times> int) list" where
  "snapshot_source E k from = (\<lambda>(s, srcs).
     (if length (gm_get (Footpaths (routes E)) from []) = 0 then (s, srcs)
      else case tau s k from of
        None \<Rightarrow> (s, srcs)
      | Some depart \<Rightarrow>
          ((case journal s k from of
              None \<Rightarrow> s
            | Some e \<Rightarrow> s\<lparr>preWalk := (preWalk s)(k := (preWalk s k)(from \<mapsto> e))\<rparr>),
           srcs @ [(from, depart)])))"

definition walk_edge_step :: "search_env \<Rightarrow> nat \<Rightarrow> string \<Rightarrow> int \<Rightarrow> footpath \<Rightarrow> work \<Rightarrow> work" where
  "walk_edge_step E k from depart fp w =
     (let arr = i64 (depart + WalkSeconds fp) in
      if \<not> improves E (fst w) arr (NeighbourStop fp) then w
      else set_label k (NeighbourStop fp) arr (walk_entry k from depart arr) w)"

definition relaxFootpaths :: "search_env \<Rightarrow> nat \<Rightarrow> string list \<Rightarrow> work \<Rightarrow> work" where
  "relaxFootpaths E k sources = (\<lambda>(s, improved).
     (let (s, srcs) = fold (snapshot_source E k) sources (s, []) in
      fold (\<lambda>(from, depart). fold (walk_edge_step E k from depart) (gm_get (Footpaths (routes E)) from []))
        srcs (s, improved)))"

section \<open>Rounds\<close>

text \<open>The queue of routes with the earliest boarding position, from the marked stations.\<close>

definition enqueue_stop :: "route_buffer \<Rightarrow> route_stop \<Rightarrow> (int, int) gomap \<Rightarrow> (int, int) gomap" where
  "enqueue_stop buf rs queue =
     (if RouteIdx rs < 0 \<or> RouteIdx rs \<ge> int (length (Routes buf)) \<or> StopPos rs < 0 then queue
      else if (case map_of queue (RouteIdx rs) of None \<Rightarrow> True | Some pos \<Rightarrow> StopPos rs < pos)
      then gm_put (RouteIdx rs) (StopPos rs) queue
      else queue)"

definition build_queue :: "search_env \<Rightarrow> nat \<Rightarrow> string list \<Rightarrow> (int, int) gomap" where
  "build_queue E k marked =
     fold (\<lambda>stop. fold (enqueue_stop (routes E)) (gm_get (StopToRoutes (routes E)) stop []))
       (iter_marked (orders E) k marked) []"

definition copy_labels :: "nat \<Rightarrow> search_state \<Rightarrow> search_state" where
  "copy_labels k s = s\<lparr>tau := (tau s)(k := tau s (k - 1)), journal := (journal s)(k := journal s (k - 1))\<rparr>"

definition search_round :: "search_env \<Rightarrow> nat \<Rightarrow> work \<Rightarrow> work" where
  "search_round E k = (\<lambda>(s, marked).
     (let s = copy_labels k s;
          queue = build_queue E k marked;
          order = sort (iter_queue (orders E) k (map fst queue));
          (s, improved) = fold (\<lambda>ri. scanRoute E k ri (gm_get queue ri 0)) order (s, []);
          sources = sort (iter_improved (orders E) k improved)
      in relaxFootpaths E k sources (s, improved)))"

text \<open>The loop over the rounds \<open>k, k + 1, \<dots>\<close>, \<open>n\<close> of them left; \<open>cancelled k\<close> is the
  answer of \<open>ctx.Err()\<close> at the start of round \<open>k\<close>. A cancelled search is \<open>None\<close>.\<close>

primrec search_rounds :: "(nat \<Rightarrow> bool) \<Rightarrow> search_env \<Rightarrow> nat \<Rightarrow> nat \<Rightarrow> work \<Rightarrow> search_state option" where
  "search_rounds cancelled E 0 k w = Some (fst w)"
| "search_rounds cancelled E (Suc n) k w =
     (if cancelled k then None
      else
        (let w' = search_round E k w in
         if length (snd w') = 0 then Some (fst w') else search_rounds cancelled E n (k + 1) w'))"

section \<open>Backtracking\<close>

definition entry_leg :: "journal_entry \<Rightarrow> string \<Rightarrow> leg" where
  "entry_leg e cur =
     \<lparr>Kind = je_kind e,
      leg_TripID = (if je_kind e = LegTransit then TripID (je_tripKey e) else []),
      leg_Date = (if je_kind e = LegTransit then Date (je_tripKey e) else []),
      leg_RouteID = je_routeID e, BoardStation = je_from e, AlightStation = cur,
      DepartureUnix = je_departure e, ArrivalUnix = je_arrival e\<rparr>"

text \<open>The entry the loop of \<open>buildPath\<close> uses at \<open>(r, cur)\<close>: the journal's, or the one saved
  before the walks when two walks would follow each other.\<close>

definition chain_entry :: "search_state \<Rightarrow> int \<Rightarrow> string \<Rightarrow> leg_kind option \<Rightarrow> int \<Rightarrow> journal_entry \<Rightarrow> journal_entry" where
  "chain_entry s r cur prevKind prevDeparture e =
     (if prevKind = Some LegWalk \<and> je_kind e = LegWalk
      then (case preWalk s (nat r) cur of
              Some pre \<Rightarrow> if je_from pre \<noteq> [] \<and> je_arrival pre \<le> prevDeparture then pre else e
            | None \<Rightarrow> e)
      else e)"

function build_legs :: "search_env \<Rightarrow> search_state \<Rightarrow> (int \<times> string) list \<Rightarrow> leg list \<Rightarrow> string \<Rightarrow> int \<Rightarrow>
    leg_kind option \<Rightarrow> int \<Rightarrow> leg list option" where
  "build_legs E s visited legs cur r prevKind prevDeparture =
     (if cur = Origin (params E) then Some legs
      else if length legs > 2 * (rounds E + 1) + 2 \<or> r < 0 \<or> r \<ge> int (rounds E) + 1 then None
      else case journal s (nat r) cur of
        None \<Rightarrow> None
      | Some e0 \<Rightarrow>
          if je_from e0 = [] \<or> je_from e0 = cur then None
          else
            (let e = chain_entry s r cur prevKind prevDeparture e0 in
             if (r, cur) \<in> set visited then None
             else build_legs E s ((r, cur) # visited) (legs @ [entry_leg e cur])
                    (je_from e) (je_fromRound e) (Some (je_kind e)) (je_departure e)))"
  by pat_completeness auto
termination
  by (relation "measure (\<lambda>(E, s, visited, legs, cur, r, pk, pd). 2 * (rounds E + 1) + 3 - length legs)") auto

declare build_legs.simps [simp del]

definition count_legs :: "leg list \<Rightarrow> int \<times> int" where
  "count_legs legs = fold (\<lambda>l (transit, walk).
     if Kind l = LegTransit then (transit + 1, walk)
     else (transit, i64 (walk + i64 (ArrivalUnix l - DepartureUnix l)))) legs (0, 0)"

definition make_path :: "search_env \<Rightarrow> nat \<Rightarrow> leg list \<Rightarrow> path" where
  "make_path E rnd legs =
     (let dep = DepartureUnix (hd legs); arr = ArrivalUnix (last legs); (transit, walk) = count_legs legs
      in \<lparr>Legs = legs, path_DepartureUnix = dep, path_ArrivalUnix = arr,
          TotalTimeSeconds = i64 (arr - dep), WaitSeconds = i64 (dep - DepTime (params E)),
          Transfers = (if transit > 0 then transit - 1 else 0), path_WalkSeconds = walk,
          path_Rounds = int rnd\<rparr>)"

definition buildPath :: "search_env \<Rightarrow> search_state \<Rightarrow> nat \<Rightarrow> path option" where
  "buildPath E s rnd =
     (case build_legs E s [] [] (dest E) (int rnd) None 0 of
        None \<Rightarrow> None
      | Some legs \<Rightarrow>
          if length legs = 0 then None
          else
            (let p = make_path E rnd (rev legs) in
             if fst (count_legs (rev legs)) > int (rounds E) then None
             else if ValidatePath p (params E) \<noteq> None then None
             else Some p))"

section \<open>Extraction\<close>

definition paretoFilter :: "path list \<Rightarrow> path list" where
  "paretoFilter paths =
     fst (fold (\<lambda>p (out, bestTransfers).
            if Transfers p < bestTransfers then (out @ [p], Transfers p) else (out, bestTransfers))
          paths ([], max_int32))"

definition pathFingerprint :: "path \<Rightarrow> string" where
  "pathFingerprint p =
     concat (map (\<lambda>l. leg_RouteID l @ ''|'' @ leg_TripID l @ ''|'' @ BoardStation l @ ''>'' @
       AlightStation l @ '';'') (Legs p))"

definition deduplicatePaths :: "path list \<Rightarrow> path list" where
  "deduplicatePaths paths =
     snd (fold (\<lambda>p (seen, out).
            let fp = pathFingerprint p in
            if fp \<in> set seen then (seen, out) else (fp # seen, out @ [p]))
          paths ([], []))"

definition extract_step :: "search_env \<Rightarrow> search_state \<Rightarrow> nat \<Rightarrow> path list \<times> int \<Rightarrow> path list \<times> int" where
  "extract_step E s k = (\<lambda>(out, bestSoFar).
     (case tau s k (dest E) of
        None \<Rightarrow> (out, bestSoFar)
      | Some arr \<Rightarrow>
          if arr \<ge> bestSoFar then (out, bestSoFar)
          else (case buildPath E s k of
                  None \<Rightarrow> (out, bestSoFar)
                | Some p \<Rightarrow> (out @ [p], arr))))"

definition candidates :: "search_env \<Rightarrow> search_state \<Rightarrow> path list" where
  "candidates E s = fst (fold (extract_step E s) [0..<rounds E + 1] ([], infinity))"

definition extract_paths :: "search_env \<Rightarrow> search_state \<Rightarrow> int \<Rightarrow> path list" where
  "extract_paths E s topK =
     (let out = deduplicatePaths (candidates E s);
          out = sort_key (\<lambda>p. (path_ArrivalUnix p, Transfers p)) out;
          out = paretoFilter out
      in if topK > 0 \<and> int (length out) > topK then take (nat topK) out else out)"

section \<open>The search\<close>

definition search_env_of :: "search_params \<Rightarrow> route_buffer \<Rightarrow> signal_buffer \<Rightarrow> map_orders \<Rightarrow> search_env" where
  "search_env_of p buf sig ords =
     \<lparr>params = p, rounds = nat (Rounds p), xferSec = TransferBuffer p, dest = Destination p,
      routes = buf, signals = sig, allowed = computeAllowedDates (SearchDate p) (DateWindow p),
      orders = ords\<rparr>"

definition init_state :: "search_params \<Rightarrow> search_state" where
  "init_state p =
     \<lparr>tau = (\<lambda>k. if k = 0 then [Origin p \<mapsto> DepTime p] else Map.empty),
      journal = (\<lambda>k. Map.empty), best = [Origin p \<mapsto> DepTime p], preWalk = (\<lambda>k. Map.empty)\<rparr>"

definition search_labels :: "(nat \<Rightarrow> bool) \<Rightarrow> search_env \<Rightarrow> search_state option" where
  "search_labels cancelled E =
     search_rounds cancelled E (rounds E) 1
       (relaxFootpaths E 0 [Origin (params E)] (init_state (params E), [Origin (params E)]))"

text \<open>\<open>RaptorSearch\<close>: both snapshots are read once, so they are arguments; a nil route buffer is
  \<open>None\<close>, and a nil result is the empty list.\<close>

definition RaptorSearch :: "(nat \<Rightarrow> bool) \<Rightarrow> map_orders \<Rightarrow> route_buffer option \<Rightarrow> signal_buffer \<Rightarrow> search_params \<Rightarrow> int \<Rightarrow> path list" where
  "RaptorSearch cancelled ords live sig p topK =
     (case live of
        None \<Rightarrow> []
      | Some buf \<Rightarrow>
          if length (Routes buf) = 0 then []
          else if Origin p = [] \<or> Destination p = [] \<or> Origin p = Destination p then []
          else
            (let E = search_env_of p buf sig ords in
             case search_labels cancelled E of
               None \<Rightarrow> []
             | Some s \<Rightarrow> extract_paths E s topK))"

end
