(* ===== verification/Engine_Steps.thy ===== *)
theory Engine_Steps
  imports Engine
begin

text \<open>
  The search as a sequence of label events. A round of \<^verbatim>\<open>internal/raptor/engine.go\<close> copies the
  labels of the round before, records rides, takes a snapshot of the stations that can walk, and
  records walks. Each record is a step of an inductive relation, with what the code has checked
  when it writes; the scans and the footpath pass are shown to be runs of these steps. The
  interface \<open>search_invariant\<close> turns an invariant of the steps into one of the whole search.
\<close>

section \<open>Events\<close>

text \<open>A ride of trip \<open>t\<close> of a route from stop position \<open>i\<close> to the later position \<open>j\<close>.\<close>

definition ride_exists :: "search_env \<Rightarrow> route_entry \<Rightarrow> trip_stop_times \<Rightarrow> nat \<Rightarrow> nat \<Rightarrow> bool" where
  "ride_exists E route t i j \<longleftrightarrow>
     (\<exists>ri < length (Routes (routes E)). ri < length (StopTimes (routes E)) \<and>
        Routes (routes E) ! ri = route \<and> t \<in> set (StopTimes (routes E) ! ri)) \<and>
     i < j \<and> j < length (StopIDs route) \<and> i < length (Departures t) \<and> j < length (Arrivals t) \<and>
     tripUsable E t"

inductive transit_step :: "search_env \<Rightarrow> nat \<Rightarrow> work \<Rightarrow> work \<Rightarrow> bool" for E k where
  transit_stepI:
    "ride_exists E route t i j \<Longrightarrow> ready_at E k s (StopIDs route ! i) = Some rdy \<Longrightarrow>
     rdy \<le> Departures t ! i \<Longrightarrow> improves E s (Arrivals t ! j) (StopIDs route ! j) \<Longrightarrow>
     transit_step E k (s, imp)
       (set_label k (StopIDs route ! j) (Arrivals t ! j)
          (transit_entry k (StopIDs route ! i) (Key t) (RouteID route) (Departures t ! i) (Arrivals t ! j)) (s, imp))"

inductive walk_step :: "search_env \<Rightarrow> nat \<Rightarrow> (string \<times> int) list \<Rightarrow> work \<Rightarrow> work \<Rightarrow> bool" for E k srcs where
  walk_stepI:
    "(from, depart) \<in> set srcs \<Longrightarrow> fp \<in> set (gm_get (Footpaths (routes E)) from []) \<Longrightarrow>
     arr = i64 (depart + WalkSeconds fp) \<Longrightarrow> improves E s arr (NeighbourStop fp) \<Longrightarrow>
     walk_step E k srcs (s, imp) (set_label k (NeighbourStop fp) arr (walk_entry k from depart arr) (s, imp))"

text \<open>The behaviour of Go's range statement the search relies on: every key once.\<close>

definition orders_ok :: "map_orders \<Rightarrow> bool" where
  "orders_ok ords \<longleftrightarrow>
     (\<forall>k xs. mset (iter_marked ords k xs) = mset xs) \<and> (\<forall>k xs. mset (iter_queue ords k xs) = mset xs) \<and>
     (\<forall>k xs. mset (iter_improved ords k xs) = mset xs)"

section \<open>What a step leaves alone\<close>

lemma set_label_simps [simp]:
  "tau (fst (set_label k st a e w)) = (tau (fst w))(k := (tau (fst w) k)(st \<mapsto> a))"
  "journal (fst (set_label k st a e w)) = (journal (fst w))(k := (journal (fst w) k)(st \<mapsto> e))"
  "best (fst (set_label k st a e w)) = (best (fst w))(st \<mapsto> a)"
  "preWalk (fst (set_label k st a e w)) = preWalk (fst w)"
  "set (snd (set_label k st a e w)) = insert st (set (snd w))"
  by (auto simp: set_label_def split: prod.splits)

lemma transit_entry_simps [simp]:
  "je_kind (transit_entry k f key rid d a) = LegTransit"
  "je_fromRound (transit_entry k f key rid d a) = int k - 1"
  "je_from (transit_entry k f key rid d a) = f"
  "je_tripKey (transit_entry k f key rid d a) = key"
  "je_routeID (transit_entry k f key rid d a) = rid"
  "je_departure (transit_entry k f key rid d a) = d"
  "je_arrival (transit_entry k f key rid d a) = a"
  by (simp_all add: transit_entry_def)

lemma walk_entry_simps [simp]:
  "je_kind (walk_entry k f d a) = LegWalk" "je_fromRound (walk_entry k f d a) = int k"
  "je_from (walk_entry k f d a) = f" "je_routeID (walk_entry k f d a) = WalkRouteID"
  "je_departure (walk_entry k f d a) = d" "je_arrival (walk_entry k f d a) = a"
  by (simp_all add: walk_entry_def)

lemma ready_at_cong:
  "tau s (k - 1) = tau s' (k - 1) \<Longrightarrow> journal s (k - 1) = journal s' (k - 1) \<Longrightarrow> ready_at E k s = ready_at E k s'"
  by (rule ext) (simp only: ready_at_def)

lemma ready_at_set_label [simp]: "1 \<le> k \<Longrightarrow> ready_at E k (fst (set_label k st a e w)) = ready_at E k (fst w)"
  by (intro ready_at_cong) auto

lemma ready_at_alight [simp]: "1 \<le> k \<Longrightarrow> ready_at E k (fst (alight E k route t pos bs bd w)) = ready_at E k (fst w)"
  by (simp add: alight_def Let_def)

section \<open>The scans are runs of steps\<close>

lemma fold_upt_inv:
  assumes "P a x" "\<And>i x. a \<le> i \<Longrightarrow> i < n \<Longrightarrow> P i x \<Longrightarrow> P (Suc i) (f i x)"
  shows "P (max a n) (fold f [a..<n] x)"
proof (cases "a \<le> n")
  case True
  then have "P n (fold f [a..<n] x)"
    using assms by (induction n rule: dec_induct) auto
  with True show ?thesis by (simp add: max_def)
next
  case False
  with assms(1) show ?thesis by (simp add: max_def)
qed

lemma forward_scan_range: "forward_scan E trips pos mb is = -1 \<or>
    (\<exists>i \<in> set is. forward_scan E trips pos mb is = int i \<and> pos < length (Departures (trips ! i)) \<and>
       Departures (trips ! i) ! pos < mb \<and> tripUsable E (trips ! i))"
  by (induction E trips pos mb "is" rule: forward_scan.induct) (auto simp: Let_def)

lemma earliestTrip_cand:
  assumes "earliestTrip E trips pos rdy mb = cand" "0 \<le> cand"
  shows "nat cand < length trips \<and> pos < length (Departures (trips ! nat cand)) \<and>
    Departures (trips ! nat cand) ! pos < mb \<and> tripUsable E (trips ! nat cand)"
proof -
  obtain lo where "forward_scan E trips pos mb [lo..<length trips] = cand"
    using assms(1) by (auto simp: earliestTrip_def Let_def)
  with forward_scan_range [of E trips pos mb "[lo..<length trips]"] assms(2) show ?thesis by auto
qed

text \<open>Where no trip overtakes another the binary search is over a monotone predicate, so the
  candidate leaves late enough.\<close>

definition flags_ok :: "route_buffer \<Rightarrow> bool" where
  "flags_ok buf \<longleftrightarrow> (\<forall>ri < length (StopTimes buf). IsFIFO buf (int ri) \<longrightarrow> computeFIFO (StopTimes buf ! ri))"

lemma computeFIFO_departures:
  assumes "computeFIFO trips" "i \<le> j" "j < length trips"
  shows "length (Departures (trips ! i)) = length (Departures (trips ! j)) \<and>
    (\<forall>pos < length (Departures (trips ! j)). Departures (trips ! i) ! pos \<le> Departures (trips ! j) ! pos)"
proof (cases "i = j")
  case False
  then have "i < j" "\<not> length trips < 2" using assms(2,3) by auto
  with assms show ?thesis unfolding computeFIFO_iff non_overtaking_def by metis
qed simp

lemma earliestTrip_ready:
  assumes "computeFIFO trips" "earliestTrip E trips pos rdy mb = cand" "0 \<le> cand"
  shows "rdy \<le> Departures (trips ! nat cand) ! pos"
proof -
  let ?f = "\<lambda>i. if length (Departures (trips ! i)) \<le> pos then True else rdy \<le> Departures (trips ! i) ! pos"
  have mono: "?f b" if "a \<le> b" "b < length trips" "?f a" for a b
    using computeFIFO_departures [OF assms(1) that(1,2)] that(3)
    by (cases "length (Departures (trips ! b)) \<le> pos") (auto split: if_splits intro: order_trans)
  define lo where "lo = sort_search (length trips) ?f"
  have lo: "\<And>b. b < length trips \<Longrightarrow> ?f b \<longleftrightarrow> lo \<le> b"
    unfolding lo_def by (rule sort_search_correct(2)) (rule mono)
  have "forward_scan E trips pos mb [lo..<length trips] = cand"
    using assms(2) unfolding earliestTrip_def Let_def lo_def .
  with forward_scan_range [of E trips pos mb "[lo..<length trips]"] assms(3)
  have "lo \<le> nat cand" "nat cand < length trips" "pos < length (Departures (trips ! nat cand))" by auto
  with lo [of "nat cand"] show ?thesis by (simp split: if_splits)
qed

definition route_trip :: "search_env \<Rightarrow> route_entry \<Rightarrow> trip_stop_times \<Rightarrow> bool" where
  "route_trip E route t \<longleftrightarrow>
     (\<exists>ri < length (Routes (routes E)). ri < length (StopTimes (routes E)) \<and>
        Routes (routes E) ! ri = route \<and> t \<in> set (StopTimes (routes E) ! ri))"

text \<open>The ride in progress before position \<open>pos\<close>: boarded at an earlier stop, in time.\<close>

definition boarded_before :: "search_env \<Rightarrow> nat \<Rightarrow> route_entry \<Rightarrow> trip_stop_times \<Rightarrow> nat \<Rightarrow> string \<Rightarrow> int \<Rightarrow> search_state \<Rightarrow> bool" where
  "boarded_before E k route t pos bs bd s \<longleftrightarrow>
     tripUsable E t \<and>
     (\<exists>i < pos. i < length (Departures t) \<and> StopIDs route ! i = bs \<and> Departures t ! i = bd \<and>
        (\<exists>rdy. ready_at E k s bs = Some rdy \<and> rdy \<le> bd))"

lemma boarded_before_Suc: "boarded_before E k route t pos bs bd s \<Longrightarrow> boarded_before E k route t (Suc pos) bs bd s"
  unfolding boarded_before_def using less_Suc_eq by blast

lemma boarded_before_cong: "ready_at E k s = ready_at E k s' \<Longrightarrow>
    boarded_before E k route t pos bs bd s = boarded_before E k route t pos bs bd s'"
  by (simp add: boarded_before_def)

lemma boarded_now: "tripUsable E t \<Longrightarrow> pos < length (Departures t) \<Longrightarrow> ready_at E k s (StopIDs route ! pos) = Some rdy \<Longrightarrow>
    rdy \<le> Departures t ! pos \<Longrightarrow> boarded_before E k route t (Suc pos) (StopIDs route ! pos) (Departures t ! pos) s"
  by (auto simp: boarded_before_def)

lemma alight_steps:
  assumes "route_trip E route t" "boarded_before E k route t pos bs bd (fst w)"
    "pos < length (StopIDs route)" "pos < length (Arrivals t)"
  shows "(transit_step E k)\<^sup>*\<^sup>* w (alight E k route t pos bs bd w)"
proof (cases "improves E (fst w) (Arrivals t ! pos) (StopIDs route ! pos)")
  case True
  obtain s imp where w: "w = (s, imp)" by (cases w)
  from assms obtain i rdy where i: "i < pos" "i < length (Departures t)" "StopIDs route ! i = bs"
      "Departures t ! i = bd" "ready_at E k s bs = Some rdy" "rdy \<le> bd" and u: "tripUsable E t"
    by (auto simp: boarded_before_def w)
  with assms have "ride_exists E route t i pos"
    by (auto simp: ride_exists_def route_trip_def)
  from transit_stepI [OF this, of k s rdy imp] i True
  show ?thesis by (simp add: w alight_def Let_def)
qed (simp add: alight_def Let_def)

lemma scan_stop_run:
  assumes "1 \<le> k" "\<And>t. t \<in> set trips \<Longrightarrow> route_trip E route t" "computeFIFO trips" "pos < length (StopIDs route)"
    and w: "0 \<le> ti \<Longrightarrow> nat ti < length trips \<and> boarded_before E k route (trips ! nat ti) pos bs bd (fst w)"
    and step: "scan_stop E k route trips pos ((ti, bs, bd), w) = ((ti', bs', bd'), w')"
  shows "(transit_step E k)\<^sup>*\<^sup>* w w' \<and> ready_at E k (fst w') = ready_at E k (fst w) \<and>
    (0 \<le> ti' \<longrightarrow> nat ti' < length trips \<and> boarded_before E k route (trips ! nat ti') (Suc pos) bs' bd' (fst w'))"
proof -
  define u where "u = (if ti \<ge> 0 \<and> pos < length (Arrivals (trips ! nat ti))
     then alight E k route (trips ! nat ti) pos bs bd w else w)"
  have run: "(transit_step E k)\<^sup>*\<^sup>* w u"
    using assms(2,4) w alight_steps [of E route "trips ! nat ti" k pos bs bd w] by (auto simp: u_def)
  have rdy: "ready_at E k (fst u) = ready_at E k (fst w)" using assms(1) by (simp add: u_def)
  have keep: "0 \<le> ti \<longrightarrow> nat ti < length trips \<and> boarded_before E k route (trips ! nat ti) (Suc pos) bs bd (fst u)"
    using w boarded_before_Suc boarded_before_cong [OF rdy] by blast
  define curDep where "curDep = (if ti \<ge> 0 \<and> pos < length (Departures (trips ! nat ti))
    then Departures (trips ! nat ti) ! pos else infinity)"
  note st = step [unfolded scan_stop_def prod.case Let_def, folded u_def curDep_def]
  show ?thesis
  proof (cases "ready_at E k (fst u) (StopIDs route ! pos)")
    case None
    with st run rdy keep show ?thesis by simp
  next
    case (Some r)
    define cand where "cand = earliestTrip E trips pos r curDep"
    show ?thesis
    proof (cases "r > curDep \<or> cand < 0")
      case True
      then have "(if r > curDep then ((ti, bs, bd), u) else if cand \<ge> 0
          then ((cand, StopIDs route ! pos, Departures (trips ! nat cand) ! pos), u) else ((ti, bs, bd), u)) =
        ((ti, bs, bd), u)" by auto
      with Some st have "((ti', bs', bd'), w') = ((ti, bs, bd), u)" unfolding cand_def by simp
      with run rdy keep show ?thesis by simp
    next
      case False
      then have c: "0 \<le> cand" by simp
      from earliestTrip_cand [OF cand_def [symmetric] c] earliestTrip_ready [OF assms(3) cand_def [symmetric] c]
      have "boarded_before E k route (trips ! nat cand) (Suc pos) (StopIDs route ! pos)
          (Departures (trips ! nat cand) ! pos) (fst u)" "nat cand < length trips"
        using Some boarded_now by blast+
      with Some False st run rdy show ?thesis by (auto simp: cand_def)
    qed
  qed
qed

lemma scan_trip_stop_run:
  assumes "1 \<le> k" "route_trip E route t" "tripUsable E t" "pos < length (StopIDs route)"
    and w: "b \<Longrightarrow> boarded_before E k route t pos bs bd (fst w)"
    and step: "scan_trip_stop E k route t pos ((b, bs, bd), w) = ((b', bs', bd'), w')"
  shows "(transit_step E k)\<^sup>*\<^sup>* w w' \<and> ready_at E k (fst w') = ready_at E k (fst w) \<and>
    (b' \<longrightarrow> boarded_before E k route t (Suc pos) bs' bd' (fst w'))"
proof -
  define u where "u = (if b \<and> pos < length (Arrivals t) then alight E k route t pos bs bd w else w)"
  have run: "(transit_step E k)\<^sup>*\<^sup>* w u"
    using assms(2,4) w alight_steps [of E route t k pos bs bd w] by (auto simp: u_def)
  have rdy: "ready_at E k (fst u) = ready_at E k (fst w)" using assms(1) by (simp add: u_def)
  have keep: "b \<longrightarrow> boarded_before E k route t (Suc pos) bs bd (fst u)"
    using w boarded_before_Suc boarded_before_cong [OF rdy] by blast
  note st = step [unfolded scan_trip_stop_def prod.case Let_def, folded u_def]
  show ?thesis
    using st run rdy keep boarded_now [OF assms(3), of pos k "fst u" route]
    by (auto split: if_splits option.splits)
qed

text \<open>Folds of scans stay runs of steps, and never change what the round reads.\<close>

definition run_of :: "search_env \<Rightarrow> nat \<Rightarrow> work \<Rightarrow> work \<Rightarrow> bool" where
  "run_of E k w w' \<longleftrightarrow> (transit_step E k)\<^sup>*\<^sup>* w w' \<and> ready_at E k (fst w') = ready_at E k (fst w)"

lemma run_of_refl [simp]: "run_of E k w w"
  by (simp add: run_of_def)

lemma run_of_trans: "run_of E k w w' \<Longrightarrow> run_of E k w' w'' \<Longrightarrow> run_of E k w w''"
  by (auto simp: run_of_def)

lemma fold_run_of: "(\<And>x w. x \<in> set xs \<Longrightarrow> run_of E k w (f x w)) \<Longrightarrow> run_of E k w (fold f xs w)"
proof (induction xs arbitrary: w)
  case (Cons x xs)
  have "run_of E k w (f x w)" by (rule Cons.prems) simp
  moreover have "run_of E k (f x w) (fold f xs (f x w))" by (rule Cons.IH) (rule Cons.prems, simp)
  ultimately show ?case by (auto intro: run_of_trans)
qed simp

lemma scanTrip_run:
  assumes "1 \<le> k" "route_trip E route t"
  shows "run_of E k w (scanTrip E k route t boardPos w)"
proof (cases "tripUsable E t")
  case True
  define P where "P pos x \<longleftrightarrow> (case x of ((b, bs, bd), v) \<Rightarrow>
      run_of E k w v \<and> (b \<longrightarrow> boarded_before E k route t pos bs bd (fst v)))" for pos and x :: "trip_ride \<times> work"
  have "P (max boardPos (length (StopIDs route)))
      (fold (scan_trip_stop E k route t) [boardPos..<length (StopIDs route)] ((False, [], 0), w))"
  proof (rule fold_upt_inv)
    show "P boardPos ((False, [], 0), w)" by (simp add: P_def)
    fix i and x :: "trip_ride \<times> work"
    assume i: "i < length (StopIDs route)" and "P i x"
    then obtain b bs bd v where x: "x = ((b, bs, bd), v)" "run_of E k w v"
        "b \<longrightarrow> boarded_before E k route t i bs bd (fst v)" by (cases x) (auto simp: P_def)
    obtain b' bs' bd' v' where st: "scan_trip_stop E k route t i ((b, bs, bd), v) = ((b', bs', bd'), v')"
      by (metis prod.exhaust)
    from scan_trip_stop_run [OF assms True i _ st] x
    show "P (Suc i) (scan_trip_stop E k route t i x)"
      by (auto simp: P_def st run_of_def intro: rtranclp_trans)
  qed
  then show ?thesis using True by (auto simp: scanTrip_def P_def split: prod.splits)
qed (simp add: scanTrip_def)

lemma classic_scan_run:
  assumes "1 \<le> k" "\<And>t. t \<in> set trips \<Longrightarrow> route_trip E route t" "computeFIFO trips"
  shows "run_of E k w (snd (fold (scan_stop E k route trips) [boardPos..<length (StopIDs route)] ((-1, [], 0), w)))"
proof -
  define P where "P pos x \<longleftrightarrow> (case x of ((ti, bs, bd), v) \<Rightarrow> run_of E k w v \<and>
      (0 \<le> ti \<longrightarrow> nat ti < length trips \<and> boarded_before E k route (trips ! nat ti) pos bs bd (fst v)))"
    for pos and x :: "ride \<times> work"
  have "P (max boardPos (length (StopIDs route)))
      (fold (scan_stop E k route trips) [boardPos..<length (StopIDs route)] ((-1, [], 0), w))"
  proof (rule fold_upt_inv)
    show "P boardPos ((-1, [], 0), w)" by (simp add: P_def)
    fix i and x :: "ride \<times> work"
    assume i: "i < length (StopIDs route)" and "P i x"
    then obtain ti bs bd v where x: "x = ((ti, bs, bd), v)" "run_of E k w v"
        "0 \<le> ti \<longrightarrow> nat ti < length trips \<and> boarded_before E k route (trips ! nat ti) i bs bd (fst v)"
      by (cases x) (auto simp: P_def)
    obtain ti' bs' bd' v' where st: "scan_stop E k route trips i ((ti, bs, bd), v) = ((ti', bs', bd'), v')"
      by (metis prod.exhaust)
    from scan_stop_run [OF assms i _ st] x
    show "P (Suc i) (scan_stop E k route trips i x)"
      by (auto simp: P_def st run_of_def intro: rtranclp_trans)
  qed
  then show ?thesis by (auto simp: P_def split: prod.splits)
qed

lemma scanRoute_run:
  assumes "1 \<le> k" "flags_ok (routes E)"
  shows "run_of E k w (scanRoute E k ri bp w)"
proof (cases "ri < 0 \<or> ri \<ge> int (length (StopTimes (routes E))) \<or> ri \<ge> int (length (Routes (routes E)))")
  case False
  then have ri: "nat ri < length (StopTimes (routes E))" "nat ri < length (Routes (routes E))" by auto
  then have rt: "route_trip E (Routes (routes E) ! nat ri) t" if "t \<in> set (StopTimes (routes E) ! nat ri)" for t
    using that by (auto simp: route_trip_def)
  have "computeFIFO (StopTimes (routes E) ! nat ri)" if "IsFIFO (routes E) ri"
    using assms(2) ri that False by (auto simp: flags_ok_def)
  with rt show ?thesis
    using fold_run_of [of "StopTimes (routes E) ! nat ri" E k] scanTrip_run [OF assms(1)] classic_scan_run [OF assms(1)]
    by (simp add: scanRoute_def Let_def)
qed (simp add: scanRoute_def)

lemma walk_edges_steps:
  assumes "(from, depart) \<in> set srcs" "set fps \<subseteq> set (gm_get (Footpaths (routes E)) from [])"
  shows "(walk_step E k srcs)\<^sup>*\<^sup>* w (fold (walk_edge_step E k from depart) fps w)"
  using assms(2)
proof (induction fps arbitrary: w)
  case (Cons fp fps)
  obtain s imp where w: "w = (s, imp)" by (cases w)
  have "(walk_step E k srcs)\<^sup>*\<^sup>* w (walk_edge_step E k from depart fp w)"
    using walk_stepI [OF assms(1), of fp E _ s k imp] Cons.prems by (auto simp: walk_edge_step_def Let_def w)
  moreover have "(walk_step E k srcs)\<^sup>*\<^sup>* (walk_edge_step E k from depart fp w)
      (fold (walk_edge_step E k from depart) (fp # fps) w)"
    using Cons.IH [of "walk_edge_step E k from depart fp w"] Cons.prems by simp
  ultimately show ?case by (rule rtranclp_trans)
qed simp

lemma walks_steps:
  "set xs \<subseteq> set srcs \<Longrightarrow>
   (walk_step E k srcs)\<^sup>*\<^sup>* w
     (fold (\<lambda>(from, depart). fold (walk_edge_step E k from depart) (gm_get (Footpaths (routes E)) from [])) xs w)"
proof (induction xs arbitrary: w)
  case (Cons x xs)
  obtain src depart where x: "x = (src, depart)" by (cases x)
  let ?w = "fold (walk_edge_step E k src depart) (gm_get (Footpaths (routes E)) src []) w"
  have "(walk_step E k srcs)\<^sup>*\<^sup>* w ?w" using Cons.prems x by (intro walk_edges_steps) auto
  moreover have "(walk_step E k srcs)\<^sup>*\<^sup>* ?w (fold (\<lambda>(from, depart).
      fold (walk_edge_step E k from depart) (gm_get (Footpaths (routes E)) from [])) (x # xs) w)"
    using Cons x by simp
  ultimately show ?case by (rule rtranclp_trans)
qed simp

section \<open>The snapshot of the walk sources\<close>

definition snapshot_of :: "nat \<Rightarrow> search_state \<Rightarrow> string list \<Rightarrow> search_state \<Rightarrow> (string \<times> int) list \<Rightarrow> bool" where
  "snapshot_of k s sources s' srcs \<longleftrightarrow>
     tau s' = tau s \<and> journal s' = journal s \<and> best s' = best s \<and>
     (\<forall>j st. j \<noteq> k \<longrightarrow> preWalk s' j st = preWalk s j st) \<and>
     (\<forall>st e. preWalk s' k st = Some e \<longrightarrow>
        preWalk s k st = Some e \<or> st \<in> set sources \<and> journal s k st = Some e) \<and>
     (\<forall>st d. (st, d) \<in> set srcs \<longrightarrow>
        st \<in> set sources \<and> tau s k st = Some d \<and>
        (\<forall>e. journal s k st = Some e \<longrightarrow> preWalk s' k st = Some e))"

lemma snapshot_fold:
  "fold (snapshot_source E k) sources (s, srcs) = (s', srcs') \<Longrightarrow> snapshot_of k s0 done s srcs \<Longrightarrow>
     snapshot_of k s0 (done @ sources) s' srcs'"
proof (induction sources arbitrary: s srcs "done")
  case (Cons x xs)
  obtain s1 srcs1 where one: "snapshot_source E k x (s, srcs) = (s1, srcs1)" by fastforce
  have "snapshot_of k s0 (done @ [x]) s1 srcs1"
    using one Cons.prems(2)
    by (auto simp: snapshot_source_def snapshot_of_def split: if_splits option.splits) blast+
  with Cons.IH [of s1 srcs1 "done @ [x]"] Cons.prems(1) one show ?case by simp
qed simp

lemma relaxFootpaths_run:
  assumes "relaxFootpaths E k sources (s, imp) = w'"
  obtains s1 srcs where "snapshot_of k s sources s1 srcs" "(walk_step E k srcs)\<^sup>*\<^sup>* (s1, imp) w'"
proof -
  obtain s1 srcs where f: "fold (snapshot_source E k) sources (s, []) = (s1, srcs)" by fastforce
  have "snapshot_of k s [] s []" by (simp add: snapshot_of_def)
  from snapshot_fold [OF f this] have "snapshot_of k s sources s1 srcs" by simp
  moreover have "(walk_step E k srcs)\<^sup>*\<^sup>* (s1, imp) w'"
    using assms f walks_steps [of srcs srcs E k "(s1, imp)"] by (simp add: relaxFootpaths_def)
  ultimately show ?thesis by (rule that)
qed

section \<open>Invariants of the search\<close>

text \<open>
  \<open>scanning k\<close> holds while the rides of round \<open>k\<close> are recorded, \<open>walking k srcs\<close> while its
  walks are, \<open>settled k\<close> when the round is over. A client states how each survives the steps
  and learns that the state the search extracts its answer from is settled.
\<close>

locale search_invariant =
  fixes E :: search_env
    and scanning :: "nat \<Rightarrow> work \<Rightarrow> bool"
    and walking :: "nat \<Rightarrow> (string \<times> int) list \<Rightarrow> work \<Rightarrow> bool"
    and settled :: "nat \<Rightarrow> search_state \<Rightarrow> bool"
  assumes start: "snapshot_of 0 (init_state (params E)) [Origin (params E)] s srcs \<Longrightarrow>
      walking 0 srcs (s, [Origin (params E)])"
    and copy: "1 \<le> k \<Longrightarrow> settled (k - 1) s \<Longrightarrow> scanning k (copy_labels k s, [])"
    and transit: "1 \<le> k \<Longrightarrow> scanning k w \<Longrightarrow> transit_step E k w w' \<Longrightarrow> scanning k w'"
    and snapshot: "1 \<le> k \<Longrightarrow> scanning k (s, imp) \<Longrightarrow> set sources = set imp \<Longrightarrow>
      snapshot_of k s sources s' srcs \<Longrightarrow> walking k srcs (s', imp)"
    and walk: "walking k srcs w \<Longrightarrow> walk_step E k srcs w w' \<Longrightarrow> walking k srcs w'"
    and finish: "walking k srcs w \<Longrightarrow> settled k (fst w)"
begin

lemma transit_run: "(transit_step E k)\<^sup>*\<^sup>* w w' \<Longrightarrow> 1 \<le> k \<Longrightarrow> scanning k w \<Longrightarrow> scanning k w'"
  by (induction rule: rtranclp_induct) (auto intro: transit)

lemma walk_run: "(walk_step E k srcs)\<^sup>*\<^sup>* w w' \<Longrightarrow> walking k srcs w \<Longrightarrow> walking k srcs w'"
  by (induction rule: rtranclp_induct) (auto intro: walk)

lemma round_walking:
  assumes "1 \<le> k" "settled (k - 1) s" "flags_ok (routes E)" "orders_ok (orders E)"
  shows "\<exists>srcs. walking k srcs (search_round E k (s, marked))"
proof -
  define queue where "queue = build_queue E k marked"
  define order where "order = sort (iter_queue (orders E) k (map fst queue))"
  obtain s1 imp where sc: "fold (\<lambda>ri. scanRoute E k ri (gm_get queue ri 0)) order (copy_labels k s, []) = (s1, imp)"
    by fastforce
  have "run_of E k (copy_labels k s, []) (s1, imp)"
    using fold_run_of [of order E k "\<lambda>ri. scanRoute E k ri (gm_get queue ri 0)"] scanRoute_run [OF assms(1,3)] sc
    by metis
  then have scanned: "scanning k (s1, imp)"
    using transit_run assms(1) copy [OF assms(1,2)] by (auto simp: run_of_def)
  define sources where "sources = sort (iter_improved (orders E) k imp)"
  have "mset (iter_improved (orders E) k imp) = mset imp" using assms(4) by (simp add: orders_ok_def)
  then have set: "set sources = set imp" unfolding sources_def by (metis set_mset_mset set_sort)
  have res: "search_round E k (s, marked) = relaxFootpaths E k sources (s1, imp)"
    using sc by (simp add: search_round_def Let_def queue_def order_def sources_def)
  from relaxFootpaths_run [OF refl] obtain s2 srcs where "snapshot_of k s1 sources s2 srcs"
    "(walk_step E k srcs)\<^sup>*\<^sup>* (s2, imp) (relaxFootpaths E k sources (s1, imp))" .
  then show ?thesis
    unfolding res using walk_run snapshot [OF assms(1) scanned set] by blast
qed

lemma round_settled:
  assumes "1 \<le> k" "settled (k - 1) s" "flags_ok (routes E)" "orders_ok (orders E)"
  shows "settled k (fst (search_round E k (s, marked)))"
  using round_walking [OF assms] finish by blast

lemma rounds_settled:
  "search_rounds cancelled E n k w = Some s \<Longrightarrow> 1 \<le> k \<Longrightarrow> settled (k - 1) (fst w) \<Longrightarrow>
   flags_ok (routes E) \<Longrightarrow> orders_ok (orders E) \<Longrightarrow> \<exists>m. settled m s \<and> k - 1 \<le> m \<and> m < k + n"
proof (induction n arbitrary: k w)
  case (Suc n)
  obtain v marked where w: "w = (v, marked)" by (cases w)
  let ?w = "search_round E k w"
  from Suc.prems have st: "settled k (fst ?w)" by (simp add: w round_settled)
  show ?case
  proof (cases "snd ?w = []")
    case True
    with Suc.prems have "s = fst ?w" by (auto simp: Let_def split: if_splits)
    with st show ?thesis by (intro exI [of _ k]) simp
  next
    case False
    with Suc.prems have "search_rounds cancelled E n (k + 1) ?w = Some s" by (auto simp: Let_def split: if_splits)
    from Suc.IH [OF this] st Suc.prems(4,5) show ?thesis by fastforce
  qed
qed fastforce

lemma start_walking:
  "\<exists>srcs. walking 0 srcs (relaxFootpaths E 0 [Origin (params E)] (init_state (params E), [Origin (params E)]))"
proof -
  from relaxFootpaths_run [OF refl] obtain s1 srcs
    where "snapshot_of 0 (init_state (params E)) [Origin (params E)] s1 srcs"
    "(walk_step E 0 srcs)\<^sup>*\<^sup>* (s1, [Origin (params E)])
       (relaxFootpaths E 0 [Origin (params E)] (init_state (params E), [Origin (params E)]))" .
  then show ?thesis using start walk_run by blast
qed

theorem search_settled:
  assumes "search_labels cancelled E = Some s" "flags_ok (routes E)" "orders_ok (orders E)"
  shows "\<exists>m \<le> rounds E. settled m s"
proof -
  define w0 where "w0 = relaxFootpaths E 0 [Origin (params E)] (init_state (params E), [Origin (params E)])"
  obtain srcs where "walking 0 srcs w0" using start_walking unfolding w0_def by blast
  then have "settled 0 (fst w0)" by (rule finish)
  with rounds_settled [of cancelled "rounds E" 1 w0 s] assms show ?thesis
    by (auto simp: search_labels_def w0_def less_Suc_eq_le)
qed

end

end
