(* ===== verification/Engine_Sound.thy ===== *)
theory Engine_Sound
  imports Engine_Steps
begin

text \<open>
  What a journey of \<^verbatim>\<open>internal/raptor/engine.go\<close> is made of. Every journal entry records a ride
  that some published trip makes or a walk that some footpath allows, and departs from a label of
  the round it names; backtracking therefore stitches real legs together, uses at most one vehicle
  per round and respects the transfer buffer. The invariant is an instance of \<open>search_invariant\<close>.
\<close>

section \<open>The label invariant\<close>

definition entry_real :: "search_env \<Rightarrow> string \<Rightarrow> journal_entry \<Rightarrow> bool" where
  "entry_real E st e \<longleftrightarrow>
     (case je_kind e of
        LegTransit \<Rightarrow> \<exists>route t i j. ride_exists E route t i j \<and>
          StopIDs route ! i = je_from e \<and> StopIDs route ! j = st \<and>
          Departures t ! i = je_departure e \<and> Arrivals t ! j = je_arrival e \<and>
          Key t = je_tripKey e \<and> RouteID route = je_routeID e
      | LegWalk \<Rightarrow> \<exists>fp \<in> set (gm_get (Footpaths (routes E)) (je_from e) []).
          NeighbourStop fp = st \<and> je_arrival e = i64 (je_departure e + WalkSeconds fp) \<and>
          je_routeID e = WalkRouteID)"

text \<open>A walk leaves from the origin, or from the ride saved for its source in the same round.\<close>

definition walk_source :: "search_env \<Rightarrow> search_state \<Rightarrow> nat \<Rightarrow> string \<Rightarrow> int \<Rightarrow> bool" where
  "walk_source E s f st d \<longleftrightarrow>
     st = Origin (params E) \<and> d = DepTime (params E) \<or>
     (\<exists>pre e0. preWalk s f st = Some pre \<and> je_kind pre = LegTransit \<and> je_arrival pre = d \<and>
        journal s f st = Some e0 \<and> (je_kind e0 = LegTransit \<longrightarrow> e0 = pre))"

definition entry_linked :: "search_env \<Rightarrow> search_state \<Rightarrow> nat \<Rightarrow> journal_entry \<Rightarrow> bool" where
  "entry_linked E s k e \<longleftrightarrow> 0 \<le> je_fromRound e \<and>
     (case je_kind e of
        LegTransit \<Rightarrow> je_fromRound e < int k \<and>
          (\<exists>rdy. ready_at E (nat (je_fromRound e) + 1) s (je_from e) = Some rdy \<and> rdy \<le> je_departure e)
      | LegWalk \<Rightarrow> je_fromRound e \<le> int k \<and> walk_source E s (nat (je_fromRound e)) (je_from e) (je_departure e))"

definition label_ok :: "search_env \<Rightarrow> search_state \<Rightarrow> nat \<Rightarrow> string \<Rightarrow> bool" where
  "label_ok E s j st \<longleftrightarrow>
     (\<forall>e. journal s j st = Some e \<longrightarrow>
        tau s j st = Some (je_arrival e) \<and> entry_real E st e \<and> entry_linked E s j e) \<and>
     (journal s j st = None \<longrightarrow> tau s j st \<noteq> None \<longrightarrow>
        st = Origin (params E) \<and> tau s j st = Some (DepTime (params E))) \<and>
     (\<forall>pre. preWalk s j st = Some pre \<longrightarrow>
        je_kind pre = LegTransit \<and> entry_real E st pre \<and> entry_linked E s j pre)"

definition labels_ok :: "search_env \<Rightarrow> nat \<Rightarrow> search_state \<Rightarrow> bool" where
  "labels_ok E k s \<longleftrightarrow> (\<forall>j \<le> k. \<forall>st. label_ok E s j st) \<and>
     (\<forall>j > k. tau s j = Map.empty \<and> preWalk s j = Map.empty)"

definition labels_scanning :: "search_env \<Rightarrow> nat \<Rightarrow> work \<Rightarrow> bool" where
  "labels_scanning E k w \<longleftrightarrow> labels_ok E k (fst w) \<and>
     (\<forall>st e. journal (fst w) k st = Some e \<longrightarrow> je_fromRound e < int k) \<and>
     preWalk (fst w) k = Map.empty \<and>
     (\<forall>st \<in> set (snd w). \<exists>e. journal (fst w) k st = Some e \<and> je_kind e = LegTransit)"

definition labels_walking :: "search_env \<Rightarrow> nat \<Rightarrow> (string \<times> int) list \<Rightarrow> work \<Rightarrow> bool" where
  "labels_walking E k srcs w \<longleftrightarrow> labels_ok E k (fst w) \<and>
     (\<forall>(st, d) \<in> set srcs. walk_source E (fst w) k st d)"

text \<open>What a link reads: rounds before its own, or the walk source of its own.\<close>

definition same_before :: "nat \<Rightarrow> search_state \<Rightarrow> search_state \<Rightarrow> bool" where
  "same_before n s s' \<longleftrightarrow>
     (\<forall>f < n. tau s f = tau s' f \<and> journal s f = journal s' f \<and> preWalk s f = preWalk s' f)"

lemma entry_linked_frame:
  assumes "entry_linked E s j e" "j \<le> k" "same_before n s s'" "je_fromRound e < int n"
  shows "entry_linked E s' k e"
proof -
  let ?f = "nat (je_fromRound e)"
  have f: "?f < n" using assms(1,4) by (auto simp: entry_linked_def)
  then have "ready_at E (?f + 1) s = ready_at E (?f + 1) s'"
    using assms(3) by (intro ready_at_cong) (simp_all add: same_before_def)
  moreover have "walk_source E s ?f = walk_source E s' ?f"
    using assms(3) f by (simp add: same_before_def walk_source_def fun_eq_iff)
  ultimately show ?thesis
    using assms(1,2) by (auto simp: entry_linked_def split: leg_kind.splits)
qed

lemma entry_linked_round: "entry_linked E s j e \<Longrightarrow> je_fromRound e \<le> int j"
  by (auto simp: entry_linked_def split: leg_kind.splits)

lemma entry_linked_transit_round: "entry_linked E s j e \<Longrightarrow> je_kind e = LegTransit \<Longrightarrow> je_fromRound e < int j"
  by (auto simp: entry_linked_def)

lemma walk_source_set_label:
  "walk_source E (fst w) f st d \<Longrightarrow> je_kind e = LegWalk \<Longrightarrow> walk_source E (fst (set_label k st' a e w)) f st d"
  by (auto simp: walk_source_def)

lemma entry_linked_walk_label:
  assumes "entry_linked E (fst w) j e" "j \<le> k" "je_kind e' = LegWalk"
  shows "entry_linked E (fst (set_label k st a e' w)) j e"
proof (cases "je_kind e")
  case LegTransit
  have "same_before k (fst w) (fst (set_label k st a e' w))" by (simp add: same_before_def)
  from entry_linked_frame [OF assms(1) order_refl this] entry_linked_transit_round [OF assms(1) LegTransit] assms(2)
  show ?thesis by simp
next
  case LegWalk
  with assms walk_source_set_label show ?thesis by (auto simp: entry_linked_def)
qed

lemma label_ok_frame:
  assumes "label_ok E s j st" "tau s' j st = tau s j st" "journal s' j st = journal s j st" "preWalk s' j st = preWalk s j st"
    and "\<And>e. entry_linked E s j e \<Longrightarrow> journal s j st = Some e \<or> preWalk s j st = Some e \<Longrightarrow> entry_linked E s' j e"
  shows "label_ok E s' j st"
  using assms(1) assms(5) unfolding label_ok_def assms(2,3,4) by blast

section \<open>Its preservation\<close>

lemma labels_start:
  assumes "snapshot_of 0 (init_state (params E)) [Origin (params E)] s srcs"
  shows "labels_walking E 0 srcs (s, [Origin (params E)])"
proof -
  have none: "preWalk s j st = None" "journal s j st = None" for j st
    using assms by (cases "j = 0"; fastforce simp: snapshot_of_def init_state_def)+
  have tau: "tau s = tau (init_state (params E))" using assms by (simp add: snapshot_of_def)
  then have "labels_ok E 0 s"
    using none by (auto simp: labels_ok_def label_ok_def init_state_def)
  moreover have "walk_source E s 0 st d" if "(st, d) \<in> set srcs" for st d
  proof -
    from assms that have "st \<in> set [Origin (params E)]" "tau (init_state (params E)) 0 st = Some d"
      unfolding snapshot_of_def by blast+
    then show ?thesis by (simp add: walk_source_def init_state_def)
  qed
  ultimately show ?thesis by (auto simp: labels_walking_def)
qed

lemma labels_copy:
  assumes "1 \<le> k" "labels_ok E (k - 1) s"
  shows "labels_scanning E k (copy_labels k s, [])"
proof -
  let ?s = "copy_labels k s"
  have fr: "same_before k s ?s" by (simp add: same_before_def copy_labels_def)
  have ok: "label_ok E s j st" if "j < k" for j st using assms that by (auto simp: labels_ok_def)
  have pw: "preWalk s k = Map.empty" using assms by (simp add: labels_ok_def)
  have "label_ok E ?s j st" if "j < k" for j st
    using ok [OF that] that entry_linked_frame [OF _ order_refl fr] entry_linked_round
    by (intro label_ok_frame [OF ok [OF that]]) (fastforce simp: copy_labels_def)+
  moreover have "entry_linked E ?s k e" if "journal s (k - 1) st = Some e" for st e
    using ok [of "k - 1" st] that assms(1) entry_linked_frame [OF _ _ fr, of E "k - 1" e k] entry_linked_round
    by (fastforce simp: label_ok_def)
  then have "label_ok E ?s k st" for st
    using ok [of "k - 1" st] assms(1) pw by (auto simp: label_ok_def copy_labels_def)
  ultimately have "labels_ok E k ?s"
    using assms by (auto simp: labels_ok_def copy_labels_def le_less)
  moreover have "je_fromRound e < int k" if "journal s (k - 1) st = Some e" for st e
    using ok [of "k - 1" st] that assms(1) entry_linked_round [of E s "k - 1" e] by (fastforce simp: label_ok_def)
  ultimately show ?thesis using pw by (auto simp: labels_scanning_def copy_labels_def)
qed

lemma labels_transit:
  assumes "1 \<le> k" "labels_scanning E k w" "transit_step E k w w'"
  shows "labels_scanning E k w'"
  using assms(3)
proof cases
  case (transit_stepI route t i j s rdy imp)
  let ?st = "StopIDs route ! j"
  let ?e = "transit_entry k (StopIDs route ! i) (Key t) (RouteID route) (Departures t ! i) (Arrivals t ! j)"
  have w': "w' = set_label k ?st (Arrivals t ! j) ?e w" using transit_stepI by simp
  have fr: "same_before k (fst w) (fst w')" by (simp add: same_before_def w')
  have ok: "label_ok E (fst w) j st" if "j \<le> k" for j st
    using assms(2) that by (simp add: labels_scanning_def labels_ok_def)
  have low: "je_fromRound e < int k" if "entry_linked E (fst w) j e" "journal (fst w) j st = Some e \<or> preWalk (fst w) j st = Some e" "j \<le> k"
    for e j st
    using that assms(2) entry_linked_round [OF that(1)] by (cases "j = k") (auto simp: labels_scanning_def)
  have real: "entry_real E ?st ?e"
    using transit_stepI(3) by (auto simp: entry_real_def)
  have link: "entry_linked E (fst w') k ?e"
    using transit_stepI assms(1) by (simp add: entry_linked_def nat_diff_distrib)
  have "label_ok E (fst w') j st" if "j \<le> k" for j st
  proof (cases "j = k \<and> st = ?st")
    case True
    with real link ok [of k st] assms(2) show ?thesis
      by (simp add: label_ok_def w' labels_scanning_def)
  next
    case False
    with ok [OF that, of st] low that entry_linked_frame [OF _ order_refl fr, of E j] show ?thesis
      by (intro label_ok_frame [OF ok [OF that, of st]]) (auto simp: w')
  qed
  moreover have "\<forall>st e. journal (fst w') k st = Some e \<longrightarrow> je_fromRound e < int k"
    using assms(2) by (auto simp: w' labels_scanning_def)
  ultimately show ?thesis
    using assms(2) by (auto simp: labels_scanning_def labels_ok_def w')
qed

lemma labels_snapshot:
  assumes "1 \<le> k" "labels_scanning E k (s, imp)" "set sources = set imp" "snapshot_of k s sources s' srcs"
  shows "labels_walking E k srcs (s', imp)"
proof -
  note sn = assms(4) [unfolded snapshot_of_def]
  have fr: "same_before k s s'" using sn by (auto simp: same_before_def fun_eq_iff)
  have ok: "label_ok E s j st" if "j \<le> k" for j st
    using assms(2) that by (simp add: labels_scanning_def labels_ok_def)
  have low: "je_fromRound e < int k" if "entry_linked E s j e" "journal s j st = Some e \<or> preWalk s j st = Some e" "j \<le> k"
    for e j st
    using that assms(2) entry_linked_round [OF that(1)] by (cases "j = k") (auto simp: labels_scanning_def)
  have pre: "journal s k st = Some e \<and> je_kind e = LegTransit" if "preWalk s' k st = Some e" for st e
  proof -
    have "preWalk s k st = None" using assms(2) by (simp add: labels_scanning_def)
    with sn that have "st \<in> set imp" "journal s k st = Some e" using assms(3) by force+
    with assms(2) show ?thesis by (fastforce simp: labels_scanning_def)
  qed
  have link: "entry_linked E s' j e" if "entry_linked E s j e" "journal s j st = Some e \<or> preWalk s j st = Some e" "j \<le> k"
    for e j st
    using entry_linked_frame [OF that(1) order_refl fr low [OF that]] .
  have "label_ok E s' j st" if "j \<le> k" for j st
  proof (cases "j = k")
    case True
    have "entry_linked E s' k e" if "journal s k st = Some e" for e
      using link [of k e st] ok [of k st] that by (simp add: label_ok_def)
    with ok [of k st] sn pre True show ?thesis by (simp add: label_ok_def)
  next
    case False
    with ok [OF that, of st] sn link [OF _ _ that, of _ st] show ?thesis by (simp add: label_ok_def)
  qed
  moreover have "\<forall>j > k. tau s' j = Map.empty \<and> preWalk s' j = Map.empty"
    using assms(2) sn by (auto simp: labels_scanning_def labels_ok_def fun_eq_iff)
  moreover have "walk_source E s' k st d" if "(st, d) \<in> set srcs" for st d
  proof -
    from that sn have m: "st \<in> set sources" "tau s k st = Some d" "\<And>e. journal s k st = Some e \<Longrightarrow> preWalk s' k st = Some e"
      by blast+
    with assms(2,3) obtain e where e: "journal s k st = Some e" "je_kind e = LegTransit"
      by (auto simp: labels_scanning_def)
    with ok [of k st] m(2) have "je_arrival e = d" by (simp add: label_ok_def)
    with e m(3) sn show ?thesis by (auto simp: walk_source_def)
  qed
  ultimately show ?thesis by (auto simp: labels_walking_def labels_ok_def)
qed

lemma labels_walk:
  assumes "labels_walking E k srcs w" "walk_step E k srcs w w'"
  shows "labels_walking E k srcs w'"
  using assms(2)
proof cases
  case (walk_stepI src depart fp arr s imp)
  let ?e = "walk_entry k src depart arr"
  have w': "w' = set_label k (NeighbourStop fp) arr ?e w" using walk_stepI by simp
  have ok: "label_ok E (fst w) j st" if "j \<le> k" for j st
    using assms(1) that by (simp add: labels_walking_def labels_ok_def)
  have srcs: "\<forall>(st, d) \<in> set srcs. walk_source E (fst w') k st d"
    using assms(1) walk_source_set_label [of E w k] unfolding w' labels_walking_def by fastforce
  have real: "entry_real E (NeighbourStop fp) ?e"
    using walk_stepI by (auto simp: entry_real_def)
  have link: "entry_linked E (fst w') k ?e"
    using srcs walk_stepI by (auto simp: entry_linked_def)
  have "label_ok E (fst w') j st" if "j \<le> k" for j st
  proof (cases "j = k \<and> st = NeighbourStop fp")
    case True
    with real link ok [of k st] entry_linked_walk_label [of E w k _ k ?e] show ?thesis
      by (simp add: label_ok_def w')
  next
    case False
    with ok [OF that, of st] entry_linked_walk_label [of E w j _ k ?e] that show ?thesis
      by (intro label_ok_frame [OF ok [OF that, of st]]) (auto simp: w')
  qed
  then show ?thesis
    using assms(1) srcs by (auto simp: labels_walking_def labels_ok_def w')
qed

interpretation labels: search_invariant E "labels_scanning E" "labels_walking E" "labels_ok E" for E
proof (unfold_locales, goal_cases)
  case (1 s srcs)
  then show ?case by (rule labels_start)
next
  case (2 k s)
  then show ?case by (rule labels_copy)
next
  case (3 k w w')
  then show ?case by (rule labels_transit)
next
  case (4 k s imp sources s' srcs)
  then show ?case by (rule labels_snapshot)
next
  case (5 k srcs w w')
  then show ?case by (rule labels_walk)
next
  case (6 k srcs w)
  then show ?case by (simp add: labels_walking_def)
qed

section \<open>Backtracking\<close>

definition leg_real :: "search_env \<Rightarrow> leg \<Rightarrow> bool" where
  "leg_real E l \<longleftrightarrow>
     (case Kind l of
        LegTransit \<Rightarrow> \<exists>route t i j. ride_exists E route t i j \<and>
          StopIDs route ! i = BoardStation l \<and> StopIDs route ! j = AlightStation l \<and>
          Departures t ! i = DepartureUnix l \<and> Arrivals t ! j = ArrivalUnix l \<and>
          Key t = TripKey (leg_TripID l) (leg_Date l) \<and> RouteID route = leg_RouteID l
      | LegWalk \<Rightarrow> \<exists>fp \<in> set (gm_get (Footpaths (routes E)) (BoardStation l) []).
          NeighbourStop fp = AlightStation l \<and> ArrivalUnix l = i64 (DepartureUnix l + WalkSeconds fp) \<and>
          leg_RouteID l = WalkRouteID)"

definition transfer_ok :: "int \<Rightarrow> leg \<Rightarrow> leg \<Rightarrow> bool" where
  "transfer_ok xfer l l' \<longleftrightarrow>
     (Kind l = LegTransit \<longrightarrow> Kind l' = LegTransit \<longrightarrow> i64 (ArrivalUnix l + xfer) \<le> DepartureUnix l')"

definition transit_count :: "leg list \<Rightarrow> nat" where
  "transit_count ls = length (filter (\<lambda>l. Kind l = LegTransit) ls)"

lemma entry_leg_simps [simp]:
  "Kind (entry_leg e cur) = je_kind e" "BoardStation (entry_leg e cur) = je_from e"
  "AlightStation (entry_leg e cur) = cur" "DepartureUnix (entry_leg e cur) = je_departure e"
  "ArrivalUnix (entry_leg e cur) = je_arrival e"
  by (simp_all add: entry_leg_def)

lemma entry_real_leg: "entry_real E cur e \<Longrightarrow> leg_real E (entry_leg e cur)"
  by (cases "je_kind e") (auto simp: entry_real_def leg_real_def entry_leg_def)

text \<open>What the loop appends, seen from the leg it has just appended.\<close>

definition chain_ok :: "search_env \<Rightarrow> int \<Rightarrow> leg_kind option \<Rightarrow> int \<Rightarrow> leg list \<Rightarrow> bool" where
  "chain_ok E r pk pd new \<longleftrightarrow>
     list_all (leg_real E) new \<and> successively (\<lambda>l' l. transfer_ok (xferSec E) l l') new \<and>
     (new \<noteq> [] \<longrightarrow> pk = Some LegTransit \<longrightarrow> Kind (hd new) = LegTransit \<longrightarrow>
        i64 (ArrivalUnix (hd new) + xferSec E) \<le> pd) \<and>
     int (transit_count new) \<le> max 0 r"

definition boarding_ok :: "search_env \<Rightarrow> search_state \<Rightarrow> string \<Rightarrow> int \<Rightarrow> leg_kind option \<Rightarrow> int \<Rightarrow> bool" where
  "boarding_ok E s cur r pk pd \<longleftrightarrow>
     (pk = Some LegTransit \<longrightarrow> (\<exists>rdy. ready_at E (nat r + 1) s cur = Some rdy \<and> rdy \<le> pd))"

lemma chain_entry_cases:
  "chain_entry s r cur pk pd e = e \<or>
   pk = Some LegWalk \<and> preWalk s (nat r) cur = Some (chain_entry s r cur pk pd e)"
  by (auto simp: chain_entry_def split: option.splits)

lemma chain_entry_ok:
  assumes "label_ok E s (nat r) cur" "journal s (nat r) cur = Some e0"
  shows "entry_real E cur (chain_entry s r cur pk pd e0) \<and> entry_linked E s (nat r) (chain_entry s r cur pk pd e0)"
  using assms chain_entry_cases [of s r cur pk pd e0] by (auto simp: label_ok_def)

lemma chain_ok_Cons:
  assumes "chain_ok E (je_fromRound e) (Some (je_kind e)) (je_departure e) new"
    "entry_real E cur e" "entry_linked E s (nat r) e" "0 \<le> r"
    "pk = Some LegTransit \<Longrightarrow> je_kind e = LegTransit \<Longrightarrow> i64 (je_arrival e + xferSec E) \<le> pd"
  shows "chain_ok E r pk pd (entry_leg e cur # new)"
proof -
  have r: "0 \<le> je_fromRound e" "je_fromRound e \<le> r" "je_kind e = LegTransit \<Longrightarrow> je_fromRound e < r"
    using assms(3,4) entry_linked_round [OF assms(3)] entry_linked_transit_round [OF assms(3)]
    by (auto simp: entry_linked_def)
  have "int (transit_count (entry_leg e cur # new)) \<le> r"
    using assms(1) r by (cases "je_kind e") (auto simp: chain_ok_def transit_count_def)
  moreover have "successively (\<lambda>l' l. transfer_ok (xferSec E) l l') (entry_leg e cur # new)"
    using assms(1) by (cases new) (auto simp: chain_ok_def transfer_ok_def)
  ultimately show ?thesis
    using assms entry_real_leg by (auto simp: chain_ok_def)
qed

lemma build_legs_sound:
  "build_legs E s V legs cur r pk pd = Some res \<Longrightarrow> labels_ok E m s \<Longrightarrow> r \<le> int m \<Longrightarrow>
     boarding_ok E s cur r pk pd \<Longrightarrow> \<exists>new. res = legs @ new \<and> chain_ok E r pk pd new"
proof (induction E s V legs cur r pk pd rule: build_legs.induct)
  case (1 E s V legs cur r pk pd)
  show ?case
  proof (cases "cur = Origin (params E)")
    case True
    with "1.prems"(1) have "res = legs" by (simp add: build_legs.simps [of E s V legs "Origin (params E)"])
    then show ?thesis by (simp add: chain_ok_def transit_count_def)
  next
    case False
    with "1.prems"(1) obtain e0 where bounds: "\<not> (length legs > 2 * (rounds E + 1) + 2 \<or> r < 0 \<or> r \<ge> int (rounds E) + 1)"
      and e0: "journal s (nat r) cur = Some e0" "\<not> (je_from e0 = [] \<or> je_from e0 = cur)" "(r, cur) \<notin> set V"
      by (auto simp: build_legs.simps [of E s V legs cur] Let_def split: if_splits option.splits)
    define e where "e = chain_entry s r cur pk pd e0"
    have rec: "build_legs E s ((r, cur) # V) (legs @ [entry_leg e cur]) (je_from e) (je_fromRound e)
        (Some (je_kind e)) (je_departure e) = Some res"
      using "1.prems"(1) False bounds e0 by (simp add: build_legs.simps [of E s V legs cur] Let_def e_def)
    have lab: "label_ok E s (nat r) cur"
      using "1.prems"(2,3) bounds by (auto simp: labels_ok_def)
    note e = chain_entry_ok [OF lab e0(1), of pk pd, folded e_def]
    have b: "boarding_ok E s (je_from e) (je_fromRound e) (Some (je_kind e)) (je_departure e)"
      using e by (auto simp: boarding_ok_def entry_linked_def)
    have "je_fromRound e \<le> int m" using entry_linked_round [OF e [THEN conjunct2]] "1.prems"(3) bounds by auto
    from "1.IH" [OF False bounds e0(1,2) e_def e0(3) rec "1.prems"(2) this b]
    obtain new where new: "res = (legs @ [entry_leg e cur]) @ new"
      "chain_ok E (je_fromRound e) (Some (je_kind e)) (je_departure e) new" by blast
    have "i64 (je_arrival e + xferSec E) \<le> pd" if "pk = Some LegTransit" "je_kind e = LegTransit"
    proof -
      from that have "e = e0" using chain_entry_cases [of s r cur pk pd e0] by (auto simp: e_def)
      with lab e0(1) have "tau s (nat r) cur = Some (je_arrival e)" by (simp add: label_ok_def)
      then show ?thesis
        using "1.prems"(4) that e0(1) \<open>e = e0\<close> by (simp add: boarding_ok_def ready_at_def)
    qed
    then have "chain_ok E r pk pd (entry_leg e cur # new)"
      using chain_ok_Cons [OF new(2)] e bounds by auto
    with new(1) show ?thesis by (intro exI [of _ "entry_leg e cur # new"]) simp
  qed
qed

lemma count_legs_transit: "fst (count_legs legs) = int (transit_count legs)"
proof -
  have "fst (fold (\<lambda>l (transit, walk).
     if Kind l = LegTransit then (transit + 1, walk)
     else (transit, i64 (walk + i64 (ArrivalUnix l - DepartureUnix l)))) legs (a, b)) = a + int (transit_count legs)" for a b
    by (induction legs arbitrary: a b) (auto simp: transit_count_def)
  then show ?thesis by (simp add: count_legs_def)
qed

lemma transit_count_rev [simp]: "transit_count (rev ls) = transit_count ls"
  by (simp add: transit_count_def rev_filter [symmetric])

text \<open>A journey the search builds in round \<open>k\<close>.\<close>

definition journey_sound :: "search_env \<Rightarrow> path \<Rightarrow> bool" where
  "journey_sound E p \<longleftrightarrow>
     path_well_formed p (params E) \<and> list_all (leg_real E) (Legs p) \<and>
     successively (transfer_ok (xferSec E)) (Legs p) \<and>
     int (transit_count (Legs p)) \<le> path_Rounds p \<and> path_Rounds p \<le> int (rounds E) \<and>
     path_DepartureUnix p = DepartureUnix (hd (Legs p)) \<and> path_ArrivalUnix p = ArrivalUnix (last (Legs p)) \<and>
     Transfers p = max 0 (int (transit_count (Legs p)) - 1)"

lemma make_path_simps [simp]:
  "Legs (make_path E rnd legs) = legs" "path_Rounds (make_path E rnd legs) = int rnd"
  "path_DepartureUnix (make_path E rnd legs) = DepartureUnix (hd legs)"
  "path_ArrivalUnix (make_path E rnd legs) = ArrivalUnix (last legs)"
  "Transfers (make_path E rnd legs) = max 0 (int (transit_count legs) - 1)"
  using count_legs_transit [of legs] by (auto simp: make_path_def Let_def split: prod.splits)

lemma buildPath_sound:
  assumes "buildPath E s k = Some p" "labels_ok E m s" "k \<le> m" "m \<le> rounds E"
  shows "journey_sound E p"
proof -
  from assms(1) obtain legs where legs: "build_legs E s [] [] (dest E) (int k) None 0 = Some legs"
    and p: "p = make_path E k (rev legs)" and v: "ValidatePath p (params E) = None"
    by (auto simp: buildPath_def Let_def split: option.splits if_splits)
  from build_legs_sound [OF legs assms(2)] assms(3) have "chain_ok E (int k) None 0 legs"
    by (auto simp: boarding_ok_def)
  then show ?thesis
    using v assms(3,4) by (auto simp: chain_ok_def journey_sound_def p ValidatePath_iff successively_rev)
qed

section \<open>Extraction\<close>

lemma extract_step_built:
  "p \<in> set (fst (extract_step E s k acc)) \<Longrightarrow>
     p \<in> set (fst acc) \<or> tau s k (dest E) \<noteq> None \<and> buildPath E s k = Some p"
  by (auto simp: extract_step_def split: prod.splits option.splits if_splits)

lemma extract_fold_built:
  "p \<in> set (fst (fold (extract_step E s) ks acc)) \<Longrightarrow>
     p \<in> set (fst acc) \<or> (\<exists>k \<in> set ks. tau s k (dest E) \<noteq> None \<and> buildPath E s k = Some p)"
proof (induction ks arbitrary: acc)
  case (Cons k ks)
  then have "p \<in> set (fst (fold (extract_step E s) ks (extract_step E s k acc)))" by simp
  from Cons.IH [OF this] extract_step_built [of p E s k acc] show ?case by auto
qed simp

lemma candidates_built:
  assumes "p \<in> set (candidates E s)"
  shows "\<exists>k \<le> rounds E. tau s k (dest E) \<noteq> None \<and> buildPath E s k = Some p"
  using extract_fold_built [OF assms [unfolded candidates_def]] by (auto simp: less_Suc_eq_le simp del: upt_Suc)

lemma deduplicatePaths_subset: "set (deduplicatePaths ps) \<subseteq> set ps"
proof -
  have "set (snd (fold (\<lambda>p (seen, out). let fp = pathFingerprint p in
            if fp \<in> set seen then (seen, out) else (fp # seen, out @ [p])) ps (seen, out))) \<subseteq> set out \<union> set ps" for seen out
  proof (induction ps arbitrary: seen out)
    case (Cons p ps)
    from Cons [of seen out] Cons [of "pathFingerprint p # seen" "out @ [p]"] show ?case
      by (simp add: Let_def) blast
  qed simp
  from this [of "[]" "[]"] show ?thesis by (simp add: deduplicatePaths_def)
qed

end
