(* ===== verification/Sample_Network.thy ===== *)
theory Sample_Network
  imports Engine
begin

text \<open>
  A published schedule of two routes joined by a walk, and the search over it evaluated in the
  kernel: the concrete run that the properties of the engine are applied to. The vehicle from A to
  B is followed by the walk from B to D and the vehicle from D to E.
\<close>

definition sample_trip1 :: trip_stop_times where
  "sample_trip1 = \<lparr>Key = TripKey ''T1'' ''2026-08-27'', Arrivals = [100, 200], Departures = [100, 200],
     StationIDs = [''A'', ''B'']\<rparr>"

definition sample_trip2 :: trip_stop_times where
  "sample_trip2 = \<lparr>Key = TripKey ''T2'' ''2026-08-27'', Arrivals = [310, 400], Departures = [310, 400],
     StationIDs = [''D'', ''E'']\<rparr>"

definition sample_buffer :: route_buffer where
  "sample_buffer =
     \<lparr>Routes = [\<lparr>RouteID = ''R1'', StopIDs = [''A'', ''B''], TripKeys = [Key sample_trip1]\<rparr>,
                \<lparr>RouteID = ''R2'', StopIDs = [''D'', ''E''], TripKeys = [Key sample_trip2]\<rparr>],
      StopTimes = [[sample_trip1], [sample_trip2]],
      TripIndex = [(Key sample_trip1, \<lparr>tl_RouteIdx = 0, tl_TripIdx = 0\<rparr>),
                   (Key sample_trip2, \<lparr>tl_RouteIdx = 1, tl_TripIdx = 0\<rparr>)],
      StopToRoutes = [(''A'', [\<lparr>RouteIdx = 0, StopPos = 0\<rparr>]), (''B'', [\<lparr>RouteIdx = 0, StopPos = 1\<rparr>]),
                      (''D'', [\<lparr>RouteIdx = 1, StopPos = 0\<rparr>]), (''E'', [\<lparr>RouteIdx = 1, StopPos = 1\<rparr>])],
      Footpaths = [(''B'', [Footpath ''D'' 60])], RouteFIFO = [True, True]\<rparr>"

definition sample_params :: search_params where
  "sample_params = \<lparr>Origin = ''A'', Destination = ''E'', SearchDate = ''2026-08-27'', DepTime = 50,
     SeatClass = ''SL'', Passengers = 1, MaxRounds = 2, MinTransferSeconds = 0, DateWindowDays = 1\<rparr>"

definition sample_orders :: map_orders where
  "sample_orders = \<lparr>iter_marked = \<lambda>k. rev, iter_queue = \<lambda>k. id, iter_improved = \<lambda>k. id\<rparr>"

definition sample_env :: search_env where
  "sample_env = search_env_of sample_params sample_buffer [] sample_orders"

definition sample_path :: path where
  "sample_path =
     \<lparr>Legs =
        [\<lparr>Kind = LegTransit, leg_TripID = ''T1'', leg_Date = ''2026-08-27'', leg_RouteID = ''R1'',
          BoardStation = ''A'', AlightStation = ''B'', DepartureUnix = 100, ArrivalUnix = 200\<rparr>,
         \<lparr>Kind = LegWalk, leg_TripID = [], leg_Date = [], leg_RouteID = ''WALK'',
          BoardStation = ''B'', AlightStation = ''D'', DepartureUnix = 200, ArrivalUnix = 260\<rparr>,
         \<lparr>Kind = LegTransit, leg_TripID = ''T2'', leg_Date = ''2026-08-27'', leg_RouteID = ''R2'',
          BoardStation = ''D'', AlightStation = ''E'', DepartureUnix = 310, ArrivalUnix = 400\<rparr>],
      path_DepartureUnix = 100, path_ArrivalUnix = 400, TotalTimeSeconds = 300, WaitSeconds = 50,
      Transfers = 1, path_WalkSeconds = 60, path_Rounds = 2\<rparr>"

section \<open>The run\<close>

lemma sample_dates:
  "computeAllowedDates ''2026-08-27'' 1 = [''2026-08-26'', ''2026-08-27'', ''2026-08-28'']"
  by code_simp

lemma sample_env_eq:
  "sample_env = \<lparr>params = sample_params, rounds = 2, xferSec = 0, dest = ''E'', routes = sample_buffer,
     signals = [], allowed = [''2026-08-26'', ''2026-08-27'', ''2026-08-28''], orders = sample_orders\<rparr>"
  by (simp add: sample_env_def search_env_of_def sample_params_def Rounds_def TransferBuffer_def
      DefaultMinTransferSeconds_def MaxAllowedRounds_def DateWindow_def sample_dates)

lemmas round_defs = search_round_def build_queue_def enqueue_stop_def copy_labels_def
lemmas scan_defs = scanRoute_def IsFIFO_def scan_stop_def earliestTrip_def sort_search_def
  sort_search_loop.simps infinity_def max_int64_def
lemmas label_defs = alight_def ready_at_def set_label_def improves_def tripUsable_def canBoard_def
  transit_entry_def walk_entry_def relaxFootpaths_def snapshot_source_def walk_edge_step_def
lemmas sample_defs = sample_orders_def sample_buffer_def sample_params_def sample_trip1_def sample_trip2_def

definition ride1 :: journal_entry where
  "ride1 = \<lparr>je_kind = LegTransit, je_fromRound = 0, je_from = ''A'', je_tripKey = TripKey ''T1'' ''2026-08-27'',
     je_routeID = ''R1'', je_departure = 100, je_arrival = 200\<rparr>"

definition walk1 :: journal_entry where
  "walk1 = \<lparr>je_kind = LegWalk, je_fromRound = 1, je_from = ''B'', je_tripKey = TripKey [] [],
     je_routeID = WalkRouteID, je_departure = 200, je_arrival = 260\<rparr>"

definition ride2 :: journal_entry where
  "ride2 = \<lparr>je_kind = LegTransit, je_fromRound = 1, je_from = ''D'', je_tripKey = TripKey ''T2'' ''2026-08-27'',
     je_routeID = ''R2'', je_departure = 310, je_arrival = 400\<rparr>"

definition state0 :: search_state where
  "state0 = \<lparr>tau = (\<lambda>k. if k = 0 then [''A'' \<mapsto> 50] else Map.empty), journal = (\<lambda>k. Map.empty),
     best = [''A'' \<mapsto> 50], preWalk = (\<lambda>k. Map.empty)\<rparr>"

definition state1 :: search_state where
  "state1 = state0
     \<lparr>tau := (tau state0)(1 := [''A'' \<mapsto> 50, ''B'' \<mapsto> 200, ''D'' \<mapsto> 260]),
      journal := (journal state0)(1 := [''B'' \<mapsto> ride1, ''D'' \<mapsto> walk1]),
      best := [''A'' \<mapsto> 50, ''B'' \<mapsto> 200, ''D'' \<mapsto> 260],
      preWalk := (preWalk state0)(1 := [''B'' \<mapsto> ride1])\<rparr>"

definition state2 :: search_state where
  "state2 = state1
     \<lparr>tau := (tau state1)(2 := [''A'' \<mapsto> 50, ''B'' \<mapsto> 200, ''D'' \<mapsto> 260, ''E'' \<mapsto> 400]),
      journal := (journal state1)(2 := [''B'' \<mapsto> ride1, ''D'' \<mapsto> walk1, ''E'' \<mapsto> ride2]),
      best := [''A'' \<mapsto> 50, ''B'' \<mapsto> 200, ''D'' \<mapsto> 260, ''E'' \<mapsto> 400]\<rparr>"

lemma sample_round0:
  "relaxFootpaths sample_env 0 [Origin (params sample_env)] (init_state (params sample_env), [Origin (params sample_env)]) =
     (state0, [''A''])"
  by (simp add: sample_env_eq sample_defs relaxFootpaths_def snapshot_source_def gm_get_def init_state_def state0_def cong: if_cong)

lemmas run_defs = round_defs scan_defs label_defs sample_env_eq sample_defs gm_get_def add_new_def i64_def Let_def
  state0_def state1_def ride1_def walk1_def

lemma sample_round1: "search_round sample_env 1 (state0, [''A'']) = (state1, [''B'', ''D''])"
  by (simp add: run_defs)

lemma sample_round2: "search_round sample_env 2 (state1, [''B'', ''D'']) = (state2, [''E''])"
  by (simp add: run_defs state2_def ride2_def)

lemma sample_labels: "search_labels (\<lambda>k. False) sample_env = Some state2"
proof -
  have "rounds sample_env = Suc (Suc 0)" by (simp add: sample_env_eq)
  moreover have "search_round sample_env (Suc 0) (state0, [''A'']) = (state1, [''B'', ''D''])"
    "search_round sample_env (Suc (Suc 0)) (state1, [''B'', ''D'']) = (state2, [''E''])"
    using sample_round1 sample_round2 by (simp_all add: numeral_2_eq_2)
  ultimately show ?thesis by (simp add: search_labels_def sample_round0 Let_def)
qed

lemma sample_build: "buildPath sample_env state2 2 = Some sample_path"
proof -
  have j: "journal state2 2 ''E'' = Some ride2" "journal state2 1 ''D'' = Some walk1" "journal state2 1 ''B'' = Some ride1"
    by (simp_all add: state2_def state1_def)
  have entries: "je_from ride2 = ''D''" "je_fromRound ride2 = 1" "je_kind ride2 = LegTransit"
    "je_from walk1 = ''B''" "je_fromRound walk1 = 1" "je_kind walk1 = LegWalk"
    "je_from ride1 = ''A''" "je_fromRound ride1 = 0" "je_kind ride1 = LegTransit"
    by (simp_all add: ride1_def ride2_def walk1_def)
  have "build_legs sample_env state2 [] [] ''E'' 2 None 0 =
      Some [entry_leg ride2 ''E'', entry_leg walk1 ''D'', entry_leg ride1 ''B'']"
    by (simp add: build_legs.simps sample_env_eq sample_params_def j [unfolded One_nat_def] Let_def chain_entry_def entries)
  then show ?thesis
    by (simp add: buildPath_def sample_env_eq sample_params_def Let_def make_path_def count_legs_def entry_leg_def
        ride1_def ride2_def walk1_def ValidatePath_def sample_path_def WalkRouteID_def i64_def)
qed

lemma sample_search:
  "RaptorSearch (\<lambda>k. False) sample_orders (Some sample_buffer) [] sample_params 5 = [sample_path]"
proof -
  have "tau state2 0 ''E'' = None" "tau state2 1 ''E'' = None" "tau state2 2 ''E'' = Some 400" "rounds sample_env = 2"
      "dest sample_env = ''E''"
    by (simp_all add: state2_def state1_def state0_def sample_env_eq)
  then have "candidates sample_env state2 = [sample_path]"
    by (simp add: candidates_def extract_step_def sample_build [unfolded numeral_2_eq_2] numeral_2_eq_2 infinity_def max_int64_def)
  then have "extract_paths sample_env state2 5 = [sample_path]"
    by (simp add: extract_paths_def deduplicatePaths_def paretoFilter_def sample_path_def max_int32_def Let_def)
  moreover have "length (Routes sample_buffer) \<noteq> 0" "Origin sample_params \<noteq> []" "Destination sample_params \<noteq> []"
    "Origin sample_params \<noteq> Destination sample_params"
    by (simp_all add: sample_buffer_def sample_params_def)
  ultimately show ?thesis
    using sample_labels by (simp add: RaptorSearch_def Let_def sample_env_def [symmetric])
qed

end
