(* ===== verification/Engine_Frontier.thy ===== *)
theory Engine_Frontier
  imports Engine_Sound Sample_Network
begin

text \<open>
  The answer set of \<^verbatim>\<open>internal/raptor/engine.go\<close>: what \<open>deduplicatePaths\<close>, the stable sort,
  \<open>paretoFilter\<close> and the cut to \<open>topK\<close> do to the journeys built from the labels. The sweep is a
  refinement of \<open>pareto_from\<close>, which the lemmas are proved for.
\<close>

section \<open>The sweep\<close>

fun pareto_from :: "int \<Rightarrow> path list \<Rightarrow> path list" where
  "pareto_from b [] = []"
| "pareto_from b (p # ps) =
     (if Transfers p < b then p # pareto_from (Transfers p) ps else pareto_from b ps)"

lemma paretoFilter_eq: "paretoFilter ps = pareto_from max_int32 ps"
proof -
  have "fst (fold (\<lambda>p (out, bestTransfers).
      if Transfers p < bestTransfers then (out @ [p], Transfers p) else (out, bestTransfers)) ps (out, b)) =
      out @ pareto_from b ps" for out b
    by (induction ps arbitrary: out b) auto
  then show ?thesis by (simp add: paretoFilter_def)
qed

lemma pareto_from_subset: "set (pareto_from b ps) \<subseteq> set ps"
  by (induction b ps rule: pareto_from.induct) auto

lemma pareto_from_less: "p \<in> set (pareto_from b ps) \<Longrightarrow> Transfers p < b"
  by (induction b ps rule: pareto_from.induct) (auto split: if_splits)

text \<open>The key the journeys are sorted by, and what follows another on the frontier.\<close>

definition rank :: "path \<Rightarrow> int \<times> int" where
  "rank p = (path_ArrivalUnix p, Transfers p)"

definition trades_off :: "path \<Rightarrow> path \<Rightarrow> bool" where
  "trades_off p q \<longleftrightarrow> path_ArrivalUnix p < path_ArrivalUnix q \<and> Transfers q < Transfers p"

lemma pareto_from_trades_off:
  "sorted (map rank ps) \<Longrightarrow> sorted_wrt trades_off (pareto_from b ps)"
proof (induction b ps rule: pareto_from.induct)
  case (2 b p ps)
  have "trades_off p q" if "q \<in> set (pareto_from (Transfers p) ps)" "Transfers p < b" for q
  proof -
    have "q \<in> set ps" "Transfers q < Transfers p"
      using that pareto_from_subset pareto_from_less by blast+
    with "2.prems" show ?thesis by (auto simp: trades_off_def rank_def less_eq_prod_def)
  qed
  with 2 show ?case by auto
qed simp

lemma pareto_from_covers:
  "sorted (map rank ps) \<Longrightarrow> p \<in> set ps \<Longrightarrow> Transfers p < b \<Longrightarrow>
     \<exists>q \<in> set (pareto_from b ps). path_ArrivalUnix q \<le> path_ArrivalUnix p \<and> Transfers q \<le> Transfers p"
proof (induction b ps rule: pareto_from.induct)
  case (2 b x ps)
  show ?case
  proof (cases "Transfers x < b")
    case True
    show ?thesis
    proof (cases "Transfers x \<le> Transfers p")
      case le: True
      have "path_ArrivalUnix x \<le> path_ArrivalUnix p"
        using "2.prems"(1,2) by (auto simp: rank_def less_eq_prod_def)
      with le True show ?thesis by auto
    next
      case False
      with "2.prems" have "p \<in> set ps" "Transfers p < Transfers x" by auto
      with "2.IH"(1) [OF True] "2.prems"(1) True show ?thesis by auto
    qed
  next
    case False
    with "2.prems" have "p \<in> set ps" by auto
    with "2.IH"(2) [OF False] "2.prems" False show ?thesis by auto
  qed
qed simp

section \<open>The answer\<close>

lemma length_deduplicatePaths: "length (deduplicatePaths ps) \<le> length ps"
proof -
  have "length (snd (fold (\<lambda>p (seen, out). let fp = pathFingerprint p in
            if fp \<in> set seen then (seen, out) else (fp # seen, out @ [p])) ps (seen, out))) \<le> length out + length ps" for seen out
  proof (induction ps arbitrary: seen out)
    case (Cons p ps)
    from Cons [of seen out] Cons [of "pathFingerprint p # seen" "out @ [p]"] show ?case
      by (simp add: Let_def)
  qed simp
  from this [of "[]" "[]"] show ?thesis by (simp add: deduplicatePaths_def)
qed

lemma length_pareto_from: "length (pareto_from b ps) \<le> length ps"
  by (induction b ps rule: pareto_from.induct) auto

lemma length_candidates: "length (candidates E s) \<le> rounds E + 1"
proof -
  have "length (fst (fold (extract_step E s) ks acc)) \<le> length (fst acc) + length ks" for ks acc
  proof (induction ks arbitrary: acc)
    case (Cons k ks)
    have "length (fst (extract_step E s k acc)) \<le> length (fst acc) + 1"
      by (auto simp: extract_step_def split: prod.splits option.splits)
    with Cons [of "extract_step E s k acc"] show ?case by simp
  qed simp
  from this [of "[0..<rounds E + 1]" "([], infinity)"] show ?thesis by (simp add: candidates_def)
qed

definition frontier :: "search_env \<Rightarrow> search_state \<Rightarrow> path list" where
  "frontier E s = pareto_from max_int32 (sort_key rank (deduplicatePaths (candidates E s)))"

lemma extract_paths_eq:
  "extract_paths E s topK = (if topK > 0 then take (nat topK) (frontier E s) else frontier E s)"
proof -
  have "(\<lambda>p. (path_ArrivalUnix p, Transfers p)) = rank" by (simp add: rank_def fun_eq_iff)
  then show ?thesis by (auto simp: extract_paths_def frontier_def paretoFilter_eq Let_def)
qed

lemma frontier_sorted: "sorted_wrt trades_off (frontier E s)"
  unfolding frontier_def by (intro pareto_from_trades_off) simp

lemma length_frontier: "length (frontier E s) \<le> rounds E + 1"
  using length_pareto_from [of max_int32 "sort_key rank (deduplicatePaths (candidates E s))"]
    length_deduplicatePaths [of "candidates E s"] length_candidates [of E s]
  by (simp add: frontier_def)

lemma set_extract_paths: "set (extract_paths E s topK) \<subseteq> set (candidates E s)"
proof -
  have "set (extract_paths E s topK) \<subseteq> set (frontier E s)"
    by (auto simp: extract_paths_eq dest: in_set_takeD)
  also have "\<dots> \<subseteq> set (deduplicatePaths (candidates E s))"
    using pareto_from_subset [of max_int32 "sort_key rank (deduplicatePaths (candidates E s))"]
    by (simp add: frontier_def)
  also have "\<dots> \<subseteq> set (candidates E s)" by (rule deduplicatePaths_subset)
  finally show ?thesis .
qed

lemma RaptorSearch_cases:
  "RaptorSearch cancelled ords (Some buf) sig p topK = [] \<or>
   (\<exists>s. search_labels cancelled (search_env_of p buf sig ords) = Some s \<and>
      Origin p \<noteq> [] \<and> Destination p \<noteq> [] \<and> Origin p \<noteq> Destination p \<and>
      RaptorSearch cancelled ords (Some buf) sig p topK = extract_paths (search_env_of p buf sig ords) s topK)"
  by (auto simp: RaptorSearch_def Let_def split: option.splits)

lemma search_env_of_simps [simp]:
  "params (search_env_of p buf sig ords) = p" "routes (search_env_of p buf sig ords) = buf"
  "rounds (search_env_of p buf sig ords) = nat (Rounds p)" "xferSec (search_env_of p buf sig ords) = TransferBuffer p"
  "dest (search_env_of p buf sig ords) = Destination p" "signals (search_env_of p buf sig ords) = sig"
  "allowed (search_env_of p buf sig ords) = computeAllowedDates (SearchDate p) (DateWindow p)"
  "orders (search_env_of p buf sig ords) = ords"
  by (simp_all add: search_env_of_def)

lemma journeys_sound:
  assumes "flags_ok buf" "orders_ok ords" "q \<in> set (RaptorSearch cancelled ords (Some buf) sig p topK)"
  shows "journey_sound (search_env_of p buf sig ords) q"
proof -
  let ?E = "search_env_of p buf sig ords"
  from RaptorSearch_cases [of cancelled ords buf sig p topK] assms(3)
  obtain s where s: "search_labels cancelled ?E = Some s" and q: "q \<in> set (extract_paths ?E s topK)"
    by auto
  from labels.search_settled [OF s] assms(1,2) obtain m where m: "m \<le> rounds ?E" "labels_ok ?E m s" by auto
  from q set_extract_paths candidates_built [of q ?E s]
  obtain k where k: "tau s k (dest ?E) \<noteq> None" "buildPath ?E s k = Some q" by blast
  then have "k \<le> m" using m(2) by (cases "k \<le> m") (auto simp: labels_ok_def)
  then show ?thesis using buildPath_sound [OF k(2) m(2)] m(1) by blast
qed

lemma pareto_from_nondominated:
  assumes "sorted (map rank ps)" "q \<in> set (pareto_from b ps)" "p \<in> set ps"
  shows "\<not> Dominates p q"
proof
  assume dom: "Dominates p q"
  let ?out = "pareto_from b ps"
  have "Transfers p < b" using dom pareto_from_less [OF assms(2)] by (simp add: Dominates_iff)
  from pareto_from_covers [OF assms(1,3) this] obtain q'
    where q': "q' \<in> set ?out" "path_ArrivalUnix q' \<le> path_ArrivalUnix p" "Transfers q' \<le> Transfers p" by blast
  from q'(1) assms(2) obtain i j where "i < length ?out" "?out ! i = q" "j < length ?out" "?out ! j = q'"
    by (auto simp: in_set_conv_nth)
  then have "q = q' \<or> trades_off q q' \<or> trades_off q' q"
    using pareto_from_trades_off [OF assms(1), of b] by (metis linorder_neqE_nat sorted_wrt_iff_nth_less)
  with q' dom show False by (auto simp: Dominates_iff trades_off_def)
qed

section \<open>Properties\<close>

text \<open>C3: every journey the search returns starts at the origin, not before the requested time, ends at
  the destination and joins up; every vehicle leg is a ride some published trip makes from an
  earlier to a later stop at its scheduled times, on an allowed date and not known to be full;
  every walk is a footpath of the graph and takes its walking time.\<close>

theorem search_legs_are_real:
  assumes "flags_ok buf" "orders_ok ords"
  shows "list_all (\<lambda>q. path_well_formed q p \<and> list_all (leg_real (search_env_of p buf sig ords)) (Legs q))
    (RaptorSearch cancelled ords (Some buf) sig p topK)"
  using journeys_sound [OF assms] by (auto simp: list_all_iff journey_sound_def)

lemma sample_ok: "flags_ok sample_buffer" "orders_ok sample_orders"
  by (auto simp: flags_ok_def sample_buffer_def computeFIFO_def less_Suc_eq orders_ok_def sample_orders_def)

theorem search_legs_are_real_witness:
  "RaptorSearch (\<lambda>k. False) sample_orders (Some sample_buffer) [] sample_params 5 = [sample_path] \<and>
   path_well_formed sample_path sample_params \<and>
   list_all (leg_real (search_env_of sample_params sample_buffer [] sample_orders)) (Legs sample_path)"
  using search_legs_are_real [OF sample_ok, of sample_params "[]" "\<lambda>k. False" 5]
  by (simp add: sample_search)

text \<open>C20: a journey found in round \<open>k\<close> boards at most \<open>k\<close> vehicles, \<open>k\<close> is at most the number of
  rounds the request allows, never more than eight, and the transfers reported are the vehicles
  boarded after the first.\<close>

theorem search_one_vehicle_per_round:
  assumes "flags_ok buf" "orders_ok ords"
  shows "list_all (\<lambda>q. TransitLegs q \<le> path_Rounds q \<and> path_Rounds q \<le> Rounds p \<and> path_Rounds q \<le> MaxAllowedRounds \<and>
      Transfers q = max 0 (TransitLegs q - 1)) (RaptorSearch cancelled ords (Some buf) sig p topK)"
  unfolding list_all_iff
proof (intro ballI)
  fix q assume "q \<in> set (RaptorSearch cancelled ords (Some buf) sig p topK)"
  from journeys_sound [OF assms this] Rounds_bounds [of p]
  show "TransitLegs q \<le> path_Rounds q \<and> path_Rounds q \<le> Rounds p \<and> path_Rounds q \<le> MaxAllowedRounds \<and>
      Transfers q = max 0 (TransitLegs q - 1)"
    by (auto simp: journey_sound_def TransitLegs_eq transit_count_def [symmetric])
qed

theorem search_one_vehicle_per_round_witness:
  "RaptorSearch (\<lambda>k. False) sample_orders (Some sample_buffer) [] sample_params 5 = [sample_path] \<and>
   TransitLegs sample_path \<le> path_Rounds sample_path"
  using search_one_vehicle_per_round [OF sample_ok, of sample_params "\<lambda>k. False" "[]" 5]
  by (simp add: sample_search)

lemma answer_sorted:
  "sorted_wrt trades_off (RaptorSearch cancelled ords (Some buf) sig p topK) \<and>
   int (length (RaptorSearch cancelled ords (Some buf) sig p topK)) \<le>
     (if topK > 0 then min topK (Rounds p + 1) else Rounds p + 1)"
proof -
  let ?E = "search_env_of p buf sig ords"
  have r: "1 \<le> Rounds p" by (rule Rounds_bounds)
  have "sorted_wrt trades_off (extract_paths ?E s topK) \<and> int (length (extract_paths ?E s topK)) \<le>
      (if topK > 0 then min topK (Rounds p + 1) else Rounds p + 1)" for s
    using frontier_sorted [of ?E s] length_frontier [of ?E s] r
    by (auto simp: extract_paths_eq sorted_wrt_take)
  moreover have "(0::int) \<le> (if topK > 0 then min topK (Rounds p + 1) else Rounds p + 1)" using r by simp
  ultimately show ?thesis using RaptorSearch_cases [of cancelled ords buf sig p topK] by fastforce
qed

text \<open>C18: the answer is sorted by arrival, each journey arriving strictly later than the one before
  it with strictly fewer transfers, and it holds at most one journey per round and at most the
  number asked for.\<close>

theorem search_answer_is_frontier:
  "sorted_wrt trades_off (RaptorSearch cancelled ords (Some buf) sig p topK) \<and>
   int (length (RaptorSearch cancelled ords (Some buf) sig p topK)) \<le>
     (if topK > 0 then min topK (Rounds p + 1) else Rounds p + 1)"
  by (rule answer_sorted)

text \<open>Applied to journeys in the order of the sort, the sweep keeps exactly a Pareto frontier:
  nothing it keeps is dominated by any candidate, and every candidate is matched or beaten in both
  objectives by something it keeps.\<close>

theorem paretoFilter_keeps_frontier:
  assumes "sorted (map rank ps)" "list_all (\<lambda>p. Transfers p < max_int32) ps"
  shows "set (paretoFilter ps) \<subseteq> set ps \<and>
    (\<forall>q \<in> set (paretoFilter ps). \<forall>p \<in> set ps. \<not> Dominates p q) \<and>
    (\<forall>p \<in> set ps. \<exists>q \<in> set (paretoFilter ps). path_ArrivalUnix q \<le> path_ArrivalUnix p \<and> Transfers q \<le> Transfers p)"
  using pareto_from_subset pareto_from_nondominated [OF assms(1)] pareto_from_covers [OF assms(1)] assms(2)
  by (auto simp: paretoFilter_eq list_all_iff)

theorem paretoFilter_keeps_frontier_witness:
  "let slow = sample_path\<lparr>path_ArrivalUnix := 500\<rparr>; direct = sample_path\<lparr>path_ArrivalUnix := 500, Transfers := 0\<rparr>
   in paretoFilter [sample_path, direct, slow] = [sample_path, direct] \<and> \<not> Dominates slow direct"
proof -
  define slow where "slow = sample_path\<lparr>path_ArrivalUnix := 500\<rparr>"
  define direct where "direct = sample_path\<lparr>path_ArrivalUnix := 500, Transfers := 0\<rparr>"
  have "paretoFilter [sample_path, direct, slow] = [sample_path, direct]"
    by (simp add: paretoFilter_eq sample_path_def slow_def direct_def max_int32_def)
  moreover have "sorted (map rank [sample_path, direct, slow])" "list_all (\<lambda>p. Transfers p < max_int32) [sample_path, direct, slow]"
    by (simp_all add: rank_def sample_path_def slow_def direct_def max_int32_def less_eq_prod_def)
  ultimately show ?thesis
    using paretoFilter_keeps_frontier [of "[sample_path, direct, slow]"] by (simp add: Let_def slow_def direct_def)
qed

end
