(* ===== verification/Validator.thy ===== *)
theory Validator
  imports Path_Check Breaker Redis
begin

text \<open>
  The authoritative seat check of \<^verbatim>\<open>internal/raptor/validator.go\<close>: the keys of all candidates are
  collected once, fetched in chunked MGETs behind the circuit breaker, and every vehicle leg must
  be confirmed. Redis is a parameter: \<open>mget j ks\<close> answers the \<open>j\<close>-th MGET or fails; so are the
  decoding of a stored seat map and the order in which Go ranges over the key set. The breaker is
  used through the contract \<open>call_gate\<close>.
\<close>

definition DefaultMGetChunk :: int where "DefaultMGetChunk = 512"

record validator_config =
  Strict :: bool
  MGetChunk :: int
  MaxResults :: int
  BreakerThreshold :: int
  BreakerCooldown :: int

text \<open>\<open>has_rdb\<close> is whether the Redis client is not nil.\<close>

record validator =
  has_rdb :: bool
  cfg :: validator_config
  cb :: breaker

definition NewValidator :: "bool \<Rightarrow> validator_config \<Rightarrow> validator" where
  "NewValidator rdb c =
     (let c = (if MGetChunk c \<le> 0 then c\<lparr>MGetChunk := DefaultMGetChunk\<rparr> else c)
      in \<lparr>has_rdb = rdb, cfg = c, cb = New (BreakerThreshold c) (BreakerCooldown c)\<rparr>)"

definition BreakerState :: "int \<Rightarrow> validator \<Rightarrow> breaker_state" where
  "BreakerState now v = State now (cb v)"

definition breaker_state_text :: "breaker_state \<Rightarrow> string" where
  "breaker_state_text s = (case s of StateClosed \<Rightarrow> ''closed'' | StateOpen \<Rightarrow> ''open'' | StateHalfOpen \<Rightarrow> ''half_open'')"

definition Status :: "int \<Rightarrow> validator \<Rightarrow> string" where
  "Status now v = (if \<not> has_rdb v then ''unconfigured'' else breaker_state_text (State now (cb v)))"

definition validator_healthy :: "int \<Rightarrow> validator \<Rightarrow> bool" where
  "validator_healthy now v \<longleftrightarrow> has_rdb v \<and> Healthy now (cb v)"

section \<open>Fetching the seat maps\<close>

text \<open>What was read per key; decoding a text gives \<open>None\<close> for an error and for JSON null.\<close>

type_synonym seat_cache = "string \<Rightarrow> seat_map option"

definition needs_seat :: "leg \<Rightarrow> bool" where
  "needs_seat l \<longleftrightarrow> \<not> (Kind l = LegWalk \<or> leg_RouteID l = WalkRouteID)"

definition leg_key :: "leg \<Rightarrow> string" where
  "leg_key l = SeatMapKey (leg_TripID l) (leg_Date l)"

definition seat_keys :: "path list \<Rightarrow> string list" where
  "seat_keys candidates =
     fold (\<lambda>p. fold (\<lambda>l ks. if \<not> needs_seat l then ks else add_new (leg_key l) ks) (Legs p)) candidates []"

definition read_value :: "(string \<Rightarrow> seat_map option) \<Rightarrow> redis_value list \<Rightarrow> nat \<Rightarrow> seat_map option" where
  "read_value unmarshal vals i =
     (if i < length vals then (case vals ! i of RedisText s \<Rightarrow> unmarshal s | RedisNil \<Rightarrow> None | RedisOther \<Rightarrow> None)
      else None)"

definition read_chunk :: "(string \<Rightarrow> seat_map option) \<Rightarrow> redis_value list \<Rightarrow> string list \<Rightarrow> seat_cache \<Rightarrow> seat_cache" where
  "read_chunk unmarshal vals chunk cache =
     fold (\<lambda>i c. c(chunk ! i := read_value unmarshal vals i)) [0..<length chunk] cache"

fun fetch_chunks :: "(nat \<Rightarrow> string list \<Rightarrow> redis_value list option) \<Rightarrow> (string \<Rightarrow> seat_map option) \<Rightarrow>
    nat \<Rightarrow> string list list \<Rightarrow> seat_cache \<Rightarrow> seat_cache option" where
  "fetch_chunks mget unmarshal j [] cache = Some cache"
| "fetch_chunks mget unmarshal j (chunk # rest) cache =
     (case mget j chunk of
        None \<Rightarrow> None
      | Some vals \<Rightarrow> fetch_chunks mget unmarshal (j + 1) rest (read_chunk unmarshal vals chunk cache))"

section \<open>Filtering\<close>

definition truncate_results :: "validator \<Rightarrow> path list \<Rightarrow> path list" where
  "truncate_results v paths =
     (if MaxResults (cfg v) > 0 \<and> int (length paths) > MaxResults (cfg v)
      then take (nat (MaxResults (cfg v))) paths else paths)"

definition unavailable :: "validator \<Rightarrow> path list \<Rightarrow> path list" where
  "unavailable v candidates = (if Strict (cfg v) then [] else truncate_results v candidates)"

fun legs_confirmed :: "seat_cache \<Rightarrow> string \<Rightarrow> int \<Rightarrow> leg list \<Rightarrow> bool" where
  "legs_confirmed cache cls n [] = True"
| "legs_confirmed cache cls n (l # ls) =
     (if \<not> needs_seat l then legs_confirmed cache cls n ls
      else case cache (leg_key l) of
        None \<Rightarrow> False
      | Some m \<Rightarrow> if gm_get m cls 0 < n then False else legs_confirmed cache cls n ls)"

text \<open>The loop over the candidates, with the early break once enough have survived.\<close>

fun survivors :: "seat_cache \<Rightarrow> string \<Rightarrow> int \<Rightarrow> int \<Rightarrow> path list \<Rightarrow> path list \<Rightarrow> path list" where
  "survivors cache cls n maxResults valid [] = valid"
| "survivors cache cls n maxResults valid (p # ps) =
     (if legs_confirmed cache cls n (Legs p)
      then let valid = valid @ [p] in
        if maxResults > 0 \<and> int (length valid) \<ge> maxResults then valid
        else survivors cache cls n maxResults valid ps
      else survivors cache cls n maxResults valid ps)"

text \<open>\<open>now\<close> and \<open>later\<close> are the clock readings of \<open>Allow\<close> and \<open>Failure\<close>.\<close>

definition Validate :: "(nat \<Rightarrow> string list \<Rightarrow> redis_value list option) \<Rightarrow> (string \<Rightarrow> seat_map option) \<Rightarrow>
    (string list \<Rightarrow> string list) \<Rightarrow> int \<Rightarrow> int \<Rightarrow> path list \<Rightarrow> string \<Rightarrow> int \<Rightarrow> validator \<Rightarrow> path list \<times> validator" where
  "Validate mget unmarshal iter now later candidates cls n v =
     (if length candidates = 0 then ([], v)
      else if length (seat_keys candidates) = 0 then (truncate_results v candidates, v)
      else if \<not> has_rdb v then (unavailable v candidates, v)
      else
        (let (admitted, b) = Allow now (cb v); v = v\<lparr>cb := b\<rparr> in
         if \<not> admitted then (unavailable v candidates, v)
         else
           (case fetch_chunks mget unmarshal 0 (chunks (nat (MGetChunk (cfg v))) (iter (seat_keys candidates))) Map.empty of
              None \<Rightarrow> (let v = v\<lparr>cb := Failure later (cb v)\<rparr> in (unavailable v candidates, v))
            | Some cache \<Rightarrow>
                (let v = v\<lparr>cb := Success (cb v)\<rparr>
                 in (survivors cache cls n (MaxResults (cfg v)) [] candidates, v)))))"

section \<open>Lemmas\<close>

lemma seat_keys_set: "set (seat_keys candidates) = leg_key ` {l. needs_seat l \<and> (\<exists>p \<in> set candidates. l \<in> set (Legs p))}"
proof -
  have legs: "set (fold (\<lambda>l ks. if \<not> needs_seat l then ks else add_new (leg_key l) ks) ls ks) =
      set ks \<union> leg_key ` {l \<in> set ls. needs_seat l}" for ls ks
    by (induction ls arbitrary: ks) auto
  have "set (fold (\<lambda>p. fold (\<lambda>l ks. if \<not> needs_seat l then ks else add_new (leg_key l) ks) (Legs p)) cs ks) =
      set ks \<union> leg_key ` {l. needs_seat l \<and> (\<exists>p \<in> set cs. l \<in> set (Legs p))}" for cs ks
    by (induction cs arbitrary: ks) (auto simp: legs)
  from this [of candidates "[]"] show ?thesis by (simp add: seat_keys_def)
qed

lemma seat_keys_distinct: "distinct (seat_keys candidates)"
proof -
  have legs: "distinct ks \<Longrightarrow> distinct (fold (\<lambda>l ks. if \<not> needs_seat l then ks else add_new (leg_key l) ks) ls ks)" for ls ks
    by (induction ls arbitrary: ks) auto
  have "distinct ks \<Longrightarrow> distinct (fold (\<lambda>p. fold (\<lambda>l ks. if \<not> needs_seat l then ks else add_new (leg_key l) ks) (Legs p)) cs ks)" for cs ks
    by (induction cs arbitrary: ks) (auto simp: legs)
  from this [of "[]" candidates] show ?thesis by (simp add: seat_keys_def)
qed

text \<open>\<open>asked\<close> are the MGETs of one validation with their positions: a seat map in the cache was read
  from the reply to one of them that asks for its key.\<close>

definition answered :: "(nat \<Rightarrow> string list \<Rightarrow> redis_value list option) \<Rightarrow> (string \<Rightarrow> seat_map option) \<Rightarrow>
    (nat \<times> string list) set \<Rightarrow> string \<Rightarrow> seat_map \<Rightarrow> bool" where
  "answered mget unmarshal asked k m \<longleftrightarrow>
     (\<exists>(j, chunk) \<in> asked. \<exists>vals i s. mget j chunk = Some vals \<and> i < length chunk \<and> i < length vals \<and> chunk ! i = k \<and>
        vals ! i = RedisText s \<and> unmarshal s = Some m)"

lemma read_chunk_answered:
  assumes "mget j chunk = Some vals" "(j, chunk) \<in> asked" "\<And>k m. cache k = Some m \<Longrightarrow> answered mget unmarshal asked k m"
    and "read_chunk unmarshal vals chunk cache k = Some m"
  shows "answered mget unmarshal asked k m"
proof -
  have val: "answered mget unmarshal asked (chunk ! i) m" if "read_value unmarshal vals i = Some m" "i < length chunk" for i m
  proof -
    from that(1) obtain s where "i < length vals" "vals ! i = RedisText s" "unmarshal s = Some m"
      by (auto simp: read_value_def split: if_splits redis_value.splits)
    with that(2) assms(1) show ?thesis unfolding answered_def
      by (intro bexI [OF _ assms(2)]) auto
  qed
  have "\<forall>k m. fold (\<lambda>i c. c(chunk ! i := read_value unmarshal vals i)) is c k = Some m \<longrightarrow> answered mget unmarshal asked k m"
    if "\<forall>k m. c k = Some m \<longrightarrow> answered mget unmarshal asked k m" "set is \<subseteq> {..<length chunk}" for "is" c
    using that
  proof (induction "is" arbitrary: c)
    case (Cons i "is")
    have "\<forall>k m. (c(chunk ! i := read_value unmarshal vals i)) k = Some m \<longrightarrow> answered mget unmarshal asked k m"
      using Cons.prems val [of i] by simp
    moreover have "set is \<subseteq> {..<length chunk}" using Cons.prems(2) by simp
    ultimately show ?case unfolding fold_simps by (rule Cons.IH)
  qed simp
  moreover have "set [0..<length chunk] \<subseteq> {..<length chunk}" by auto
  ultimately show ?thesis using assms(3,4) unfolding read_chunk_def by blast
qed

lemma fetch_chunks_answered:
  "fetch_chunks mget unmarshal j cs cache = Some cache' \<Longrightarrow> set (enumerate j cs) \<subseteq> asked \<Longrightarrow>
     (\<And>k m. cache k = Some m \<Longrightarrow> answered mget unmarshal asked k m) \<Longrightarrow> cache' k = Some m \<Longrightarrow> answered mget unmarshal asked k m"
proof (induction mget unmarshal j cs cache rule: fetch_chunks.induct)
  case (2 mget unmarshal j chunk cs cache)
  then obtain vals where v: "mget j chunk = Some vals" by (auto split: option.splits)
  have "(j, chunk) \<in> asked" "set (enumerate (j + 1) cs) \<subseteq> asked" using "2.prems"(2) by auto
  with v 2 read_chunk_answered [of mget j chunk vals asked cache unmarshal] show ?case by auto
qed simp

lemma legs_confirmed_iff:
  "legs_confirmed cache cls n ls \<longleftrightarrow>
     (\<forall>l \<in> set ls. needs_seat l \<longrightarrow> (\<exists>m. cache (leg_key l) = Some m \<and> n \<le> gm_get m cls 0))"
  by (induction cache cls n ls rule: legs_confirmed.induct) (auto split: option.splits)

lemma survivors_eq:
  "maxResults \<le> 0 \<or> int (length valid) < maxResults \<Longrightarrow>
   survivors cache cls n maxResults valid ps =
     (let ok = filter (\<lambda>p. legs_confirmed cache cls n (Legs p)) ps
      in if maxResults > 0 then take (nat maxResults) (valid @ ok) else valid @ ok)"
proof (induction cache cls n maxResults valid ps rule: survivors.induct)
  case (2 cache cls n maxResults valid p ps)
  show ?case
  proof (cases "legs_confirmed cache cls n (Legs p)")
    case True
    show ?thesis
    proof (cases "maxResults > 0 \<and> int (length (valid @ [p])) \<ge> maxResults")
      case enough: True
      with "2.prems" have "nat maxResults = Suc (length valid)" by simp
      with True enough show ?thesis by (simp add: Let_def)
    next
      case False
      with True 2 show ?thesis by (auto simp: Let_def)
    qed
  next
    case False
    with 2 show ?thesis by (simp add: Let_def)
  qed
qed (auto simp: Let_def)

lemma survivors_take:
  "survivors cache cls n k [] ps =
     (let ok = filter (\<lambda>p. legs_confirmed cache cls n (Legs p)) ps in if k > 0 then take (nat k) ok else ok)"
  using survivors_eq [of k "[]"] by (cases "k > 0") auto

section \<open>Properties\<close>

definition asked_of :: "(string list \<Rightarrow> string list) \<Rightarrow> validator \<Rightarrow> path list \<Rightarrow> (nat \<times> string list) set" where
  "asked_of iter v candidates = set (enumerate 0 (chunks (nat (MGetChunk (cfg v))) (iter (seat_keys candidates))))"

definition path_confirmed :: "(nat \<Rightarrow> string list \<Rightarrow> redis_value list option) \<Rightarrow> (string \<Rightarrow> seat_map option) \<Rightarrow>
    (nat \<times> string list) set \<Rightarrow> string \<Rightarrow> int \<Rightarrow> path \<Rightarrow> bool" where
  "path_confirmed mget unmarshal asked cls n p \<longleftrightarrow>
     (\<forall>l \<in> set (Legs p). needs_seat l \<longrightarrow>
        (\<exists>m. answered mget unmarshal asked (SeatMapKey (leg_TripID l) (leg_Date l)) m \<and> n \<le> gm_get m cls 0))"

lemma no_seat_keys: "seat_keys candidates = [] \<Longrightarrow> p \<in> set candidates \<Longrightarrow> l \<in> set (Legs p) \<Longrightarrow> \<not> needs_seat l"
  using seat_keys_set [of candidates] by (metis (mono_tags, lifting) empty_iff empty_set image_eqI mem_Collect_eq)

lemma set_truncate: "set (truncate_results v ps) \<subseteq> set ps"
  by (auto simp: truncate_results_def dest: in_set_takeD)

lemma strict_confirmed:
  assumes "Strict (cfg v)"
  shows "list_all (path_confirmed mget unmarshal (asked_of iter v candidates) cls n) (fst (Validate mget unmarshal iter now later candidates cls n v))"
proof (cases "length candidates = 0 \<or> length (seat_keys candidates) = 0")
  case True
  then show ?thesis
    using no_seat_keys set_truncate by (fastforce simp: Validate_def list_all_iff path_confirmed_def)
next
  case False
  show ?thesis
  proof (cases "has_rdb v \<and> fst (Allow now (cb v))")
    case go: True
    define cache where "cache = fetch_chunks mget unmarshal 0 (chunks (nat (MGetChunk (cfg v))) (iter (seat_keys candidates))) Map.empty"
    show ?thesis
    proof (cases cache)
      case (Some c)
      have "path_confirmed mget unmarshal (asked_of iter v candidates) cls n p"
        if "p \<in> set (survivors c cls n (MaxResults (cfg v)) [] candidates)" for p
      proof -
        from that have "legs_confirmed c cls n (Legs p)"
          by (auto simp: survivors_take Let_def split: if_splits dest: in_set_takeD)
        then show ?thesis
          using fetch_chunks_answered [OF Some [unfolded cache_def], of "asked_of iter v candidates"]
          by (fastforce simp: path_confirmed_def legs_confirmed_iff leg_key_def asked_of_def)
      qed
      then show ?thesis
        using False go Some by (auto simp: Validate_def Let_def cache_def [symmetric] list_all_iff split: prod.splits)
    qed (use False go assms in \<open>auto simp: Validate_def Let_def cache_def [symmetric] unavailable_def split: prod.splits\<close>)
  qed (use False assms in \<open>auto simp: Validate_def Let_def unavailable_def split: prod.splits\<close>)
qed

text \<open>C15: in strict mode no journey is returned whose seats Redis has not confirmed: for every
  vehicle leg one of the MGETs sent answered the key of its trip and date with a seat map that holds the
  requested number of seats of the class, whatever fails on the way.\<close>

theorem strict_returns_confirmed_only:
  assumes "Strict (cfg v)"
  shows "list_all (path_confirmed mget unmarshal (asked_of iter v candidates) cls n) (fst (Validate mget unmarshal iter now later candidates cls n v))"
  by (rule strict_confirmed [OF assms])

definition demo_leg :: leg where
  "demo_leg = \<lparr>Kind = LegTransit, leg_TripID = ''T1'', leg_Date = ''2026-08-27'', leg_RouteID = ''R1'',
     BoardStation = ''A'', AlightStation = ''B'', DepartureUnix = 100, ArrivalUnix = 200\<rparr>"

definition demo_path :: path where
  "demo_path = \<lparr>Legs = [demo_leg], path_DepartureUnix = 100, path_ArrivalUnix = 200, TotalTimeSeconds = 100,
     WaitSeconds = 0, Transfers = 0, path_WalkSeconds = 0, path_Rounds = 1\<rparr>"

definition demo_validator :: validator where
  "demo_validator = NewValidator True \<lparr>Strict = True, MGetChunk = 0, MaxResults = 3, BreakerThreshold = 5, BreakerCooldown = 10\<rparr>"

lemma demo_validate:
  "fst (Validate (\<lambda>j ks. Some [RedisText ''{SL:7}'']) (\<lambda>s. Some [(''SL'', 7)]) id 0 0 [demo_path] ''SL'' 2 demo_validator) = [demo_path]"
  by (simp add: Validate_def demo_validator_def NewValidator_def demo_path_def demo_leg_def seat_keys_def needs_seat_def
      WalkRouteID_def add_new_def Allow_def New_def chunks.simps DefaultMGetChunk_def read_chunk_def read_value_def
      leg_key_def gm_get_def Let_def)

lemma demo_asked: "asked_of id demo_validator [demo_path] = {(0, [''seat:map:T1:2026-08-27''])}"
  by (simp add: asked_of_def demo_validator_def NewValidator_def demo_path_def demo_leg_def seat_keys_def needs_seat_def
      WalkRouteID_def add_new_def chunks.simps DefaultMGetChunk_def leg_key_def SeatMapKey_def Let_def)

theorem strict_returns_confirmed_only_witness:
  "path_confirmed (\<lambda>j ks. Some [RedisText ''{SL:7}'']) (\<lambda>s. Some [(''SL'', 7)])
     {(0, [''seat:map:T1:2026-08-27''])} ''SL'' 2 demo_path"
proof -
  have "Strict (cfg demo_validator)" by (simp add: demo_validator_def NewValidator_def)
  from strict_returns_confirmed_only [OF this, of "\<lambda>j ks. Some [RedisText ''{SL:7}'']" "\<lambda>s. Some [(''SL'', 7)]" id "[demo_path]" "''SL''" 2 0 0]
  show ?thesis by (simp add: demo_validate demo_asked)
qed

lemma Validate_filters:
  "\<exists>P. fst (Validate mget unmarshal iter now later candidates cls n v) =
     (if MaxResults (cfg v) > 0 then take (nat (MaxResults (cfg v))) (filter P candidates) else filter P candidates)"
proof -
  have t: "truncate_results v candidates =
      (if MaxResults (cfg v) > 0 then take (nat (MaxResults (cfg v))) (filter (\<lambda>p. True) candidates) else filter (\<lambda>p. True) candidates)"
    by (auto simp: truncate_results_def)
  have none: "([] :: path list) = (if MaxResults (cfg v) > 0 then take (nat (MaxResults (cfg v))) (filter (\<lambda>p. False) candidates)
      else filter (\<lambda>p. False) candidates)" by simp
  have "fst (Validate mget unmarshal iter now later candidates cls n v) \<in>
      {truncate_results v candidates, []} \<union> range (\<lambda>cache. survivors cache cls n (MaxResults (cfg v)) [] candidates)"
    by (auto simp: Validate_def Let_def unavailable_def truncate_results_def split: prod.splits option.splits)
  then consider "fst (Validate mget unmarshal iter now later candidates cls n v) = truncate_results v candidates"
    | "fst (Validate mget unmarshal iter now later candidates cls n v) = []"
    | cache where "fst (Validate mget unmarshal iter now later candidates cls n v) = survivors cache cls n (MaxResults (cfg v)) [] candidates"
    by blast
  then show ?thesis
  proof cases
    case 1
    with t show ?thesis by metis
  next
    case 2
    with none show ?thesis by metis
  next
    case 3
    then show ?thesis
      by (intro exI [of _ "\<lambda>p. legs_confirmed cache cls n (Legs p)"]) (simp add: survivors_take Let_def)
  qed
qed

text \<open>The answer keeps the order of the candidates, drops some of them and is never longer than
  the configured maximum.\<close>

theorem Validate_keeps_order:
  "\<exists>P. fst (Validate mget unmarshal iter now later candidates cls n v) =
     (if MaxResults (cfg v) > 0 then take (nat (MaxResults (cfg v))) (filter P candidates) else filter P candidates)"
  by (rule Validate_filters)

text \<open>The breaker hears the outcome of every admitted validation exactly once: it stays as it was
  when nothing was asked of Redis or the call was refused, and otherwise it is told success
  when every MGET answered and failure when one did not.\<close>

theorem Validate_reports_to_breaker:
  "cb (snd (Validate mget unmarshal iter now later candidates cls n v)) =
     (if candidates = [] then cb v else if seat_keys candidates = [] then cb v else if has_rdb v = False then cb v
      else if fst (Allow now (cb v)) = False then cb v
      else if fetch_chunks mget unmarshal 0 (chunks (nat (MGetChunk (cfg v))) (iter (seat_keys candidates))) Map.empty = None
      then Failure later (snd (Allow now (cb v))) else Success (snd (Allow now (cb v))))"
  using breaker_gate.refused_same [of now "cb v"]
  by (auto simp: Validate_def Let_def split: prod.splits option.splits)

text \<open>Validations keep the breaker consistent, so its state says exactly whether a probe is in
  flight or the threshold is reached, and after one that Redis answered the next is admitted.\<close>

theorem Validate_keeps_breaker_consistent:
  assumes "breaker_inv (cb v)"
  shows "breaker_inv (cb (snd (Validate mget unmarshal iter now later candidates cls n v)))"
proof -
  have "breaker_inv (snd (Allow now (cb v)))" by (rule breaker_gate.ok_allow [OF assms])
  then show ?thesis
    using assms breaker_gate.ok_success breaker_gate.ok_failure
    by (auto simp: Validate_def Let_def split: prod.splits option.splits)
qed

theorem Validate_keeps_breaker_consistent_witness:
  "breaker_inv (cb (snd (Validate (\<lambda>j ks. None) (\<lambda>s. None) id 0 0 [demo_path] ''SL'' 2 demo_validator)))"
proof -
  have "breaker_inv (cb demo_validator)" by (simp add: demo_validator_def NewValidator_def breaker_inv_New)
  then show ?thesis by (rule Validate_keeps_breaker_consistent)
qed

text \<open>Every seat key of the candidates is asked for exactly once, in MGETs of between one and
  \<open>MGetChunk\<close> keys.\<close>

theorem MGET_chunks_cover_keys:
  assumes "\<And>ks. mset (iter ks) = mset ks"
  shows "mset (concat (chunks (nat (MGetChunk (cfg (NewValidator rdb c)))) (iter (seat_keys candidates)))) = mset (seat_keys candidates) \<and>
    distinct (seat_keys candidates) \<and>
    list_all (\<lambda>ch. 0 < length ch \<and> int (length ch) \<le> MGetChunk (cfg (NewValidator rdb c)))
      (chunks (nat (MGetChunk (cfg (NewValidator rdb c)))) (iter (seat_keys candidates)))"
proof -
  have pos: "0 < MGetChunk (cfg (NewValidator rdb c))" by (simp add: NewValidator_def DefaultMGetChunk_def Let_def)
  then have "int (length ch) \<le> MGetChunk (cfg (NewValidator rdb c)) \<and> ch \<noteq> []"
    if "ch \<in> set (chunks (nat (MGetChunk (cfg (NewValidator rdb c)))) xs)" for ch and xs :: "string list"
    using chunks_length [OF that] by auto
  with pos assms seat_keys_distinct show ?thesis by (auto simp: concat_chunks list_all_iff)
qed

theorem MGET_chunks_cover_keys_witness:
  "mset (concat (chunks (nat (MGetChunk (cfg demo_validator))) (rev (seat_keys [demo_path])))) = mset (seat_keys [demo_path])"
  using MGET_chunks_cover_keys [of rev True "\<lparr>Strict = True, MGetChunk = 0, MaxResults = 3, BreakerThreshold = 5, BreakerCooldown = 10\<rparr>" "[demo_path]"]
  by (simp add: demo_validator_def)

end
