(* ===== verification/Http_Api.thy ===== *)
theory Http_Api
  imports Engine_Frontier Validator Config Signal_State Loader
begin

text \<open>
  The HTTP surface of \<^verbatim>\<open>internal/api\<close>: parsing and answering a search (\<^verbatim>\<open>search.go\<close>), the readiness
  gate (\<^verbatim>\<open>middleware.go\<close>), the health and statistics bodies (\<^verbatim>\<open>health.go\<close>), and the server's
  validator (\<^verbatim>\<open>server.go\<close>). The accessors of the web framework are parameters; a
  response is its status and its body, without the durations and time stamps.
\<close>

section \<open>Parsing a search\<close>

text \<open>\<open>Query key default\<close> and \<open>QueryInt key default\<close> of the request.\<close>

record http_query =
  Query :: "string \<Rightarrow> string \<Rightarrow> string"
  QueryInt :: "string \<Rightarrow> int \<Rightarrow> int"

datatype parse_error = StationsOrDateMissing | SameStations | BadDate string | DepTimeMissing | BadDepTime string
  | NonPositiveDepTime | DepTimeTooFar int | SeatClassTooLong | TooManyPassengers | BadRounds | BadTransfer

definition maxDepartureUnix :: int where "maxDepartureUnix = 7258118400"

definition parseSearch :: "config \<Rightarrow> http_query \<Rightarrow> parse_error + search_params" where
  "parseSearch cf q =
     (let origin = trim_space (Query q ''origin'' []);
          destination = trim_space (Query q ''destination'' []);
          date = trim_space (Query q ''date'' [])
      in if origin = [] \<or> destination = [] \<or> date = [] then Inl StationsOrDateMissing
         else if origin = destination then Inl SameStations
         else if \<not> ValidDate date then Inl (BadDate date)
         else
           (let rawDep = trim_space (Query q ''dep_time'' []) in
            if rawDep = [] then Inl DepTimeMissing
            else case ParseInt64 rawDep of (dep, ok) \<Rightarrow>
              if \<not> ok then Inl (BadDepTime rawDep)
              else if dep \<le> 0 then Inl NonPositiveDepTime
              else if dep > maxDepartureUnix then Inl (DepTimeTooFar dep)
              else
                (let seatClass = trim_space (Query q ''seat_class'' ''lower'');
                     seatClass = (if seatClass = [] then ''lower'' else seatClass)
                 in if length seatClass > 32 then Inl SeatClassTooLong
                    else
                      (let passengers = QueryInt q ''passengers'' 1;
                           passengers = (if passengers < 1 then 1 else passengers)
                       in if passengers > MaxPassengers then Inl TooManyPassengers
                          else
                            (let maxRounds = QueryInt q ''max_rounds'' (c_MaxRounds cf) in
                             if maxRounds < 1 \<or> maxRounds > MaxAllowedRounds then Inl BadRounds
                             else
                               (let transfer = QueryInt q ''min_transfer'' (c_MinTransferSeconds cf) in
                                if transfer < 0 \<or> transfer > 6 * 3600 then Inl BadTransfer
                                else Inr \<lparr>Origin = origin, Destination = destination, SearchDate = date, DepTime = dep,
                                  SeatClass = seatClass, Passengers = passengers, MaxRounds = maxRounds,
                                  MinTransferSeconds = transfer, DateWindowDays = c_DateWindowDays cf\<rparr>))))))"

definition stationKnown :: "route_buffer \<Rightarrow> string \<Rightarrow> bool" where
  "stationKnown buf station \<longleftrightarrow>
     (if map_of (StopToRoutes buf) station \<noteq> None then True else map_of (Footpaths buf) station \<noteq> None)"

section \<open>Answering it\<close>

definition validator_config_of :: "config \<Rightarrow> validator_config" where
  "validator_config_of cf =
     \<lparr>Strict = StrictSeatMode cf, MGetChunk = RedisMGetChunk cf, MaxResults = SearchResults cf,
      BreakerThreshold = c_BreakerThreshold cf, BreakerCooldown = c_BreakerCooldown cf\<rparr>"

definition NewServer :: "config \<Rightarrow> bool \<Rightarrow> config \<times> validator" where
  "NewServer cf rdb = (cf, NewValidator rdb (validator_config_of cf))"

record search_body =
  paths :: "path list"
  result_count :: int
  candidate_count :: int
  rejected_by_seats :: int
  seat_validation :: string
  max_rounds :: int
  min_transfer_seconds :: int

datatype search_response = BadRequest parse_error | UnknownOrigin string | UnknownDestination string | SearchOK search_body

definition search_status :: "search_response \<Rightarrow> int" where
  "search_status r = (case r of BadRequest e \<Rightarrow> 400 | UnknownOrigin s \<Rightarrow> 404 | UnknownDestination s \<Rightarrow> 404 | SearchOK b \<Rightarrow> 200)"

text \<open>
  What a request meets beside the configuration: the schedule that is live when the stations are
  checked and the one that is live when the search reads it, the signals, the cancellation and the
  map orders of the search, and the replies, decoder, key order and clock of the validation.
\<close>

record request_env =
  rq_checked :: route_buffer
  rq_live :: route_buffer
  rq_signals :: signal_buffer
  rq_cancelled :: "nat \<Rightarrow> bool"
  rq_orders :: map_orders
  rq_mget :: "nat \<Rightarrow> string list \<Rightarrow> redis_value list option"
  rq_unmarshal :: "string \<Rightarrow> seat_map option"
  rq_iter :: "string list \<Rightarrow> string list"
  rq_now :: int
  rq_later :: int
  rq_end :: int

definition handleSearch :: "config \<Rightarrow> http_query \<Rightarrow> request_env \<Rightarrow> validator \<Rightarrow> search_response \<times> validator" where
  "handleSearch cf q rq v =
     (case parseSearch cf q of
        Inl err \<Rightarrow> (BadRequest err, v)
      | Inr p \<Rightarrow>
          (let buf = rq_checked rq in
           if \<not> stationKnown buf (Origin p) then (UnknownOrigin (Origin p), v)
           else if \<not> stationKnown buf (Destination p) then (UnknownDestination (Destination p), v)
           else
             (let candidates = RaptorSearch (rq_cancelled rq) (rq_orders rq) (Some (rq_live rq)) (rq_signals rq) p (SearchCandidates cf);
                  (final, v) = Validate (rq_mget rq) (rq_unmarshal rq) (rq_iter rq) (rq_now rq) (rq_later rq) candidates
                    (SeatClass p) (Passengers p) v
              in (SearchOK \<lparr>paths = final, result_count = int (length final), candidate_count = int (length candidates),
                    rejected_by_seats = int (length candidates) - int (length final), seat_validation = Status (rq_end rq) v,
                    max_rounds = Rounds p, min_transfer_seconds = TransferBuffer p\<rparr>, v))))"

text \<open>The gate in front of the API: \<open>None\<close> passes the request on.\<close>

definition readyGate :: "app_state \<Rightarrow> int option" where
  "readyGate app = (if \<not> IsReady app then Some 503 else None)"

section \<open>Health\<close>

definition handleLive :: "int \<times> string" where "handleLive = (200, ''alive'')"

definition staleAlertFraction :: rat where "staleAlertFraction = 1 / 2"

definition degradation :: "int \<Rightarrow> app_state \<Rightarrow> validator \<Rightarrow> string" where
  "degradation now app v =
     (if \<not> HasSeatData app then ''degraded_no_seat_data''
      else if \<not> validator_healthy now v then ''degraded_seat_validation_unavailable''
      else if StaleFraction app > staleAlertFraction then ''degraded_stale_seat_data''
      else ''ready'')"

text \<open>Truncation toward zero.\<close>

definition trunc :: "rat \<Rightarrow> int" where
  "trunc f = (if f < 0 then \<lceil>f\<rceil> else \<lfloor>f\<rfloor>)"

definition round2 :: "rat \<Rightarrow> rat" where
  "round2 f = of_int (trunc (f * 100 + 1 / 2)) / 100"

record health_body =
  hb_ready :: bool
  hb_stats :: stats
  hb_signals :: int
  hb_stale :: int
  hb_stale_fraction :: rat
  hb_age :: int
  hb_has_data :: bool
  hb_validation :: string
  hb_provider :: string
  hb_strict :: bool

definition healthBody :: "config \<Rightarrow> int \<Rightarrow> int \<Rightarrow> route_buffer \<Rightarrow> app_state \<Rightarrow> validator \<Rightarrow> health_body" where
  "healthBody cf now_unix now buf app v =
     \<lparr>hb_ready = IsReady app, hb_stats = Stats buf, hb_signals = SignalCount app, hb_stale = StaleSignalCount app,
      hb_stale_fraction = round2 (StaleFraction app), hb_age = SeatDataAge now_unix app, hb_has_data = HasSeatData app,
      hb_validation = Status now v, hb_provider = SeatProvider cf, hb_strict = StrictSeatMode cf\<rparr>"

text \<open>The status code, the status text and the body.\<close>

definition handleReady :: "config \<Rightarrow> int \<Rightarrow> int \<Rightarrow> route_buffer \<Rightarrow> app_state \<Rightarrow> validator \<Rightarrow> int \<times> string \<times> health_body" where
  "handleReady cf now_unix now buf app v =
     (let body = healthBody cf now_unix now buf app v in
      if \<not> IsReady app then (503, ''warming_up'', body) else (200, degradation now app v, body))"

record stats_body =
  sb_schedule :: stats
  sb_signals :: int
  sb_stale :: int
  sb_stale_fraction :: rat
  sb_age :: int
  sb_provider :: string
  sb_validation :: string
  sb_healthy :: bool
  sb_search :: "int \<times> int \<times> int \<times> int \<times> bool \<times> int"

definition handleStats :: "config \<Rightarrow> int \<Rightarrow> int \<Rightarrow> route_buffer \<Rightarrow> app_state \<Rightarrow> validator \<Rightarrow> stats_body" where
  "handleStats cf now_unix now buf app v =
     \<lparr>sb_schedule = Stats buf, sb_signals = SignalCount app, sb_stale = StaleSignalCount app,
      sb_stale_fraction = round2 (StaleFraction app), sb_age = SeatDataAge now_unix app, sb_provider = SeatProvider cf,
      sb_validation = Status now v, sb_healthy = validator_healthy now v,
      sb_search = (c_MaxRounds cf, c_MinTransferSeconds cf, c_DateWindowDays cf, SearchResults cf, StrictSeatMode cf, RedisMGetChunk cf)\<rparr>"

section \<open>Lemmas\<close>

lemma parseSearch_Inr:
  assumes "parseSearch cf q = Inr p"
  shows "Origin p \<noteq> [] \<and> Destination p \<noteq> [] \<and> Origin p \<noteq> Destination p \<and> ValidDate (SearchDate p)"
    and "0 < DepTime p \<and> DepTime p \<le> maxDepartureUnix"
    and "SeatClass p \<noteq> [] \<and> length (SeatClass p) \<le> 32 \<and> 1 \<le> Passengers p \<and> Passengers p \<le> MaxPassengers"
    and "1 \<le> MaxRounds p \<and> MaxRounds p \<le> MaxAllowedRounds"
    and "0 \<le> MinTransferSeconds p \<and> MinTransferSeconds p \<le> 21600 \<and> DateWindowDays p = c_DateWindowDays cf"
  using assms unfolding parseSearch_def Let_def by (auto simp: MaxPassengers_def split: if_splits prod.splits)

lemma handleSearch_OK:
  assumes "handleSearch cf q rq v = (SearchOK b, v')"
  obtains p where "parseSearch cf q = Inr p" "stationKnown (rq_checked rq) (Origin p)" "stationKnown (rq_checked rq) (Destination p)"
    "Validate (rq_mget rq) (rq_unmarshal rq) (rq_iter rq) (rq_now rq) (rq_later rq)
       (RaptorSearch (rq_cancelled rq) (rq_orders rq) (Some (rq_live rq)) (rq_signals rq) p (SearchCandidates cf))
       (SeatClass p) (Passengers p) v = (paths b, v')"
    "result_count b = int (length (paths b))"
    "candidate_count b = int (length (RaptorSearch (rq_cancelled rq) (rq_orders rq) (Some (rq_live rq)) (rq_signals rq) p (SearchCandidates cf)))"
    "rejected_by_seats b = candidate_count b - result_count b"
  using assms by (auto simp: handleSearch_def Let_def split: sum.splits if_splits prod.splits)

lemma buffer_wf_flags: "buffer_wf b \<Longrightarrow> flags_ok b"
  by (auto simp: buffer_wf_def flags_ok_def IsFIFO_def)

lemma published_flags_ok: "schedule_reachable sha256 st \<Longrightarrow> flags_ok (live st)"
  by (rule buffer_wf_flags [OF schedule_reachable_wf])

lemma Validate_cfg: "cfg (snd (Validate mget unmarshal iter now later cs cls n v)) = cfg v"
  by (auto simp: Validate_def Let_def split: prod.splits option.splits)

lemma sorted_wrt_filter_take: "sorted_wrt P xs \<Longrightarrow> sorted_wrt P (take k (filter Q xs))"
  by (simp add: sorted_wrt_take sorted_wrt_filter)

lemma validator_of_config:
  "c_BreakerThreshold cf \<ge> 1 \<Longrightarrow> RedisMGetChunk cf \<ge> 1 \<Longrightarrow> cfg (snd (NewServer cf rdb)) = validator_config_of cf"
  by (simp add: NewServer_def NewValidator_def validator_config_of_def Let_def)

section \<open>Properties\<close>

text \<open>C30: a request that is accepted asks for a search the engine is defined for: different
  stations, a valid date, a departure in the plausible range, between one and twenty passengers;
  and the rounds and transfer time the search then uses are the ones of the request, not a default
  or a limit.\<close>

theorem parseSearch_typed:
  assumes "parseSearch cf q = Inr p"
  shows "Origin p \<noteq> [] \<and> Destination p \<noteq> [] \<and> Origin p \<noteq> Destination p \<and> ValidDate (SearchDate p) \<and>
    0 < DepTime p \<and> DepTime p \<le> maxDepartureUnix \<and> SeatClass p \<noteq> [] \<and> length (SeatClass p) \<le> 32 \<and>
    1 \<le> Passengers p \<and> Passengers p \<le> MaxPassengers \<and>
    Rounds p = MaxRounds p \<and> 1 \<le> Rounds p \<and> Rounds p \<le> MaxAllowedRounds \<and>
    TransferBuffer p = MinTransferSeconds p \<and> 0 \<le> TransferBuffer p \<and> TransferBuffer p \<le> 21600"
  using parseSearch_Inr [OF assms]
  by (simp add: Rounds_def TransferBuffer_def DefaultMinTransferSeconds_def Let_def)

text \<open>A request for the witnesses.\<close>

definition sample_query :: http_query where
  "sample_query =
     \<lparr>Query = (\<lambda>k d. if k = ''origin'' then '' A'' else if k = ''destination'' then ''E'' else if k = ''date'' then ''2026-08-27''
        else if k = ''dep_time'' then ''50'' else if k = ''seat_class'' then ''SL'' else d),
      QueryInt = (\<lambda>k d. if k = ''max_rounds'' then 2 else if k = ''passengers'' then -3 else d)\<rparr>"

definition sample_config :: config where
  "sample_config = (read_env (\<lambda>k. []))\<lparr>SearchCandidates := 5, c_DateWindowDays := 1, StrictSeatMode := True\<rparr>"

lemma sample_config_fields:
  "c_MaxRounds sample_config = 4" "c_MinTransferSeconds sample_config = 0" "c_DateWindowDays sample_config = 1"
  "SearchCandidates sample_config = 5" "SearchResults sample_config = 5" "StrictSeatMode sample_config"
  "RedisMGetChunk sample_config = 512" "c_BreakerThreshold sample_config = 5" "config_problems sample_config = []"
  unfolding config_problems_Nil
  by (simp_all add: sample_config_def read_env_def envInt_def env_def envBool_def trim_space_def DefaultMaxRounds_def
      DefaultMinTransferSeconds_def DefaultDateWindowDays_def DefaultMaxWalkSeconds_def DefaultMaxFootpathsPerStation_def
      MaxAllowedRounds_def i32_def to_lower_def)

lemma sample_parse: "parseSearch sample_config sample_query = Inr sample_params"
proof -
  have "show_nat 50 = ''50''" by code_simp
  with ParseInt64_show_nat [of 50] have "ParseInt64 ''50'' = (50, True)" by simp
  moreover have "ValidDate ''2026-08-27''" by code_simp
  ultimately show ?thesis
    by (simp add: parseSearch_def sample_query_def sample_params_def trim_space_def is_space_def Let_def maxDepartureUnix_def
        MaxPassengers_def MaxAllowedRounds_def sample_config_fields)
qed

theorem parseSearch_typed_witness: "1 \<le> Passengers sample_params \<and> Rounds sample_params = 2"
  using parseSearch_typed [OF sample_parse] by (simp add: sample_params_def)

text \<open>The readiness probe tells the truth: it answers 503 exactly while the service is warming up,
  and says ready exactly when seat data has been loaded, seats can be validated and at most half of
  the signals are stale.\<close>

theorem readiness_is_truthful:
  "handleReady cf now_unix now buf app v = (code, status, body) \<longleftrightarrow>
     (code = 503 \<longleftrightarrow> \<not> IsReady app) \<and> (code = 200 \<longleftrightarrow> IsReady app) \<and> body = healthBody cf now_unix now buf app v \<and>
     (status = ''warming_up'' \<longleftrightarrow> \<not> IsReady app) \<and>
     (status = ''ready'' \<longleftrightarrow> IsReady app \<and> HasSeatData app \<and> validator_healthy now v \<and> StaleFraction app \<le> 1 / 2) \<and>
     status \<in> {''warming_up'', ''ready'', ''degraded_no_seat_data'', ''degraded_seat_validation_unavailable'', ''degraded_stale_seat_data''} \<and>
     (status = ''degraded_no_seat_data'' \<longleftrightarrow> IsReady app \<and> \<not> HasSeatData app) \<and>
     (status = ''degraded_seat_validation_unavailable'' \<longleftrightarrow> IsReady app \<and> HasSeatData app \<and> \<not> validator_healthy now v)"
  by (auto simp: handleReady_def degradation_def staleAlertFraction_def Let_def)

text \<open>The count of journeys rejected by seats is not that: when no seat is checked at all,
  because there is no Redis client in the lenient mode, every journey cut off by the result limit
  is counted as rejected.\<close>

theorem rejected_by_seats_counts_truncated:
  assumes "handleSearch cf q rq (NewValidator False (validator_config_of cf)) = (SearchOK b, v')"
    and "\<not> StrictSeatMode cf" "0 < SearchResults cf"
  shows "rejected_by_seats b = max 0 (candidate_count b - SearchResults cf)"
proof -
  let ?v = "NewValidator False (validator_config_of cf)"
  from handleSearch_OK [OF assms(1)] obtain p where
    val: "Validate (rq_mget rq) (rq_unmarshal rq) (rq_iter rq) (rq_now rq) (rq_later rq)
       (RaptorSearch (rq_cancelled rq) (rq_orders rq) (Some (rq_live rq)) (rq_signals rq) p (SearchCandidates cf))
       (SeatClass p) (Passengers p) ?v = (paths b, v')"
    and count: "result_count b = int (length (paths b))"
      "candidate_count b = int (length (RaptorSearch (rq_cancelled rq) (rq_orders rq) (Some (rq_live rq)) (rq_signals rq) p (SearchCandidates cf)))"
      "rejected_by_seats b = candidate_count b - result_count b"
    by metis
  let ?cs = "RaptorSearch (rq_cancelled rq) (rq_orders rq) (Some (rq_live rq)) (rq_signals rq) p (SearchCandidates cf)"
  have v: "MaxResults (cfg ?v) = SearchResults cf" "\<not> Strict (cfg ?v)" "\<not> has_rdb ?v"
    using assms(2) by (simp_all add: NewValidator_def validator_config_of_def Let_def)
  have "paths b = truncate_results ?v ?cs"
    using val v by (auto simp: Validate_def unavailable_def truncate_results_def split: if_splits)
  with v count assms(3) show ?thesis by (auto simp: truncate_results_def)
qed

end
