(* ===== verification/Http_App.thy ===== *)
theory Http_App
  imports Http_Api
begin

text \<open>
  The application that \<open>BuildApp\<close> of \<^verbatim>\<open>internal/api/server.go\<close> puts together: its settings, the middleware and routes in
  the order of their registration, the way a request takes through them, and the error handler. The web framework is a
  parameter: a request is what its middleware and router say of it.
\<close>

section \<open>The application\<close>

record fiber_config =
  fc_ReadTimeout :: int
  fc_WriteTimeout :: int
  fc_IdleTimeout :: int
  fc_BodyLimit :: int

definition fiber_config_of :: "config \<Rightarrow> fiber_config" where
  "fiber_config_of cf =
     \<lparr>fc_ReadTimeout = HTTPReadTimeout cf, fc_WriteTimeout = HTTPReadTimeout cf, fc_IdleTimeout = seconds 60,
      fc_BodyLimit = BodyLimitBytes cf\<rparr>"

text \<open>What is registered: middleware of the framework, routes, the group with its gate, the files.\<close>

datatype entry = UseRecover | UseRequestID | UseCORS string string | RouteLive string | RouteReady string | UseLimiter int
  | GroupGate string | RouteSearch string | RouteStats string | StaticRoot string

definition BuildApp :: "config \<Rightarrow> entry list" where
  "BuildApp cf =
     [UseRecover, UseRequestID, UseCORS (CORSOrigins cf) ''GET,OPTIONS'', RouteLive ''/healthz/live'', RouteReady ''/healthz/ready''] @
     (if RateLimitPerMin cf > 0 then [UseLimiter (RateLimitPerMin cf)] else []) @
     [GroupGate ''/api'', RouteSearch ''/api/search'', RouteStats ''/api/stats'', StaticRoot (WebRoot cf)]"

text \<open>
  A request as the framework sees it: the routes and groups its method and path match, whether the
  CORS middleware answers it itself, whether it exceeds a limit, whether a file below the root matches, and the identifier the
  middleware stored, if it did.
\<close>

record http_call =
  on_route :: "string \<Rightarrow> bool"
  in_group :: "string \<Rightarrow> bool"
  preflight :: bool
  over_limit :: "int \<Rightarrow> bool"
  has_file :: "string \<Rightarrow> bool"
  request_id :: "string option"

section \<open>Serving a request\<close>

datatype served = Preflight | LiveProbe | ReadyProbe | RateLimited | WarmingUp | SearchHandler | StatsHandler | StaticFile | Unmatched

text \<open>The first entry that answers; the others pass the request on.\<close>

fun dispatch :: "http_call \<Rightarrow> app_state \<Rightarrow> entry list \<Rightarrow> served" where
  "dispatch r app [] = Unmatched"
| "dispatch r app (UseRecover # es) = dispatch r app es"
| "dispatch r app (UseRequestID # es) = dispatch r app es"
| "dispatch r app (UseCORS origins methods # es) = (if preflight r then Preflight else dispatch r app es)"
| "dispatch r app (RouteLive p # es) = (if on_route r p then LiveProbe else dispatch r app es)"
| "dispatch r app (RouteReady p # es) = (if on_route r p then ReadyProbe else dispatch r app es)"
| "dispatch r app (UseLimiter m # es) = (if over_limit r m then RateLimited else dispatch r app es)"
| "dispatch r app (GroupGate p # es) = (if in_group r p \<and> readyGate app \<noteq> None then WarmingUp else dispatch r app es)"
| "dispatch r app (RouteSearch p # es) = (if on_route r p then SearchHandler else dispatch r app es)"
| "dispatch r app (RouteStats p # es) = (if on_route r p then StatsHandler else dispatch r app es)"
| "dispatch r app (StaticRoot dir # es) = (if has_file r dir then StaticFile else dispatch r app es)"

text \<open>
  How a handler ends. The errors are those of the framework, with a code and a message, and all
  others; the recover middleware makes an error of what a handler panics with.
\<close>

datatype handler_error = FiberError int string | OtherError

datatype outcome = Responds int | Fails handler_error | Panics handler_error

definition requestID :: "http_call \<Rightarrow> string" where
  "requestID r = (case request_id r of Some v \<Rightarrow> v | None \<Rightarrow> [])"

definition errorHandler :: "handler_error \<Rightarrow> http_call \<Rightarrow> int \<times> string \<times> string" where
  "errorHandler err r =
     (let (code, fe) = (case err of FiberError code msg \<Rightarrow> (code, Some msg) | OtherError \<Rightarrow> (500, None));
          msg = (case fe of Some m \<Rightarrow> m | None \<Rightarrow> ''internal_error'')
      in (code, msg, requestID r))"

text \<open>The status of the response and, after an error, its message and identifier; \<open>None\<close> is a panic
  that no middleware catches, which ends the process.\<close>

definition respond :: "entry list \<Rightarrow> http_call \<Rightarrow> outcome \<Rightarrow> (int \<times> (string \<times> string) option) option" where
  "respond es r out =
     (case out of
        Responds code \<Rightarrow> Some (code, None)
      | Fails err \<Rightarrow> (case errorHandler err r of (code, msg, rid) \<Rightarrow> Some (code, Some (msg, rid)))
      | Panics err \<Rightarrow>
          if UseRecover \<in> set es
          then (case errorHandler err r of (code, msg, rid) \<Rightarrow> Some (code, Some (msg, rid)))
          else None)"

section \<open>Properties\<close>

lemma dispatch_BuildApp:
  "dispatch r app (BuildApp cf) =
     (if preflight r then Preflight else if on_route r ''/healthz/live'' then LiveProbe
      else if on_route r ''/healthz/ready'' then ReadyProbe
      else if 0 < RateLimitPerMin cf \<and> over_limit r (RateLimitPerMin cf) then RateLimited
      else if in_group r ''/api'' \<and> \<not> IsReady app then WarmingUp
      else if on_route r ''/api/search'' then SearchHandler else if on_route r ''/api/stats'' then StatsHandler
      else if has_file r (WebRoot cf) then StaticFile else Unmatched)"
  by (simp add: BuildApp_def readyGate_def)

text \<open>The probes answer whatever the limiter and the readiness say; where the paths of the two
  routes lie in the group, a request reaches a handler of the API only when the service is ready and the client below its
  limit; a limit of 0 turns the limiter off; and no panic of a handler escapes.\<close>

theorem requests_are_gated:
  assumes "\<And>p. p \<in> {''/api/search'', ''/api/stats''} \<Longrightarrow> on_route r p \<Longrightarrow> in_group r ''/api''" "\<not> preflight r"
  shows "(dispatch r app (BuildApp cf) \<in> {LiveProbe, ReadyProbe} \<longleftrightarrow> on_route r ''/healthz/live'' \<or> on_route r ''/healthz/ready'') \<and>
    (dispatch r app (BuildApp cf) \<in> {SearchHandler, StatsHandler} \<longrightarrow>
       IsReady app \<and> \<not> (0 < RateLimitPerMin cf \<and> over_limit r (RateLimitPerMin cf))) \<and>
    (dispatch r app (BuildApp cf) = RateLimited \<longrightarrow> 0 < RateLimitPerMin cf) \<and>
    respond (BuildApp cf) r out \<noteq> None"
proof -
  have "UseRecover \<in> set (BuildApp cf)" by (simp add: BuildApp_def)
  then have "respond (BuildApp cf) r out \<noteq> None" by (auto simp: respond_def split: outcome.splits prod.splits)
  moreover have "in_group r ''/api''" if "on_route r ''/api/search'' \<or> on_route r ''/api/stats''" using assms(1) that by blast
  ultimately show ?thesis using assms(2) by (simp add: dispatch_BuildApp)
qed

theorem requests_are_gated_witness:
  "let r = \<lparr>on_route = (\<lambda>p. p = ''/api/search''), in_group = (\<lambda>p. p = ''/api''), preflight = False, over_limit = (\<lambda>m. False),
       has_file = (\<lambda>p. False), request_id = Some ''id''\<rparr>
   in dispatch r init_app (BuildApp sample_config) = WarmingUp \<and> respond (BuildApp sample_config) r (Panics OtherError) \<noteq> None"
proof -
  define r where "r = \<lparr>on_route = (\<lambda>p. p = ''/api/search''), in_group = (\<lambda>p. p = ''/api''), preflight = False, over_limit = (\<lambda>m. False),
       has_file = (\<lambda>p. False), request_id = Some ''id''\<rparr>"
  have "dispatch r init_app (BuildApp sample_config) = WarmingUp"
    by (simp add: BuildApp_def r_def readyGate_def IsReady_def init_app_def)
  then show ?thesis
    using requests_are_gated [of r init_app sample_config "Panics OtherError"] unfolding r_def [symmetric] by (simp add: r_def)
qed

end
