(* ===== verification/Engine_Complete.thy ===== *)
theory Engine_Complete
  imports Engine_Frontier
begin

text \<open>
  No label of \<^verbatim>\<open>internal/raptor/engine.go\<close> is thrown away. On a schedule whose trips never arrive
  before they left, whose station and trip IDs are not empty and whose times are far from the ends
  of \<open>int64\<close>, every label of the destination is rebuilt into a journey: the journal has no cycle,
  the step limit of \<open>buildPath\<close> is enough, two walks never follow each other, and the path check
  accepts the result. The branches that discard a label are dead code there.
\<close>

section \<open>Well-formed searches\<close>

definition timed_trip :: "trip_stop_times \<Rightarrow> bool" where
  "timed_trip t \<longleftrightarrow> TripID (Key t) \<noteq> [] \<and> list_all (\<lambda>a. a < 2 ^ 62) (Arrivals t) \<and>
     (\<forall>i j. i < j \<longrightarrow> i < length (Departures t) \<longrightarrow> j < length (Arrivals t) \<longrightarrow> Departures t ! i \<le> Arrivals t ! j)"

definition buffer_timed :: "route_buffer \<Rightarrow> bool" where
  "buffer_timed buf \<longleftrightarrow>
     (\<forall>r \<in> set (Routes buf). [] \<notin> set (StopIDs r)) \<and>
     (\<forall>ts \<in> set (StopTimes buf). \<forall>t \<in> set ts. timed_trip t) \<and>
     (\<forall>(st, fps) \<in> set (Footpaths buf). st \<noteq> [] \<and> (\<forall>fp \<in> set fps. 0 \<le> WalkSeconds fp \<and> WalkSeconds fp < 2 ^ 61))"

definition params_timed :: "search_params \<Rightarrow> bool" where
  "params_timed p \<longleftrightarrow> 0 \<le> DepTime p \<and> DepTime p < 2 ^ 62 \<and> TransferBuffer p < 2 ^ 61"

definition search_timed :: "search_env \<Rightarrow> bool" where
  "search_timed E \<longleftrightarrow> buffer_timed (routes E) \<and> params_timed (params E) \<and> xferSec E = TransferBuffer (params E)"

lemma timed_ride:
  assumes "search_timed E" "ride_exists E route t i j"
  shows "Departures t ! i \<le> Arrivals t ! j" "Arrivals t ! j < 2 ^ 62" "StopIDs route ! i \<noteq> []" "TripID (Key t) \<noteq> []"
proof -
  have t: "timed_trip t" and r: "[] \<notin> set (StopIDs route)"
    using assms by (auto simp: search_timed_def buffer_timed_def ride_exists_def)
  then show "Departures t ! i \<le> Arrivals t ! j" "Arrivals t ! j < 2 ^ 62" "TripID (Key t) \<noteq> []"
    using assms(2) by (auto simp: timed_trip_def ride_exists_def list_all_length)
  show "StopIDs route ! i \<noteq> []"
    using assms(2) r by (metis less_trans nth_mem ride_exists_def)
qed

lemma timed_walk:
  assumes "search_timed E" "fp \<in> set (gm_get (Footpaths (routes E)) st [])"
  shows "0 \<le> WalkSeconds fp" "WalkSeconds fp < 2 ^ 61" "st \<noteq> []"
proof -
  from assms(2) obtain fps where "map_of (Footpaths (routes E)) st = Some fps" "fp \<in> set fps"
    by (cases "map_of (Footpaths (routes E)) st") (auto simp: gm_get_def)
  then have "(st, fps) \<in> set (Footpaths (routes E))" "fp \<in> set fps" by (auto dest: map_of_SomeD)
  then show "0 \<le> WalkSeconds fp" "WalkSeconds fp < 2 ^ 61" "st \<noteq> []"
    using assms(1) by (auto simp: search_timed_def buffer_timed_def)
qed

section \<open>The time invariant\<close>

definition entry_timed :: "search_env \<Rightarrow> string \<Rightarrow> journal_entry \<Rightarrow> bool" where
  "entry_timed E st e \<longleftrightarrow>
     je_from e \<noteq> [] \<and> je_from e \<noteq> st \<and> je_departure e \<le> je_arrival e \<and> DepTime (params E) \<le> je_departure e \<and>
     (je_kind e = LegTransit \<longrightarrow> TripID (je_tripKey e) \<noteq> [] \<and> je_arrival e < 2 ^ 62)"

definition reached_by :: "search_env \<Rightarrow> search_state \<Rightarrow> string \<Rightarrow> int \<Rightarrow> bool" where
  "reached_by E s st a \<longleftrightarrow> DepTime (params E) \<le> a \<and> (\<exists>b. best s st = Some b \<and> b \<le> a)"

definition times_ok :: "search_env \<Rightarrow> search_state \<Rightarrow> bool" where
  "times_ok E s \<longleftrightarrow>
     (\<forall>j st a. tau s j st = Some a \<longrightarrow> reached_by E s st a) \<and>
     (\<forall>j st e. journal s j st = Some e \<or> preWalk s j st = Some e \<longrightarrow> entry_timed E st e)"

definition times_scanning :: "search_env \<Rightarrow> nat \<Rightarrow> work \<Rightarrow> bool" where
  "times_scanning E k w \<longleftrightarrow> labels_scanning E k w \<and> (search_timed E \<longrightarrow> times_ok E (fst w))"

definition times_walking :: "search_env \<Rightarrow> nat \<Rightarrow> (string \<times> int) list \<Rightarrow> work \<Rightarrow> bool" where
  "times_walking E k srcs w \<longleftrightarrow> labels_walking E k srcs w \<and>
     (search_timed E \<longrightarrow> times_ok E (fst w) \<and> (\<forall>(st, d) \<in> set srcs. reached_by E (fst w) st d \<and> d < 2 ^ 62))"

definition times_settled :: "search_env \<Rightarrow> nat \<Rightarrow> search_state \<Rightarrow> bool" where
  "times_settled E k s \<longleftrightarrow> labels_ok E k s \<and> (search_timed E \<longrightarrow> times_ok E s)"

lemma improves_less: "improves E s a st \<Longrightarrow> best s st = Some b \<Longrightarrow> a < b"
  by (auto simp: improves_def split: if_splits option.splits)

text \<open>A recorded label is better than what was known of its station, so nothing gets later.\<close>

lemma reached_by_set_label:
  assumes "reached_by E (fst w) st a" "improves E (fst w) arr st'"
  shows "reached_by E (fst (set_label k st' arr e w)) st a"
  using assms improves_less [OF assms(2)] by (fastforce simp: reached_by_def)

lemma times_ok_set_label:
  assumes "times_ok E (fst w)" "improves E (fst w) arr st" "DepTime (params E) \<le> arr" "entry_timed E st e"
  shows "times_ok E (fst (set_label k st arr e w))"
proof -
  have "reached_by E (fst (set_label k st arr e w)) st arr" using assms(3) by (simp add: reached_by_def)
  moreover have "reached_by E (fst (set_label k st arr e w)) st' a" if "tau (fst w) j st' = Some a" for j st' a
    using assms(1) that reached_by_set_label [OF _ assms(2)] by (simp add: times_ok_def)
  ultimately have "\<forall>j st' a. tau (fst (set_label k st arr e w)) j st' = Some a \<longrightarrow>
      reached_by E (fst (set_label k st arr e w)) st' a" by simp
  moreover have "\<forall>j st' e'. journal (fst (set_label k st arr e w)) j st' = Some e' \<or>
      preWalk (fst (set_label k st arr e w)) j st' = Some e' \<longrightarrow> entry_timed E st' e'"
    using assms(1,4) by (auto simp: times_ok_def)
  ultimately show ?thesis by (simp add: times_ok_def)
qed

text \<open>What a passenger may board with is no earlier than the label, and the sum does not wrap.\<close>

lemma ready_at_bounds:
  assumes "search_timed E" "times_ok E s" "label_ok E s (k - 1) st" "ready_at E k s st = Some rdy"
  shows "\<exists>a. tau s (k - 1) st = Some a \<and> a \<le> rdy"
proof -
  from assms(4) obtain a where a: "tau s (k - 1) st = Some a"
    by (auto simp: ready_at_def split: option.splits)
  show ?thesis
  proof (cases "\<exists>e. journal s (k - 1) st = Some e \<and> je_kind e = LegTransit")
    case True
    then obtain e where e: "journal s (k - 1) st = Some e" "je_kind e = LegTransit" by blast
    with assms(2,3) a have "a < 2 ^ 62" "DepTime (params E) \<le> a"
      by (auto simp: times_ok_def label_ok_def entry_timed_def reached_by_def)
    moreover have "0 \<le> xferSec E" "xferSec E < 2 ^ 61" "0 \<le> DepTime (params E)"
      using assms(1) TransferBuffer_nonneg by (auto simp: search_timed_def params_timed_def)
    ultimately have "i64 (a + xferSec E) = a + xferSec E" "0 \<le> xferSec E" by (auto simp: i64_plus)
    with a e assms(4) show ?thesis by (simp add: ready_at_def)
  next
    case False
    with a assms(4) have "rdy = a" by (auto simp: ready_at_def split: option.splits if_splits)
    with a show ?thesis by simp
  qed
qed

lemma times_start:
  assumes "snapshot_of 0 (init_state (params E)) [Origin (params E)] s srcs"
  shows "times_walking E 0 srcs (s, [Origin (params E)])"
proof -
  have eq: "tau s = tau (init_state (params E))" "journal s = journal (init_state (params E))"
      "best s = best (init_state (params E))"
    and pw: "preWalk s j st = None" for j st
    using assms by (cases "j = 0"; fastforce simp: snapshot_of_def init_state_def)+
  have src: "st = Origin (params E) \<and> d = DepTime (params E)" if "(st, d) \<in> set srcs" for st d
  proof -
    from assms that have "st \<in> set [Origin (params E)]" "tau (init_state (params E)) 0 st = Some d"
      unfolding snapshot_of_def by blast+
    then show ?thesis by (simp add: init_state_def)
  qed
  have "times_ok E s"
    using pw by (auto simp: times_ok_def eq init_state_def reached_by_def split: if_splits)
  moreover have "\<forall>(st, d) \<in> set srcs. reached_by E s st d \<and> d < 2 ^ 62" if "search_timed E"
    using that src by (auto simp: reached_by_def eq init_state_def search_timed_def params_timed_def)
  ultimately show ?thesis using labels_start [OF assms] by (simp add: times_walking_def)
qed

lemma times_copy:
  assumes "1 \<le> k" "times_settled E (k - 1) s"
  shows "times_scanning E k (copy_labels k s, [])"
proof -
  have "times_ok E s \<Longrightarrow> times_ok E (copy_labels k s)"
    by (auto simp: times_ok_def copy_labels_def reached_by_def split: if_splits)
  then show ?thesis using assms labels_copy by (auto simp: times_scanning_def times_settled_def)
qed

lemma times_transit:
  assumes "1 \<le> k" "times_scanning E k w" "transit_step E k w w'"
  shows "times_scanning E k w'"
proof -
  have "times_ok E (fst w')" if wf: "search_timed E"
    using assms(3)
  proof cases
    case (transit_stepI route t i j s rdy imp)
    have ok: "times_ok E s" and lab: "label_ok E s (k - 1) (StopIDs route ! i)"
      using assms(2) wf transit_stepI(1) by (auto simp: times_scanning_def labels_scanning_def labels_ok_def)
    from ready_at_bounds [OF wf ok lab transit_stepI(4)] transit_stepI(5)
    obtain a where a: "tau s (k - 1) (StopIDs route ! i) = Some a" "a \<le> Departures t ! i" by fastforce
    note ride = timed_ride [OF wf transit_stepI(3)]
    from ok a obtain b where b: "best s (StopIDs route ! i) = Some b" "b \<le> a" "DepTime (params E) \<le> a"
      by (fastforce simp: times_ok_def reached_by_def)
    have "StopIDs route ! i \<noteq> StopIDs route ! j"
      using improves_less [OF transit_stepI(6), of b] b a ride(1) by auto
    then have "entry_timed E (StopIDs route ! j)
        (transit_entry k (StopIDs route ! i) (Key t) (RouteID route) (Departures t ! i) (Arrivals t ! j))"
      using ride a b by (simp add: entry_timed_def)
    then show ?thesis
      using times_ok_set_label [of E "(s, imp)" "Arrivals t ! j"] ok transit_stepI(2,6) ride(1) a b by simp
  qed
  moreover have "labels_scanning E k w'"
    using assms(2) labels_transit [OF assms(1) _ assms(3)] by (simp add: times_scanning_def)
  ultimately show ?thesis by (simp add: times_scanning_def)
qed

lemma times_snapshot:
  assumes "1 \<le> k" "times_scanning E k (s, imp)" "set sources = set imp" "snapshot_of k s sources s' srcs"
  shows "times_walking E k srcs (s', imp)"
proof -
  note sn = assms(4) [unfolded snapshot_of_def]
  have "times_ok E s' \<and> (\<forall>(st, d) \<in> set srcs. reached_by E s' st d \<and> d < 2 ^ 62)" if wf: "search_timed E"
  proof -
    have ok: "times_ok E s" and lab: "labels_scanning E k (s, imp)"
      using assms(2) wf by (auto simp: times_scanning_def)
    have entry: "entry_timed E st e" if "preWalk s' j st = Some e" for j st e
    proof (cases "j = k")
      case True
      with sn that have "preWalk s k st = Some e \<or> journal s k st = Some e" by blast
      with ok show ?thesis by (auto simp: times_ok_def)
    next
      case False
      with sn that ok show ?thesis by (simp add: times_ok_def)
    qed
    have "times_ok E s'"
      using ok sn entry by (simp add: times_ok_def reached_by_def)
    moreover have "reached_by E s' st d \<and> d < 2 ^ 62" if "(st, d) \<in> set srcs" for st d
    proof -
      from that sn have m: "st \<in> set sources" "tau s k st = Some d" by blast+
      with assms(3) lab obtain e where e: "journal s k st = Some e" "je_kind e = LegTransit"
        by (auto simp: labels_scanning_def)
      then have "je_arrival e = d" using lab m(2) by (auto simp: labels_scanning_def labels_ok_def label_ok_def)
      with e ok m(2) sn show ?thesis by (auto simp: times_ok_def entry_timed_def reached_by_def)
    qed
    ultimately show ?thesis by auto
  qed
  then show ?thesis
    using labels_snapshot [OF assms(1) _ assms(3,4)] assms(2) by (auto simp: times_walking_def times_scanning_def)
qed

lemma times_walk:
  assumes "times_walking E k srcs w" "walk_step E k srcs w w'"
  shows "times_walking E k srcs w'"
proof -
  have "times_ok E (fst w') \<and> (\<forall>(st, d) \<in> set srcs. reached_by E (fst w') st d \<and> d < 2 ^ 62)" if wf: "search_timed E"
    using assms(2)
  proof cases
    case (walk_stepI src depart fp arr s imp)
    let ?e = "walk_entry k src depart arr"
    have ok: "times_ok E s" and srcs: "\<forall>(st, d) \<in> set srcs. reached_by E s st d \<and> d < 2 ^ 62"
      using assms(1) wf walk_stepI(1) by (auto simp: times_walking_def)
    then have src: "reached_by E s src depart" "depart < 2 ^ 62" using walk_stepI(3) by auto
    note fp = timed_walk [OF wf walk_stepI(4)]
    have "0 \<le> depart" using src(1) wf by (auto simp: reached_by_def search_timed_def params_timed_def)
    then have arr: "arr = depart + WalkSeconds fp" using walk_stepI(5) src(2) fp by (simp add: i64_plus)
    have "src \<noteq> NeighbourStop fp"
      using src(1) improves_less [OF walk_stepI(6)] arr fp(1) by (force simp: reached_by_def)
    then have e: "entry_timed E (NeighbourStop fp) ?e"
      using src fp arr by (auto simp: entry_timed_def reached_by_def)
    have "times_ok E (fst w')"
      using times_ok_set_label [of E "(s, imp)" arr "NeighbourStop fp" ?e k] ok walk_stepI(2,6) e arr fp(1) src(1)
      by (auto simp: reached_by_def)
    moreover have "\<forall>(st, d) \<in> set srcs. reached_by E (fst w') st d \<and> d < 2 ^ 62"
      using srcs reached_by_set_label [of E "(s, imp)" _ _ arr "NeighbourStop fp" k ?e] walk_stepI(2,6) by fastforce
    ultimately show ?thesis ..
  qed
  moreover have "labels_walking E k srcs w'"
    using assms(1) labels_walk [OF _ assms(2)] by (simp add: times_walking_def)
  ultimately show ?thesis by (simp add: times_walking_def)
qed

interpretation times: search_invariant E "times_scanning E" "times_walking E" "times_settled E" for E
proof (unfold_locales, goal_cases)
  case (1 s srcs)
  then show ?case by (rule times_start)
next
  case (2 k s)
  then show ?case by (rule times_copy)
next
  case (3 k w w')
  then show ?case by (rule times_transit)
next
  case (4 k s imp sources s' srcs)
  then show ?case by (rule times_snapshot)
next
  case (5 k srcs w w')
  then show ?case by (rule times_walk)
next
  case (6 k srcs w)
  then show ?case by (auto simp: times_walking_def times_settled_def labels_walking_def)
qed

section \<open>Backtracking succeeds\<close>

text \<open>The entry of a linked label leaves from a label again, unless it leaves from the origin.\<close>

lemma entry_from_label:
  assumes "labels_ok E m s" "entry_linked E s j e" "j \<le> m"
  shows "je_from e = Origin (params E) \<or> tau s (nat (je_fromRound e)) (je_from e) \<noteq> None"
proof (cases "je_kind e")
  case LegTransit
  with assms(2) obtain rdy where "ready_at E (nat (je_fromRound e) + 1) s (je_from e) = Some rdy"
    by (auto simp: entry_linked_def)
  then show ?thesis by (auto simp: ready_at_def split: option.splits)
next
  case LegWalk
  with assms(2) have "walk_source E s (nat (je_fromRound e)) (je_from e) (je_departure e)"
    by (simp add: entry_linked_def)
  moreover have "nat (je_fromRound e) \<le> m" using entry_linked_round [OF assms(2)] assms(3) by simp
  ultimately show ?thesis
    using assms(1) by (fastforce simp: walk_source_def labels_ok_def label_ok_def)
qed

definition joins_to :: "leg list \<Rightarrow> string \<Rightarrow> leg_kind option \<Rightarrow> int \<Rightarrow> bool" where
  "joins_to new cur pk pd \<longleftrightarrow>
     new = [] \<or> AlightStation (hd new) = cur \<and> (pk \<noteq> None \<longrightarrow> ArrivalUnix (hd new) \<le> pd)"

definition rebuilt :: "search_env \<Rightarrow> string \<Rightarrow> leg_kind option \<Rightarrow> int \<Rightarrow> leg list \<Rightarrow> bool" where
  "rebuilt E cur pk pd new \<longleftrightarrow>
     list_all leg_ok new \<and> successively (\<lambda>l' l. legs_join l l') new \<and> joins_to new cur pk pd \<and>
     (new = [] \<longleftrightarrow> cur = Origin (params E)) \<and>
     (new \<noteq> [] \<longrightarrow> BoardStation (last new) = Origin (params E) \<and> DepTime (params E) \<le> DepartureUnix (last new))"

text \<open>What the loop knows when it looks at \<open>(r, cur)\<close>: the pairs it has visited lie in later
  rounds, and a walk it has just taken back left from a ride.\<close>

definition at_label :: "search_env \<Rightarrow> search_state \<Rightarrow> (int \<times> string) list \<Rightarrow> nat \<Rightarrow> string \<Rightarrow> int \<Rightarrow>
    leg_kind option \<Rightarrow> int \<Rightarrow> bool" where
  "at_label E s V n cur r pk pd \<longleftrightarrow>
     0 \<le> r \<and> (cur = Origin (params E) \<or> tau s (nat r) cur \<noteq> None) \<and>
     (\<forall>(r', c) \<in> set V. r < r' \<or> r = r' \<and> pk = Some LegWalk \<and> c \<noteq> cur) \<and>
     int n + 2 * r + (if pk = Some LegWalk then 1 else 2) \<le> 2 * int (rounds E) + 2 \<and>
     boarding_ok E s cur r pk pd \<and> (pk = Some LegWalk \<longrightarrow> walk_source E s (nat r) cur pd)"

lemma at_label_next:
  assumes "labels_ok E m s" "at_label E s V n cur r pk pd" "entry_linked E s (nat r) e" "nat r \<le> m"
    "je_from e \<noteq> cur" "pk = Some LegWalk \<Longrightarrow> je_kind e = LegTransit"
  shows "at_label E s ((r, cur) # V) (Suc n) (je_from e) (je_fromRound e) (Some (je_kind e)) (je_departure e)"
proof -
  have r: "0 \<le> je_fromRound e" "je_fromRound e \<le> r" "je_kind e = LegTransit \<Longrightarrow> je_fromRound e < r"
    using assms(2,3) entry_linked_round [OF assms(3)] entry_linked_transit_round [OF assms(3)]
    by (auto simp: entry_linked_def at_label_def)
  have b: "boarding_ok E s (je_from e) (je_fromRound e) (Some (je_kind e)) (je_departure e)"
    "je_kind e = LegWalk \<Longrightarrow> walk_source E s (nat (je_fromRound e)) (je_from e) (je_departure e)"
    using assms(3) by (auto simp: boarding_ok_def entry_linked_def)
  show ?thesis
  proof (cases "je_kind e")
    case LegTransit
    with r(3) have "je_fromRound e < r" by simp
    moreover have "r \<le> r'" if "(r', c) \<in> set V" for r' c
      using assms(2) that by (auto simp: at_label_def)
    ultimately show ?thesis
      using assms(2) r b entry_from_label [OF assms(1,3,4)] LegTransit
      by (fastforce simp: at_label_def split: if_splits)
  next
    case LegWalk
    with assms(6) have "pk \<noteq> Some LegWalk" by auto
    then have "r < r'" if "(r', c) \<in> set V" for r' c
      using assms(2) that by (auto simp: at_label_def)
    then show ?thesis
      using assms(2,5) r b entry_from_label [OF assms(1,3,4)] LegWalk \<open>pk \<noteq> Some LegWalk\<close>
      by (fastforce simp: at_label_def)
  qed
qed

text \<open>The entry the loop uses at a label: it exists, and after a walk it is a ride.\<close>

lemma at_label_entry:
  assumes "search_timed E" "labels_ok E m s" "times_ok E s" "at_label E s V n cur r pk pd" "r \<le> int m"
    "cur \<noteq> Origin (params E)"
  shows "\<exists>e0. journal s (nat r) cur = Some e0 \<and> je_from e0 \<noteq> [] \<and> je_from e0 \<noteq> cur \<and>
    entry_timed E cur (chain_entry s r cur pk pd e0) \<and> entry_linked E s (nat r) (chain_entry s r cur pk pd e0) \<and>
    (pk = Some LegWalk \<longrightarrow> je_kind (chain_entry s r cur pk pd e0) = LegTransit) \<and>
    (pk \<noteq> None \<longrightarrow> je_arrival (chain_entry s r cur pk pd e0) \<le> pd)"
proof -
  have lab: "label_ok E s (nat r) cur" using assms(2,4,5) by (auto simp: labels_ok_def at_label_def)
  have "tau s (nat r) cur \<noteq> None" using assms(4,6) by (auto simp: at_label_def)
  with lab assms(6) obtain e0 where e0: "journal s (nat r) cur = Some e0" by (auto simp: label_ok_def)
  with assms(3) have t0: "entry_timed E cur e0" by (auto simp: times_ok_def)
  define e where "e = chain_entry s r cur pk pd e0"
  have tm: "entry_timed E cur e"
    using chain_entry_cases [of s r cur pk pd e0] t0 assms(3) by (auto simp: times_ok_def e_def)
  have walk: "je_kind e = LegTransit \<and> je_arrival e = pd" if "pk = Some LegWalk"
  proof -
    from that assms(4,6) obtain pre where pre: "preWalk s (nat r) cur = Some pre" "je_kind pre = LegTransit"
        "je_arrival pre = pd" "je_kind e0 = LegTransit \<longrightarrow> e0 = pre"
      using e0 by (auto simp: at_label_def walk_source_def)
    then have "je_from pre \<noteq> []" using assms(3) by (auto simp: times_ok_def entry_timed_def)
    with pre that show ?thesis by (cases "je_kind e0") (auto simp: e_def chain_entry_def)
  qed
  have "je_arrival e \<le> pd" if "pk = Some LegTransit"
  proof -
    from that have "e = e0" by (simp add: e_def chain_entry_def)
    from that assms(4) obtain rdy where rdy: "ready_at E (nat r + 1) s cur = Some rdy" "rdy \<le> pd"
      by (auto simp: at_label_def boarding_ok_def)
    from ready_at_bounds [OF assms(1,3) _ rdy(1)] lab rdy(2) obtain a where "tau s (nat r) cur = Some a" "a \<le> pd"
      by fastforce
    with lab e0 \<open>e = e0\<close> show ?thesis by (simp add: label_ok_def)
  qed
  moreover have "pk = None \<or> pk = Some LegTransit \<or> pk = Some LegWalk"
    by (cases pk) (auto intro: leg_kind.exhaust)
  ultimately have "pk \<noteq> None \<longrightarrow> je_arrival e \<le> pd" using walk by auto
  moreover have "entry_linked E s (nat r) e" using chain_entry_ok [OF lab e0, of pk pd] by (simp add: e_def)
  moreover have "pk = Some LegWalk \<longrightarrow> je_kind e = LegTransit" using walk by blast
  ultimately show ?thesis using e0 t0 tm unfolding e_def entry_timed_def by blast
qed

lemma rebuilt_Cons:
  assumes "rebuilt E (je_from e) (Some (je_kind e)) (je_departure e) new" "entry_timed E cur e"
    "pk \<noteq> None \<Longrightarrow> je_arrival e \<le> pd" "cur \<noteq> Origin (params E)"
  shows "rebuilt E cur pk pd (entry_leg e cur # new)"
proof -
  have "leg_ok (entry_leg e cur)"
    using assms(2) by (auto simp: leg_ok_def entry_timed_def entry_leg_def)
  moreover have "successively (\<lambda>l' l. legs_join l l') (entry_leg e cur # new)"
    using assms(1) by (cases new) (auto simp: rebuilt_def joins_to_def legs_join_def)
  ultimately show ?thesis
    using assms by (auto simp: rebuilt_def joins_to_def entry_timed_def)
qed

lemma build_legs_total:
  "search_timed E \<Longrightarrow> labels_ok E m s \<Longrightarrow> times_ok E s \<Longrightarrow> m \<le> rounds E \<Longrightarrow> r \<le> int m \<Longrightarrow>
   at_label E s V (length legs) cur r pk pd \<Longrightarrow>
   \<exists>new. build_legs E s V legs cur r pk pd = Some (legs @ new) \<and> rebuilt E cur pk pd new"
proof (induction E s V legs cur r pk pd rule: build_legs.induct)
  case (1 E s V legs cur r pk pd)
  show ?case
  proof (cases "cur = Origin (params E)")
    case True
    then show ?thesis
      by (simp add: build_legs.simps [of E s V legs "Origin (params E)"] rebuilt_def joins_to_def)
  next
    case False
    note at = "1.prems"(6)
    from at_label_entry [OF "1.prems"(1,2,3) at "1.prems"(5) False]
    obtain e0 where e0: "journal s (nat r) cur = Some e0" "je_from e0 \<noteq> []" "je_from e0 \<noteq> cur"
      and e: "entry_timed E cur (chain_entry s r cur pk pd e0)" "entry_linked E s (nat r) (chain_entry s r cur pk pd e0)"
        "pk = Some LegWalk \<longrightarrow> je_kind (chain_entry s r cur pk pd e0) = LegTransit"
        "pk \<noteq> None \<longrightarrow> je_arrival (chain_entry s r cur pk pd e0) \<le> pd" by blast
    define e where "e = chain_entry s r cur pk pd e0"
    note e' = e [folded e_def]
    have bounds: "\<not> (length legs > 2 * (rounds E + 1) + 2 \<or> r < 0 \<or> r \<ge> int (rounds E) + 1)"
      using at "1.prems"(4,5) by (auto simp: at_label_def split: if_splits)
    have nv: "(r, cur) \<notin> set V" using at by (auto simp: at_label_def)
    have "nat r \<le> m" using "1.prems"(5) by simp
    moreover have "je_from e \<noteq> cur" using e'(1) by (simp add: entry_timed_def)
    ultimately have "at_label E s ((r, cur) # V) (Suc (length legs)) (je_from e) (je_fromRound e)
        (Some (je_kind e)) (je_departure e)"
      using at_label_next [OF "1.prems"(2) at e'(2)] e'(3) by blast
    moreover have "je_fromRound e \<le> int m"
      using entry_linked_round [OF e'(2)] "1.prems"(5) at by (auto simp: at_label_def)
    ultimately obtain new where new: "build_legs E s ((r, cur) # V) (legs @ [entry_leg e cur]) (je_from e)
        (je_fromRound e) (Some (je_kind e)) (je_departure e) = Some ((legs @ [entry_leg e cur]) @ new)"
      "rebuilt E (je_from e) (Some (je_kind e)) (je_departure e) new"
      using "1.IH" [OF False bounds e0(1) _ e_def nv "1.prems"(1-4)] e0(2,3) by auto
    have "build_legs E s V legs cur r pk pd = Some (legs @ (entry_leg e cur # new))"
      using new(1) False bounds e0 nv by (simp add: build_legs.simps [of E s V legs cur] Let_def e_def)
    with rebuilt_Cons [OF new(2) e'(1) _ False] e'(4) show ?thesis by blast
  qed
qed

lemma build_legs_prefix:
  "build_legs E s V legs cur r pk pd = Some res \<Longrightarrow> \<exists>new. res = legs @ new"
proof (induction E s V legs cur r pk pd rule: build_legs.induct)
  case (1 E s V legs cur r pk pd)
  from "1.prems" show ?case
    by (subst (asm) build_legs.simps) (force simp: Let_def dest!: "1.IH" split: if_splits option.splits)
qed

lemma buildPath_total:
  assumes "search_timed E" "labels_ok E m s" "times_ok E s" "m \<le> rounds E" "tau s k (dest E) \<noteq> None"
    "dest E = Destination (params E)" "Origin (params E) \<noteq> Destination (params E)"
  shows "\<exists>p. buildPath E s k = Some p \<and> tau s k (dest E) = Some (path_ArrivalUnix p)"
proof -
  have km: "k \<le> m" using assms(2,5) by (cases "k \<le> m") (auto simp: labels_ok_def)
  have "at_label E s [] (length ([] :: leg list)) (dest E) (int k) None 0"
    using assms(5) km assms(4) by (auto simp: at_label_def boarding_ok_def)
  with build_legs_total [OF assms(1-4), of "int k" "[]" "[]" "dest E" None 0] km
  obtain new where b: "build_legs E s [] [] (dest E) (int k) None 0 = Some new" and new: "rebuilt E (dest E) None 0 new"
    by auto
  have ne: "new \<noteq> []" using new assms(6,7) by (simp add: rebuilt_def)
  from build_legs_sound [OF b assms(2)] km have count: "int (transit_count new) \<le> int (rounds E)"
    using assms(4) by (auto simp: boarding_ok_def chain_ok_def)
  have "path_well_formed (make_path E k (rev new)) (params E)"
    using new ne assms(6) by (auto simp: path_well_formed_def rebuilt_def joins_to_def connected_legs_def
        hd_rev last_rev successively_rev)
  then have p: "buildPath E s k = Some (make_path E k (rev new))"
    using b ne count by (simp add: buildPath_def count_legs_transit ValidatePath_iff [symmetric])
  have lab: "label_ok E s k (dest E)" using assms(2) km by (simp add: labels_ok_def)
  with assms(5,6,7) obtain e0 where e0: "journal s k (dest E) = Some e0" by (auto simp: label_ok_def)
  have "hd new = entry_leg e0 (dest E)"
  proof -
    have "build_legs E s [] [] (dest E) (int k) None 0 =
        build_legs E s [(int k, dest E)] [entry_leg e0 (dest E)] (je_from e0) (je_fromRound e0) (Some (je_kind e0)) (je_departure e0)"
      using b assms(6,7) e0 by (simp add: build_legs.simps [of E s "[]" "[]"] chain_entry_def split: if_splits)
    with b obtain rest where "new = [entry_leg e0 (dest E)] @ rest"
      using build_legs_prefix by (metis (no_types))
    then show ?thesis by simp
  qed
  with lab e0 p ne show ?thesis by (auto simp: label_ok_def last_rev)
qed

section \<open>Real transfer times\<close>

text \<open>The labels add the transfer time in \<open>int64\<close>; on a timed schedule the sum does not wrap, so that much time really passes.\<close>

definition separated :: "int \<Rightarrow> leg \<Rightarrow> leg \<Rightarrow> bool" where
  "separated xfer l l' \<longleftrightarrow>
     (Kind l = LegTransit \<longrightarrow> Kind l' = LegTransit \<longrightarrow> ArrivalUnix l + xfer \<le> DepartureUnix l')"

definition walk_exact :: "route_buffer \<Rightarrow> leg \<Rightarrow> bool" where
  "walk_exact buf l \<longleftrightarrow>
     (Kind l = LegWalk \<longrightarrow> (\<exists>fp \<in> set (gm_get (Footpaths buf) (BoardStation l) []).
        NeighbourStop fp = AlightStation l \<and> ArrivalUnix l = DepartureUnix l + WalkSeconds fp))"

lemma connected_not_before:
  "connected_legs ls \<Longrightarrow> ls = [] \<or> d \<le> DepartureUnix (hd ls) \<Longrightarrow> l \<in> set ls \<Longrightarrow> d \<le> DepartureUnix l \<and> d \<le> ArrivalUnix l"
proof (induction ls)
  case (Cons m ls)
  have "d \<le> DepartureUnix m" "DepartureUnix m \<le> ArrivalUnix m" "connected_legs ls"
    using Cons.prems(1,2) by (auto simp: connected_legs_def leg_ok_def successively_Cons)
  moreover have "ls = [] \<or> d \<le> DepartureUnix (hd ls)"
    using Cons.prems(1,2) by (cases ls) (auto simp: connected_legs_def leg_ok_def legs_join_def)
  ultimately show ?case using Cons.IH Cons.prems(3) by auto
qed simp

lemma i64_not_less:
  assumes "0 \<le> d" "0 \<le> w" "w < 2 ^ 61" "d \<le> i64 (d + w)"
  shows "i64 (d + w) = d + w"
proof (rule ccontr)
  assume "i64 (d + w) \<noteq> d + w"
  then have "\<not> in_i64 (d + w)" using i64_id by blast
  with assms(1,2) have "2 ^ 63 \<le> d + w" by (simp add: in_i64_def)
  moreover have "(d + w + 2 ^ 63) mod 2 ^ 64 \<le> d + w + 2 ^ 63 - 2 ^ 64"
  proof -
    have "(d + w + 2 ^ 63) mod 2 ^ 64 = (d + w + 2 ^ 63 - 2 ^ 64) mod 2 ^ 64" by (metis minus_mod_self2)
    also have "\<dots> \<le> d + w + 2 ^ 63 - 2 ^ 64" using \<open>2 ^ 63 \<le> d + w\<close> by (intro zmod_le_nonneg_dividend) simp
    finally show ?thesis .
  qed
  ultimately show False using assms(3,4) by (simp add: i64_def)
qed

lemma journey_separated:
  assumes "journey_sound E q" "search_timed E"
  shows "successively (separated (TransferBuffer (params E))) (Legs q) \<and> list_all (walk_exact (routes E)) (Legs q)"
proof
  have wf: "connected_legs (Legs q)" "DepTime (params E) \<le> DepartureUnix (hd (Legs q))"
    and real: "list_all (leg_real E) (Legs q)" and ok: "successively (transfer_ok (xferSec E)) (Legs q)"
    using assms(1) by (auto simp: journey_sound_def path_well_formed_def)
  have e: "xferSec E = TransferBuffer (params E)" "0 \<le> DepTime (params E)" "TransferBuffer (params E) < 2 ^ 61"
    using assms(2) by (auto simp: search_timed_def params_timed_def)
  have from_dep: "DepTime (params E) \<le> DepartureUnix l" "DepTime (params E) \<le> ArrivalUnix l" if "l \<in> set (Legs q)" for l
    using connected_not_before [OF wf(1) _ that] wf(2) by blast+
  have before: "ArrivalUnix l < 2 ^ 62" if "l \<in> set (Legs q)" "Kind l = LegTransit" for l
  proof -
    from real that obtain route t i j where "ride_exists E route t i j" "Arrivals t ! j = ArrivalUnix l"
      by (force simp: list_all_iff leg_real_def)
    with timed_ride(2) [OF assms(2)] show ?thesis by metis
  qed
  have "separated (TransferBuffer (params E)) l l'" if "l \<in> set (Legs q)" "transfer_ok (xferSec E) l l'" for l l'
  proof -
    have "i64 (ArrivalUnix l + TransferBuffer (params E)) = ArrivalUnix l + TransferBuffer (params E)" if "Kind l = LegTransit"
      using before [OF \<open>l \<in> set (Legs q)\<close> that] from_dep(2) [OF \<open>l \<in> set (Legs q)\<close>] e(2,3) TransferBuffer_nonneg [of "params E"]
      by (simp add: i64_plus)
    with that(2) show ?thesis by (auto simp: separated_def transfer_ok_def e(1))
  qed
  with ok show "successively (separated (TransferBuffer (params E))) (Legs q)" by (auto intro: successively_mono)
  have "walk_exact (routes E) l" if l: "l \<in> set (Legs q)" for l
  proof (cases "Kind l")
    case LegWalk
    with real l obtain fp where fp: "fp \<in> set (gm_get (Footpaths (routes E)) (BoardStation l) [])"
      "NeighbourStop fp = AlightStation l" "ArrivalUnix l = i64 (DepartureUnix l + WalkSeconds fp)"
      by (force simp: list_all_iff leg_real_def)
    have "DepartureUnix l \<le> ArrivalUnix l" using wf(1) l by (auto simp: connected_legs_def list_all_iff leg_ok_def)
    then have "ArrivalUnix l = DepartureUnix l + WalkSeconds fp"
      using i64_not_less [of "DepartureUnix l" "WalkSeconds fp"] timed_walk(1,2) [OF assms(2) fp(1)] from_dep(1) [OF l] e(2) fp(3) by simp
    with fp show ?thesis by (auto simp: walk_exact_def)
  qed (simp add: walk_exact_def)
  then show "list_all (walk_exact (routes E)) (Legs q)" by (simp add: list_all_iff)
qed

section \<open>Properties\<close>

lemma search_state_ok:
  assumes "search_labels cancelled E = Some s" "flags_ok (routes E)" "orders_ok (orders E)" "search_timed E"
  shows "\<exists>m \<le> rounds E. labels_ok E m s \<and> times_ok E s"
  using times.search_settled [OF assms(1-3)] assms(4) by (auto simp: times_settled_def)

text \<open>C4: on a timed schedule no label of the destination is discarded: where no trip arrives at a later
  stop before it has left an earlier one, IDs are not empty and times lie far from the ends of \<open>int64\<close>, in every round that
  reaches the destination a journey is rebuilt that arrives exactly when the label says, so the checks of the reconstruction
  and the step limit never fail.\<close>

theorem no_label_discarded:
  assumes "search_labels cancelled (search_env_of p buf sig ords) = Some s"
    and "flags_ok buf" "orders_ok ords" "buffer_timed buf" "params_timed p" "Origin p \<noteq> Destination p"
    and "tau s k (Destination p) = Some arr"
  shows "\<exists>q. buildPath (search_env_of p buf sig ords) s k = Some q \<and> path_ArrivalUnix q = arr"
proof -
  let ?E = "search_env_of p buf sig ords"
  have wf: "search_timed ?E" using assms(4,5) by (simp add: search_timed_def)
  from search_state_ok [OF assms(1) _ _ wf] assms(2,3)
  obtain m where "m \<le> rounds ?E" "labels_ok ?E m s" "times_ok ?E s" by auto
  from buildPath_total [OF wf this(2,3,1), of k] assms(6,7) show ?thesis by auto
qed

lemma sample_timed: "buffer_timed sample_buffer" "params_timed sample_params"
  by (auto simp: buffer_timed_def sample_buffer_def timed_trip_def sample_trip1_def sample_trip2_def
      params_timed_def sample_params_def TransferBuffer_def DefaultMinTransferSeconds_def less_Suc_eq nth_Cons')

theorem no_label_discarded_witness:
  "\<exists>q. buildPath (search_env_of sample_params sample_buffer [] sample_orders) state2 2 = Some q \<and>
     path_ArrivalUnix q = 400"
proof -
  have "tau state2 2 (Destination sample_params) = Some 400" "Origin sample_params \<noteq> Destination sample_params"
    by (simp_all add: state2_def sample_params_def)
  then show ?thesis
    using no_label_discarded [OF sample_labels [unfolded sample_env_def] sample_ok sample_timed] by blast
qed

text \<open>The condition on the times is needed, and the ingestion does not ensure it: it compares departures only, so it accepts a
  trip that arrives at 50 although it left its first stop at 100. The search then has a label of the destination that no journey
  is rebuilt for, and finds nothing.\<close>

definition early_buffer :: route_buffer where
  "early_buffer =
     (let t = \<lparr>Key = TripKey ''T1'' ''2026-08-27'', Arrivals = [100, 50], Departures = [100, 200], StationIDs = [''A'', ''E'']\<rparr>
      in newRouteBuffer\<lparr>Routes := [\<lparr>RouteID = ''R1'', StopIDs = [''A'', ''E''], TripKeys = [Key t]\<rparr>], StopTimes := [[t]],
           StopToRoutes := [(''A'', [\<lparr>RouteIdx = 0, StopPos = 0\<rparr>]), (''E'', [\<lparr>RouteIdx = 0, StopPos = 1\<rparr>])], RouteFIFO := [True]\<rparr>)"

definition early_env :: search_env where
  "early_env = search_env_of (sample_params\<lparr>MaxRounds := 1\<rparr>) early_buffer [] sample_orders"

lemma early_env_eq:
  "early_env = \<lparr>params = sample_params\<lparr>MaxRounds := 1\<rparr>, rounds = 1, xferSec = 0, dest = ''E'', routes = early_buffer,
     signals = [], allowed = [''2026-08-26'', ''2026-08-27'', ''2026-08-28''], orders = sample_orders\<rparr>"
  by (simp add: early_env_def search_env_of_def sample_params_def Rounds_def TransferBuffer_def
      DefaultMinTransferSeconds_def MaxAllowedRounds_def DateWindow_def sample_dates)

definition early_ride :: journal_entry where
  "early_ride = \<lparr>je_kind = LegTransit, je_fromRound = 0, je_from = ''A'', je_tripKey = TripKey ''T1'' ''2026-08-27'',
     je_routeID = ''R1'', je_departure = 100, je_arrival = 50\<rparr>"

definition early_state :: search_state where
  "early_state = state0
     \<lparr>tau := (tau state0)(1 := [''A'' \<mapsto> 50, ''E'' \<mapsto> 50]), journal := (journal state0)(1 := [''E'' \<mapsto> early_ride]),
      best := [''A'' \<mapsto> 50, ''E'' \<mapsto> 50]\<rparr>"

lemma early_round0:
  "relaxFootpaths early_env 0 [Origin (params early_env)] (init_state (params early_env), [Origin (params early_env)]) = (state0, [''A''])"
  by (simp add: early_env_eq early_buffer_def newRouteBuffer_def sample_defs relaxFootpaths_def snapshot_source_def gm_get_def
      init_state_def state0_def Let_def cong: if_cong)

lemma early_round1: "search_round early_env (Suc 0) (state0, [''A'']) = (early_state, [''E''])"
  by (simp add: round_defs scan_defs label_defs early_env_eq early_buffer_def newRouteBuffer_def sample_defs gm_get_def add_new_def i64_def
      Let_def state0_def early_state_def early_ride_def)

lemma early_path: "buildPath early_env early_state 1 = None"
proof -
  have j: "journal early_state (Suc 0) ''E'' = Some early_ride" by (simp add: early_state_def)
  have e: "je_from early_ride = ''A''" "je_fromRound early_ride = 0" "je_kind early_ride = LegTransit" by (simp_all add: early_ride_def)
  have "build_legs early_env early_state [] [] ''E'' 1 None 0 = Some [entry_leg early_ride ''E'']"
    by (simp add: build_legs.simps early_env_eq sample_params_def j Let_def chain_entry_def e)
  then show ?thesis
    by (simp add: buildPath_def early_env_eq sample_params_def Let_def make_path_def count_legs_def entry_leg_def early_ride_def ValidatePath_def)
qed

theorem early_arrival_discards_label:
  "\<exists>s. search_labels (\<lambda>k. False) early_env = Some s \<and> tau s 1 ''E'' = Some 50 \<and> buildPath early_env s 1 = None"
proof -
  have "rounds early_env = Suc 0" by (simp add: early_env_eq)
  then have "search_labels (\<lambda>k. False) early_env = Some early_state"
    by (simp add: search_labels_def early_round0 early_round1 Let_def)
  moreover have "tau early_state 1 ''E'' = Some 50" by (simp add: early_state_def)
  ultimately show ?thesis using early_path by blast
qed

text \<open>C13: two vehicles boarded one after the other without walking between them are separated by the
  requested transfer time, and a walk between takes exactly the time of its footpath: on a timed schedule the times of a
  journey's legs are real times, whatever \<open>int64\<close> sum the search compared.\<close>

theorem search_respects_transfer_buffer:
  assumes "flags_ok buf" "orders_ok ords" "buffer_timed buf" "params_timed p"
  shows "list_all (\<lambda>q. successively (separated (TransferBuffer p)) (Legs q) \<and> list_all (walk_exact buf) (Legs q))
    (RaptorSearch cancelled ords (Some buf) sig p topK)"
  unfolding list_all_iff [of _ "RaptorSearch cancelled ords (Some buf) sig p topK"]
proof (intro ballI)
  fix q assume "q \<in> set (RaptorSearch cancelled ords (Some buf) sig p topK)"
  from journeys_sound [OF assms(1,2) this] have sound: "journey_sound (search_env_of p buf sig ords) q" .
  have "search_timed (search_env_of p buf sig ords)" using assms(3,4) by (simp add: search_timed_def)
  from journey_separated [OF sound this] show "successively (separated (TransferBuffer p)) (Legs q) \<and> list_all (walk_exact buf) (Legs q)"
    by simp
qed

theorem search_respects_transfer_buffer_witness:
  "RaptorSearch (\<lambda>k. False) sample_orders (Some sample_buffer) [] sample_params 5 = [sample_path] \<and>
   successively (separated (TransferBuffer sample_params)) (Legs sample_path) \<and> list_all (walk_exact sample_buffer) (Legs sample_path)"
  using search_respects_transfer_buffer [OF sample_ok sample_timed, of "\<lambda>k. False" "[]" 5]
  by (simp add: sample_search)

end
