(* ===== verification/Engine_Optimal.thy ===== *)
theory Engine_Optimal
  imports Engine_Complete Loader
begin

text \<open>
  Optimality of the search of \<^verbatim>\<open>internal/raptor/engine.go\<close>. The reference is \<open>journey_to\<close>, the stations and
  times a passenger can reach with a number of vehicles and at most one walk between two of them, over the
  schedule itself; \<open>unhurried_to\<close> are those that allow the transfer time after walks too, which is all of them where it is zero.
  The labels of the destination are shown to be at least as good as every such
  journey, round by round - under the conditions the code needs and does not
  check: walks that are closed under composition, and no two vehicles of a non-overtaking
  route leaving a stop together.
\<close>

section \<open>The reference\<close>

abbreviation walks_from :: "search_env \<Rightarrow> string \<Rightarrow> footpath list" where
  "walks_from E st \<equiv> gm_get (Footpaths (routes E)) st []"

text \<open>The vehicles used, the station, the time, and whether the last leg was a walk.\<close>

inductive journey_to :: "search_env \<Rightarrow> nat \<Rightarrow> string \<Rightarrow> int \<Rightarrow> bool \<Rightarrow> bool" for E where
  at_origin: "journey_to E 0 (Origin (params E)) (DepTime (params E)) False"
| on_foot: "journey_to E k st t False \<Longrightarrow> fp \<in> set (walks_from E st) \<Longrightarrow>
    journey_to E k (NeighbourStop fp) (t + WalkSeconds fp) True"
| by_vehicle: "journey_to E k st t walked \<Longrightarrow> ride_exists E route tr i j \<Longrightarrow> StopIDs route ! i = st \<Longrightarrow>
    t + (if walked \<or> k = 0 then 0 else xferSec E) \<le> Departures tr ! i \<Longrightarrow>
    journey_to E (k + 1) (StopIDs route ! j) (Arrivals tr ! j) False"

text \<open>With a transfer time, labels do not tell an arrival on foot from one by vehicle: they match the journeys that
  allow the time before every vehicle but the first.\<close>

definition slack :: "search_env \<Rightarrow> nat \<Rightarrow> int" where
  "slack E k = (if k = 0 then 0 else xferSec E)"

inductive unhurried_to :: "search_env \<Rightarrow> nat \<Rightarrow> string \<Rightarrow> int \<Rightarrow> bool \<Rightarrow> bool" for E where
  at_origin: "unhurried_to E 0 (Origin (params E)) (DepTime (params E)) False"
| on_foot: "unhurried_to E k st t False \<Longrightarrow> fp \<in> set (walks_from E st) \<Longrightarrow>
    unhurried_to E k (NeighbourStop fp) (t + WalkSeconds fp) True"
| by_vehicle: "unhurried_to E k st t walked \<Longrightarrow> ride_exists E route tr i j \<Longrightarrow> StopIDs route ! i = st \<Longrightarrow>
    t + slack E k \<le> Departures tr ! i \<Longrightarrow> unhurried_to E (k + 1) (StopIDs route ! j) (Arrivals tr ! j) False"

lemma unhurried_is_journey: "unhurried_to E k st t walked \<Longrightarrow> 0 \<le> xferSec E \<Longrightarrow> journey_to E k st t walked"
proof (induction rule: unhurried_to.induct)
  case (by_vehicle k st t walked route tr i j)
  then have "t + (if walked \<or> k = 0 then 0 else xferSec E) \<le> Departures tr ! i" by (auto simp: slack_def split: if_splits)
  with by_vehicle show ?case by (blast intro: journey_to.by_vehicle)
qed (auto intro: journey_to.intros)

lemma journey_is_unhurried: "journey_to E k st t walked \<Longrightarrow> xferSec E = 0 \<Longrightarrow> unhurried_to E k st t walked"
proof (induction rule: journey_to.induct)
  case (by_vehicle k st t walked route tr i j)
  then have "t + slack E k \<le> Departures tr ! i" by (auto simp: slack_def split: if_splits)
  with by_vehicle show ?case by (blast intro: unhurried_to.by_vehicle)
qed (auto intro: unhurried_to.intros)

text \<open>A station is served at least as well as by time \<open>t\<close>, or the destination is.\<close>

definition arrives_by :: "search_env \<Rightarrow> search_state \<Rightarrow> nat \<Rightarrow> string \<Rightarrow> int \<Rightarrow> bool" where
  "arrives_by E s k st t \<longleftrightarrow>
     (\<exists>a. tau s k st = Some a \<and> a \<le> t) \<or> (\<exists>b. tau s k (dest E) = Some b \<and> b \<le> t)"

lemma arrives_by_mono: "arrives_by E s k st t \<Longrightarrow> t \<le> t' \<Longrightarrow> arrives_by E s k st t'"
  unfolding arrives_by_def by (meson order_trans)

lemma arrives_by_dest: "arrives_by E s k (dest E) t \<longleftrightarrow> (\<exists>a. tau s k (dest E) = Some a \<and> a \<le> t)"
  by (auto simp: arrives_by_def)

section \<open>Labels only get better\<close>

text \<open>During a round the best labels are the labels of the round; and a run from \<open>w\<close> to \<open>w'\<close>
  touches no other round, worsens nothing and marks what it changes.\<close>

definition synced :: "nat \<Rightarrow> search_state \<Rightarrow> bool" where
  "synced k s \<longleftrightarrow> best s = tau s k"

definition advances :: "search_env \<Rightarrow> nat \<Rightarrow> work \<Rightarrow> work \<Rightarrow> bool" where
  "advances E k w w' \<longleftrightarrow> synced k (fst w') \<and>
     (\<forall>j. j \<noteq> k \<longrightarrow> tau (fst w') j = tau (fst w) j \<and> journal (fst w') j = journal (fst w) j) \<and>
     (\<forall>st t. arrives_by E (fst w) k st t \<longrightarrow> arrives_by E (fst w') k st t) \<and>
     (\<forall>st a. tau (fst w) k st = Some a \<longrightarrow> (\<exists>b \<le> a. tau (fst w') k st = Some b)) \<and>
     set (snd w) \<subseteq> set (snd w') \<and>
     (\<forall>st. st \<notin> set (snd w') \<longrightarrow> tau (fst w') k st = tau (fst w) k st \<and> journal (fst w') k st = journal (fst w) k st)"

lemma advances_refl: "synced k (fst w) \<Longrightarrow> advances E k w w"
  by (simp add: advances_def)

lemma advances_trans:
  assumes "advances E k w w'" "advances E k w' w''"
  shows "advances E k w w''"
proof -
  have "\<exists>b \<le> a. tau (fst w'') k st = Some b" if "tau (fst w) k st = Some a" for st a
    using assms that unfolding advances_def by (meson order_trans)
  with assms show ?thesis unfolding advances_def by (auto simp: subset_iff)
qed

lemma improves_synced:
  "synced k s \<Longrightarrow> improves E s arr st \<longleftrightarrow>
     \<not> (\<exists>b. tau s k (dest E) = Some b \<and> b \<le> arr) \<and> (\<forall>b. tau s k st = Some b \<longrightarrow> arr < b)"
  by (auto simp: improves_def synced_def split: option.splits)

lemma not_improves_arrives: "synced k s \<Longrightarrow> \<not> improves E s arr st \<Longrightarrow> arrives_by E s k st arr"
  by (auto simp: improves_synced arrives_by_def not_less)

lemma set_label_advances:
  assumes "synced k (fst w)" "improves E (fst w) arr st"
  shows "advances E k w (set_label k st arr e w)"
  using assms improves_synced [OF assms(1), of E arr st]
  by (auto simp: advances_def synced_def arrives_by_def)

lemma set_label_arrives: "arrives_by E (fst (set_label k st arr e w)) k st arr"
  by (simp add: arrives_by_def)

lemma transit_run_advances: "(transit_step E k)\<^sup>*\<^sup>* w w' \<Longrightarrow> synced k (fst w) \<Longrightarrow> advances E k w w'"
proof (induction rule: rtranclp_induct)
  case (step y z)
  from step(2) have "advances E k y z"
  proof cases
    case (transit_stepI route t i j s rdy imp)
    with step set_label_advances [of k "(s, imp)" E] show ?thesis by (auto simp: advances_def)
  qed
  with step show ?case by (blast intro: advances_trans)
qed (rule advances_refl)

lemma walk_run_advances: "(walk_step E k srcs)\<^sup>*\<^sup>* w w' \<Longrightarrow> synced k (fst w) \<Longrightarrow> advances E k w w'"
proof (induction rule: rtranclp_induct)
  case (step y z)
  from step(2) have "advances E k y z"
  proof cases
    case (walk_stepI src depart fp arr s imp)
    with step set_label_advances [of k "(s, imp)" E] show ?thesis by (auto simp: advances_def)
  qed
  with step show ?case by (blast intro: advances_trans)
qed (rule advances_refl)

lemma run_of_advances: "run_of E k w w' \<Longrightarrow> synced k (fst w) \<Longrightarrow> advances E k w w'"
  by (simp add: run_of_def transit_run_advances)

lemma alight_advances: "synced k (fst w) \<Longrightarrow> advances E k w (alight E k route t pos bs bd w)"
  by (auto simp: alight_def Let_def intro: set_label_advances advances_refl)

lemma alight_arrives: "synced k (fst w) \<Longrightarrow> arrives_by E (fst (alight E k route t pos bs bd w)) k (StopIDs route ! pos) (Arrivals t ! pos)"
  by (auto simp: alight_def Let_def set_label_arrives not_improves_arrives)

section \<open>A scan covers every ride it could make\<close>

definition boardable :: "search_env \<Rightarrow> nat \<Rightarrow> search_state \<Rightarrow> route_entry \<Rightarrow> trip_stop_times \<Rightarrow> nat \<Rightarrow> bool" where
  "boardable E k s route t i \<longleftrightarrow> tripUsable E t \<and> Suc i < length (StopIDs route) \<and>
     (\<exists>r. ready_at E k s (StopIDs route ! i) = Some r \<and> r \<le> Departures t ! i)"

definition covers_from :: "search_env \<Rightarrow> nat \<Rightarrow> search_state \<Rightarrow> route_entry \<Rightarrow> trip_stop_times \<Rightarrow> nat \<Rightarrow> nat \<Rightarrow> bool" where
  "covers_from E k s route t i n \<longleftrightarrow>
     (\<forall>j. i < j \<longrightarrow> j < n \<longrightarrow> arrives_by E s k (StopIDs route ! j) (Arrivals t ! j))"

lemma boardable_cong: "ready_at E k s = ready_at E k s' \<Longrightarrow> boardable E k s route t i = boardable E k s' route t i"
  by (simp add: boardable_def)

lemma covers_from_advances: "covers_from E k (fst w) route t i n \<Longrightarrow> advances E k w w' \<Longrightarrow> covers_from E k (fst w') route t i n"
  by (auto simp: covers_from_def advances_def)

lemma covers_from_Suc:
  "covers_from E k s route t i n \<Longrightarrow> (i < n \<Longrightarrow> arrives_by E s k (StopIDs route ! n) (Arrivals t ! n)) \<Longrightarrow> covers_from E k s route t i (Suc n)"
  by (auto simp: covers_from_def less_Suc_eq)

definition fits :: "route_entry \<Rightarrow> trip_stop_times \<Rightarrow> bool" where
  "fits route t \<longleftrightarrow> length (Departures t) = length (StopIDs route) \<and> length (Arrivals t) = length (StopIDs route)"

text \<open>The scan of a single trip.\<close>

lemma scan_trip_stop_covers:
  assumes "1 \<le> k" "fits route t" "tripUsable E t" "pos < length (StopIDs route)" "synced k (fst w)"
    and inv: "\<And>i. bp \<le> i \<Longrightarrow> i < pos \<Longrightarrow> boardable E k (fst w) route t i \<Longrightarrow> b \<and> covers_from E k (fst w) route t i pos"
    and step: "scan_trip_stop E k route t pos ((b, bs, bd), w) = ((b', bs', bd'), w')"
  shows "advances E k w w' \<and> ready_at E k (fst w') = ready_at E k (fst w) \<and>
    (\<forall>i. bp \<le> i \<longrightarrow> i < Suc pos \<longrightarrow> boardable E k (fst w') route t i \<longrightarrow> b' \<and> covers_from E k (fst w') route t i (Suc pos))"
proof -
  define u where "u = (if b \<and> pos < length (Arrivals t) then alight E k route t pos bs bd w else w)"
  have adv: "advances E k w u" using assms(5) by (simp add: u_def alight_advances advances_refl)
  have rdy: "ready_at E k (fst u) = ready_at E k (fst w)" using assms(1) by (simp add: u_def)
  note st = step [unfolded scan_trip_stop_def prod.case Let_def, folded u_def]
  have w': "w' = u" using st by (auto split: if_splits option.splits)
  have old: "b \<and> covers_from E k (fst u) route t i (Suc pos)" if "bp \<le> i" "i < pos" "boardable E k (fst u) route t i" for i
  proof -
    have "b" "covers_from E k (fst w) route t i pos" using inv that boardable_cong [OF rdy] by blast+
    moreover from \<open>b\<close> have "arrives_by E (fst u) k (StopIDs route ! pos) (Arrivals t ! pos)"
      using assms(2,4,5) by (simp add: u_def fits_def alight_arrives)
    ultimately show ?thesis using covers_from_advances [OF _ adv] covers_from_Suc by blast
  qed
  moreover have "b'" if "boardable E k (fst u) route t i" "bp \<le> i" "i < Suc pos" for i
  proof (cases "b")
    case True
    with st show ?thesis by (auto split: if_splits option.splits)
  next
    case False
    with old that have "i = pos" by (metis less_Suc_eq)
    with that(1) st False assms(2,4) show ?thesis by (auto simp: boardable_def fits_def split: if_splits)
  qed
  moreover have "covers_from E k (fst u) route t pos (Suc pos)" by (simp add: covers_from_def)
  ultimately show ?thesis using adv rdy by (auto simp: w' less_Suc_eq)
qed

lemma scanTrip_covers:
  assumes "1 \<le> k" "fits route t" "tripUsable E t" "synced k (fst w)" "bp \<le> i" "boardable E k (fst w) route t i"
  shows "covers_from E k (fst (scanTrip E k route t bp w)) route t i (length (StopIDs route))"
proof -
  define P where "P pos x \<longleftrightarrow> (case x of ((b, bs, bd), v) \<Rightarrow>
      synced k (fst v) \<and> ready_at E k (fst v) = ready_at E k (fst w) \<and>
      (\<forall>i. bp \<le> i \<longrightarrow> i < pos \<longrightarrow> boardable E k (fst v) route t i \<longrightarrow> b \<and> covers_from E k (fst v) route t i pos))"
    for pos and x :: "trip_ride \<times> work"
  have "P (max bp (length (StopIDs route))) (fold (scan_trip_stop E k route t) [bp..<length (StopIDs route)] ((False, [], 0), w))"
  proof (rule fold_upt_inv)
    show "P bp ((False, [], 0), w)" using assms(4) by (simp add: P_def)
    fix i and x :: "trip_ride \<times> work"
    assume i: "i < length (StopIDs route)" and "P i x"
    then obtain b bs bd v where x: "x = ((b, bs, bd), v)" "synced k (fst v)" "ready_at E k (fst v) = ready_at E k (fst w)"
        "\<And>i'. bp \<le> i' \<Longrightarrow> i' < i \<Longrightarrow> boardable E k (fst v) route t i' \<Longrightarrow> b \<and> covers_from E k (fst v) route t i' i"
      by (cases x) (auto simp: P_def)
    obtain b' bs' bd' v' where st: "scan_trip_stop E k route t i ((b, bs, bd), v) = ((b', bs', bd'), v')"
      by (metis prod.exhaust)
    from scan_trip_stop_covers [OF assms(1-3) i x(2,4) st] x(3)
    show "P (Suc i) (scan_trip_stop E k route t i x)" by (auto simp: P_def x(1) st advances_def)
  qed
  moreover have i: "i < length (StopIDs route)" using assms(6) by (simp add: boardable_def)
  moreover obtain b bs bd v where f: "fold (scan_trip_stop E k route t) [bp..<length (StopIDs route)] ((False, [], 0), w) = ((b, bs, bd), v)"
    by (metis prod.exhaust)
  moreover have "max bp (length (StopIDs route)) = length (StopIDs route)" using i assms(5) by simp
  ultimately have "boardable E k (fst v) route t i \<longrightarrow> covers_from E k (fst v) route t i (length (StopIDs route))"
    "ready_at E k (fst v) = ready_at E k (fst w)"
    using assms(5) by (simp_all add: P_def)
  then have "covers_from E k (fst v) route t i (length (StopIDs route))"
    using assms(6) boardable_cong [of E k "fst v" "fst w" route t i] by blast
  with assms(3) f show ?thesis by (simp add: scanTrip_def)
qed

text \<open>The scan of a route without overtaking. The ride in progress is no later than any other the
  passenger could be on; of two that leave together only the first would do, which the scan does not see.\<close>

definition leave_apart :: "trip_stop_times list \<Rightarrow> bool" where
  "leave_apart trips \<longleftrightarrow> (\<forall>i j pos. i < j \<longrightarrow> j < length trips \<longrightarrow> pos < length (Departures (trips ! j)) \<longrightarrow>
     Departures (trips ! i) ! pos \<noteq> Departures (trips ! j) ! pos)"

lemma forward_scan_first:
  assumes "sorted is" "c \<in> set is" "tripUsable E (trips ! c)" "Departures (trips ! c) ! pos < mb"
    and "\<And>i. i \<in> set is \<Longrightarrow> pos < length (Departures (trips ! i)) \<and> (i \<le> c \<longrightarrow> Departures (trips ! i) ! pos \<le> Departures (trips ! c) ! pos)"
  shows "\<exists>i \<in> set is. forward_scan E trips pos mb is = int i \<and> i \<le> c"
  using assms
proof (induction "is")
  case (Cons x xs)
  show ?case
  proof (cases "x = c")
    case True
    with Cons.prems(3,4) Cons.prems(5) [of c] show ?thesis by (auto simp: Let_def)
  next
    case False
    with Cons.prems have x: "x \<le> c" "c \<in> set xs" "sorted xs" by auto
    with Cons.prems have "pos < length (Departures (trips ! x))" "Departures (trips ! x) ! pos < mb" by force+
    then have step: "forward_scan E trips pos mb (x # xs) = (if tripUsable E (trips ! x) then int x else forward_scan E trips pos mb xs)"
      by (simp add: Let_def not_le)
    from Cons.IH [OF x(3,2) Cons.prems(3,4)] Cons.prems(5)
    have "\<exists>i \<in> set xs. forward_scan E trips pos mb xs = int i \<and> i \<le> c" by simp
    with x(1) show ?thesis unfolding step by auto
  qed
qed simp

lemma earliestTrip_first:
  assumes "computeFIFO trips" "\<forall>t \<in> set trips. pos < length (Departures t)" "c < length trips" "tripUsable E (trips ! c)"
    and "rdy \<le> Departures (trips ! c) ! pos" "Departures (trips ! c) ! pos < mb"
  shows "0 \<le> earliestTrip E trips pos rdy mb \<and> nat (earliestTrip E trips pos rdy mb) \<le> c"
proof -
  let ?f = "\<lambda>i. if length (Departures (trips ! i)) \<le> pos then True else rdy \<le> Departures (trips ! i) ! pos"
  have mono: "?f b" if "a \<le> b" "b < length trips" "?f a" for a b
    using computeFIFO_departures [OF assms(1) that(1,2)] that(3)
    by (cases "length (Departures (trips ! b)) \<le> pos") (auto split: if_splits intro: order_trans)
  define lo where "lo = sort_search (length trips) ?f"
  have "?f b \<longleftrightarrow> lo \<le> b" if "b < length trips" for b
    unfolding lo_def by (rule sort_search_correct(2) [OF _ that]) (rule mono)
  from this [OF assms(3)] assms(3,5) have lo: "c \<in> set [lo..<length trips]" by (auto split: if_splits)
  have "pos < length (Departures (trips ! i)) \<and> (i \<le> c \<longrightarrow> Departures (trips ! i) ! pos \<le> Departures (trips ! c) ! pos)"
    if "i \<in> set [lo..<length trips]" for i
    using that assms(2,3) computeFIFO_departures [OF assms(1), of i c] by simp
  from forward_scan_first [OF sorted_upt lo assms(4,6) this] show ?thesis
    unfolding earliestTrip_def Let_def lo_def [symmetric] by auto
qed

lemma scan_stop_covers:
  assumes "1 \<le> k" "computeFIFO trips" "\<forall>t \<in> set trips. fits route t" "leave_apart trips"
    and bound: "\<forall>t \<in> set trips. \<forall>i. Suc i < length (StopIDs route) \<longrightarrow> Departures t ! i < infinity"
    and pos: "pos < length (StopIDs route)" and "synced k (fst w)" "0 \<le> ti \<Longrightarrow> nat ti < length trips"
    and inv: "\<And>i c. bp \<le> i \<Longrightarrow> i < pos \<Longrightarrow> c < length trips \<Longrightarrow> boardable E k (fst w) route (trips ! c) i \<Longrightarrow>
      0 \<le> ti \<and> nat ti \<le> c \<and> covers_from E k (fst w) route (trips ! c) i pos"
    and step: "scan_stop E k route trips pos ((ti, bs, bd), w) = ((ti', bs', bd'), w')"
  shows "advances E k w w' \<and> ready_at E k (fst w') = ready_at E k (fst w) \<and> (0 \<le> ti' \<longrightarrow> nat ti' < length trips) \<and>
    (\<forall>i c. bp \<le> i \<longrightarrow> i < Suc pos \<longrightarrow> c < length trips \<longrightarrow> boardable E k (fst w') route (trips ! c) i \<longrightarrow>
       0 \<le> ti' \<and> nat ti' \<le> c \<and> covers_from E k (fst w') route (trips ! c) i (Suc pos))"
proof -
  define u where "u = (if ti \<ge> 0 \<and> pos < length (Arrivals (trips ! nat ti))
     then alight E k route (trips ! nat ti) pos bs bd w else w)"
  define curDep where "curDep = (if ti \<ge> 0 \<and> pos < length (Departures (trips ! nat ti))
    then Departures (trips ! nat ti) ! pos else infinity)"
  have adv: "advances E k w u" using assms(7) by (simp add: u_def alight_advances advances_refl)
  have rdy: "ready_at E k (fst u) = ready_at E k (fst w)" using assms(1) by (simp add: u_def)
  note st = step [unfolded scan_stop_def prod.case Let_def, folded u_def curDep_def]
  have w': "w' = u" using st by (auto split: if_splits option.splits)
  have len: "fits route (trips ! c)" "Suc i < length (StopIDs route) \<Longrightarrow> Departures (trips ! c) ! i < infinity" if "c < length trips" for c i
    using assms(3) bound that by auto
  have arr: "Arrivals (trips ! i) ! pos \<le> Arrivals (trips ! c) ! pos" if "i \<le> c" "c < length trips" for i c
  proof (cases "i = c")
    case False
    with that assms(2) have "non_overtaking trips" by (auto simp: computeFIFO_iff)
    with that False pos len(1) [of i] show ?thesis unfolding non_overtaking_def fits_def by auto
  qed simp
  have old: "0 \<le> ti \<and> nat ti \<le> c \<and> covers_from E k (fst u) route (trips ! c) i (Suc pos)"
    if b: "bp \<le> i" "i < pos" "c < length trips" "boardable E k (fst u) route (trips ! c) i" for i c
  proof -
    have t: "0 \<le> ti" "nat ti \<le> c" "covers_from E k (fst w) route (trips ! c) i pos"
      using inv [OF b(1-3)] b(4) boardable_cong [OF rdy] by blast+
    then have "arrives_by E (fst u) k (StopIDs route ! pos) (Arrivals (trips ! nat ti) ! pos)"
      using pos assms(7,8) len(1) by (simp add: u_def fits_def alight_arrives)
    then have "arrives_by E (fst u) k (StopIDs route ! pos) (Arrivals (trips ! c) ! pos)"
      by (rule arrives_by_mono [OF _ arr [OF t(2) b(3)]])
    with t covers_from_advances [OF t(3) adv] show ?thesis using covers_from_Suc by blast
  qed
  text \<open>The ride after boarding at \<open>pos\<close> is no later than the one before, nor than any boardable here.\<close>
  have keep: "0 \<le> ti' \<and> nat ti' \<le> nat ti" if "0 \<le> ti"
  proof (cases "ti' = ti")
    case False
    then obtain r where r: "\<not> r > curDep" "ti' = earliestTrip E trips pos r curDep" "0 \<le> ti'"
      using st by (auto split: option.splits if_splits)
    from earliestTrip_cand [OF r(2) [symmetric] r(3)] have c: "nat ti' < length trips" "Departures (trips ! nat ti') ! pos < curDep" by auto
    have "curDep = Departures (trips ! nat ti) ! pos" using that assms(8) len(1) pos by (simp add: curDep_def fits_def)
    with c have "\<not> nat ti \<le> nat ti'"
      using computeFIFO_departures [OF assms(2), of "nat ti" "nat ti'"] len(1) [OF c(1)] pos by (fastforce simp: fits_def not_less)
    with r(3) show ?thesis by simp
  qed (use that in simp)
  have here: "0 \<le> ti' \<and> nat ti' \<le> c" if c: "c < length trips" "boardable E k (fst u) route (trips ! c) pos" for c
  proof -
    obtain r where r: "ready_at E k (fst u) (StopIDs route ! pos) = Some r" "r \<le> Departures (trips ! c) ! pos"
      and u: "tripUsable E (trips ! c)" "Suc pos < length (StopIDs route)"
      using c(2) by (auto simp: boardable_def)
    show ?thesis
    proof (cases "Departures (trips ! c) ! pos < curDep")
      case True
      have "\<forall>t \<in> set trips. pos < length (Departures t)" using assms(3) pos by (auto simp: fits_def)
      from earliestTrip_first [OF assms(2) this c(1) u(1) r(2) True] r True st show ?thesis by (auto split: if_splits)
    next
      case False
      with len(2) [OF c(1) u(2)] have ti: "0 \<le> ti" "curDep = Departures (trips ! nat ti) ! pos"
        by (auto simp: curDep_def split: if_splits)
      have "nat ti \<le> c"
      proof (rule ccontr)
        assume "\<not> nat ti \<le> c"
        then have "c < nat ti" "nat ti < length trips" using assms(8) ti(1) by auto
        with assms(4) pos len(1) [of "nat ti"] have "Departures (trips ! c) ! pos \<noteq> Departures (trips ! nat ti) ! pos"
          by (auto simp: leave_apart_def fits_def)
        moreover have "Departures (trips ! c) ! pos \<le> Departures (trips ! nat ti) ! pos"
          using computeFIFO_departures [OF assms(2), of c "nat ti"] \<open>c < nat ti\<close> \<open>nat ti < length trips\<close> len(1) [of "nat ti"] pos
          by (auto simp: fits_def)
        ultimately show False using False ti(2) by simp
      qed
      with keep [OF ti(1)] show ?thesis by simp
    qed
  qed
  have "0 \<le> ti' \<longrightarrow> nat ti' < length trips"
  proof (cases "ti' = ti")
    case False
    then obtain r where "ti' = earliestTrip E trips pos r curDep" "0 \<le> ti'"
      using st by (auto split: option.splits if_splits)
    then show ?thesis using earliestTrip_cand by blast
  qed (use assms(8) in simp)
  moreover have "0 \<le> ti' \<and> nat ti' \<le> c \<and> covers_from E k (fst u) route (trips ! c) i (Suc pos)"
    if "bp \<le> i" "i < Suc pos" "c < length trips" "boardable E k (fst u) route (trips ! c) i" for i c
  proof (cases "i = pos")
    case True
    with here that show ?thesis by (simp add: covers_from_def)
  next
    case False
    with old [of i c] that keep show ?thesis by fastforce
  qed
  ultimately show ?thesis using adv rdy by (simp add: w')
qed

lemma classic_scan_covers:
  assumes "1 \<le> k" "computeFIFO trips" "\<forall>t \<in> set trips. fits route t" "leave_apart trips"
    and "\<forall>t \<in> set trips. \<forall>i. Suc i < length (StopIDs route) \<longrightarrow> Departures t ! i < infinity"
    and "synced k (fst w)" "bp \<le> i" "t \<in> set trips" "boardable E k (fst w) route t i"
  shows "covers_from E k (fst (snd (fold (scan_stop E k route trips) [bp..<length (StopIDs route)] ((-1, [], 0), w)))) route t i
    (length (StopIDs route))"
proof -
  define P where "P pos x \<longleftrightarrow> (case x of ((ti, bs, bd), v) \<Rightarrow>
      synced k (fst v) \<and> ready_at E k (fst v) = ready_at E k (fst w) \<and> (0 \<le> ti \<longrightarrow> nat ti < length trips) \<and>
      (\<forall>i c. bp \<le> i \<longrightarrow> i < pos \<longrightarrow> c < length trips \<longrightarrow> boardable E k (fst v) route (trips ! c) i \<longrightarrow>
         0 \<le> ti \<and> nat ti \<le> c \<and> covers_from E k (fst v) route (trips ! c) i pos))"
    for pos and x :: "ride \<times> work"
  have "P (max bp (length (StopIDs route))) (fold (scan_stop E k route trips) [bp..<length (StopIDs route)] ((-1, [], 0), w))"
  proof (rule fold_upt_inv)
    show "P bp ((-1, [], 0), w)" using assms(6) by (simp add: P_def)
    fix i and x :: "ride \<times> work"
    assume i: "i < length (StopIDs route)" and "P i x"
    then obtain ti bs bd v where x: "x = ((ti, bs, bd), v)" "synced k (fst v)" "ready_at E k (fst v) = ready_at E k (fst w)"
        "0 \<le> ti \<Longrightarrow> nat ti < length trips"
        "\<And>i' c. bp \<le> i' \<Longrightarrow> i' < i \<Longrightarrow> c < length trips \<Longrightarrow> boardable E k (fst v) route (trips ! c) i' \<Longrightarrow>
           0 \<le> ti \<and> nat ti \<le> c \<and> covers_from E k (fst v) route (trips ! c) i' i"
      by (cases x) (auto simp: P_def)
    obtain ti' bs' bd' v' where st: "scan_stop E k route trips i ((ti, bs, bd), v) = ((ti', bs', bd'), v')"
      by (metis prod.exhaust)
    from scan_stop_covers [OF assms(1-5) i x(2,4,5) st] x(3)
    show "P (Suc i) (scan_stop E k route trips i x)" by (auto simp: P_def x(1) st advances_def)
  qed
  moreover have i: "i < length (StopIDs route)" using assms(9) by (simp add: boardable_def)
  moreover obtain ti bs bd v where f: "fold (scan_stop E k route trips) [bp..<length (StopIDs route)] ((-1, [], 0), w) = ((ti, bs, bd), v)"
    by (metis prod.exhaust)
  moreover have "max bp (length (StopIDs route)) = length (StopIDs route)" using i assms(7) by simp
  moreover obtain c where c: "c < length trips" "trips ! c = t" using assms(8) by (auto simp: in_set_conv_nth)
  ultimately have "boardable E k (fst v) route t i \<longrightarrow> covers_from E k (fst v) route t i (length (StopIDs route))"
    "ready_at E k (fst v) = ready_at E k (fst w)"
    using assms(7) by (auto simp: P_def)
  then have "covers_from E k (fst v) route t i (length (StopIDs route))"
    using assms(9) boardable_cong [of E k "fst v" "fst w" route t i] by blast
  with f show ?thesis by simp
qed

text \<open>The conditions of optimality.\<close>

definition walks_compose :: "route_buffer \<Rightarrow> bool" where
  "walks_compose buf \<longleftrightarrow>
     (\<forall>st. \<forall>fp \<in> set (gm_get (Footpaths buf) st []). \<forall>fp' \<in> set (gm_get (Footpaths buf) (NeighbourStop fp) []).
        NeighbourStop fp' = st \<or>
        (\<exists>d \<in> set (gm_get (Footpaths buf) st []). NeighbourStop d = NeighbourStop fp' \<and> WalkSeconds d \<le> WalkSeconds fp + WalkSeconds fp'))"

definition network_ok :: "search_env \<Rightarrow> bool" where
  "network_ok E \<longleftrightarrow> search_timed E \<and> buffer_wf (routes E) \<and> orders_ok (orders E) \<and> 0 \<le> xferSec E \<and> xferSec E < 2 ^ 62 \<and> walks_compose (routes E) \<and>
     (\<forall>ri < length (Routes (routes E)). IsFIFO (routes E) (int ri) \<longrightarrow> leave_apart (StopTimes (routes E) ! ri))"

lemma network_ok_route:
  assumes "network_ok E" "ri < length (Routes (routes E))"
  shows "ri < length (StopTimes (routes E))" "StopTimes (routes E) ! ri \<noteq> []" "StopIDs (Routes (routes E) ! ri) \<noteq> []"
    and "\<forall>t \<in> set (StopTimes (routes E) ! ri). fits (Routes (routes E) ! ri) t"
    and "IsFIFO (routes E) (int ri) \<Longrightarrow> computeFIFO (StopTimes (routes E) ! ri) \<and> leave_apart (StopTimes (routes E) ! ri)"
    and "\<forall>t \<in> set (StopTimes (routes E) ! ri). \<forall>i. Suc i < length (StopIDs (Routes (routes E) ! ri)) \<longrightarrow> Departures t ! i < infinity"
proof -
  have wf: "buffer_wf (routes E)" "search_timed E" using assms(1) by (auto simp: network_ok_def)
  then show len: "ri < length (StopTimes (routes E))" using assms(2) by (simp add: buffer_wf_def)
  have rw: "route_wf (Routes (routes E) ! ri) (StopTimes (routes E) ! ri)" using wf(1) assms(2) by (simp add: buffer_wf_def)
  then show "StopTimes (routes E) ! ri \<noteq> []" "StopIDs (Routes (routes E) ! ri) \<noteq> []"
    and f: "\<forall>t \<in> set (StopTimes (routes E) ! ri). fits (Routes (routes E) ! ri) t"
    by (auto simp: route_wf_def fits_def)
  show "IsFIFO (routes E) (int ri) \<Longrightarrow> computeFIFO (StopTimes (routes E) ! ri) \<and> leave_apart (StopTimes (routes E) ! ri)"
    using wf(1) assms by (auto simp: buffer_wf_def network_ok_def IsFIFO_def)
  show "\<forall>t \<in> set (StopTimes (routes E) ! ri). \<forall>i. Suc i < length (StopIDs (Routes (routes E) ! ri)) \<longrightarrow> Departures t ! i < infinity"
  proof (intro ballI allI impI)
    fix t i assume t: "t \<in> set (StopTimes (routes E) ! ri)" "Suc i < length (StopIDs (Routes (routes E) ! ri))"
    then have "timed_trip t" using wf(2) len by (auto simp: search_timed_def buffer_timed_def)
    with f t have "Departures t ! i \<le> Arrivals t ! Suc i" "Arrivals t ! Suc i < 2 ^ 62"
      by (auto simp: timed_trip_def fits_def list_all_length)
    then show "Departures t ! i < infinity" by (simp add: infinity_def max_int64_def)
  qed
qed

lemma scanRoute_covers:
  assumes "1 \<le> k" "network_ok E" "ri < length (Routes (routes E))" "synced k (fst w)"
    and "bp \<le> int i" "t \<in> set (StopTimes (routes E) ! ri)" "boardable E k (fst w) (Routes (routes E) ! ri) t i"
  shows "covers_from E k (fst (scanRoute E k (int ri) bp w)) (Routes (routes E) ! ri) t i (length (StopIDs (Routes (routes E) ! ri)))"
proof -
  let ?r = "Routes (routes E) ! ri" and ?ts = "StopTimes (routes E) ! ri"
  note r = network_ok_route [OF assms(2,3)]
  define b where "b = nat (if bp < 0 then 0 else bp)"
  have bp: "b \<le> i" using assms(5) by (auto simp: b_def)
  have rt: "route_trip E ?r t" if "t \<in> set ?ts" for t using that assms(3) r(1) by (auto simp: route_trip_def)
  show ?thesis
  proof (cases "IsFIFO (routes E) (int ri)")
    case True
    with classic_scan_covers [OF assms(1) _ r(4) _ r(6) assms(4) bp assms(6,7)] r show ?thesis
      using assms(3) by (simp add: scanRoute_def Let_def b_def)
  next
    case False
    obtain xs ys where ts: "?ts = xs @ t # ys" using split_list [OF assms(6)] by blast
    let ?f = "\<lambda>t. scanTrip E k ?r t b"
    have run: "run_of E k v (fold ?f zs v)" if "set zs \<subseteq> set ?ts" for zs v
      using that rt by (intro fold_run_of scanTrip_run [OF assms(1)]) auto
    let ?v = "fold ?f xs w"
    have v: "run_of E k w ?v" by (rule run) (auto simp: ts)
    then have "synced k (fst ?v)" "boardable E k (fst ?v) ?r t i"
      using run_of_advances [OF v assms(4)] assms(7) boardable_cong [of E k "fst ?v" "fst w"] by (auto simp: advances_def run_of_def)
    with assms(1,6) r(4) bp have "covers_from E k (fst (?f t ?v)) ?r t i (length (StopIDs ?r))"
      by (intro scanTrip_covers) (auto simp: boardable_def)
    moreover have "synced k (fst (?f t ?v))"
      using run_of_advances [OF scanTrip_run [OF assms(1) rt [OF assms(6)]] \<open>synced k (fst ?v)\<close>] by (simp add: advances_def)
    then have "advances E k (?f t ?v) (fold ?f ys (?f t ?v))"
      by (intro run_of_advances run) (auto simp: ts)
    ultimately have "covers_from E k (fst (fold ?f ?ts w)) ?r t i (length (StopIDs ?r))"
      unfolding ts by (auto intro: covers_from_advances)
    with False r assms(3) show ?thesis by (simp add: scanRoute_def Let_def b_def)
  qed
qed

section \<open>The queue holds every route of a marked station, from its first position\<close>

lemma enqueue_stop_min:
  assumes "rs = \<lparr>RouteIdx = int ri, StopPos = int i\<rparr>" "ri < length (Routes buf)"
    and "rs \<in> set xs \<or> (\<exists>p \<le> int i. map_of q (int ri) = Some p)"
  shows "\<exists>p \<le> int i. map_of (fold (enqueue_stop buf) xs q) (int ri) = Some p"
  using assms(3)
proof (induction xs arbitrary: q)
  case (Cons x xs)
  have "x = rs \<or> (\<exists>p \<le> int i. map_of q (int ri) = Some p) \<Longrightarrow> \<exists>p \<le> int i. map_of (enqueue_stop buf x q) (int ri) = Some p"
    using assms(1,2) by (fastforce simp: enqueue_stop_def gomap_simps split: option.splits)
  with Cons.prems Cons.IH [of "enqueue_stop buf x q"] show ?case by auto
qed simp

lemma build_queue_min:
  assumes "buffer_wf (routes E)" "orders_ok (orders E)" "st \<in> set marked" "ri < length (Routes (routes E))"
    and "i < length (StopIDs (Routes (routes E) ! ri))" "StopIDs (Routes (routes E) ! ri) ! i = st"
  shows "\<exists>p \<le> int i. map_of (build_queue E k marked) (int ri) = Some p"
proof -
  let ?g = "\<lambda>stop. gm_get (StopToRoutes (routes E)) stop []" and ?rs = "\<lparr>RouteIdx = int ri, StopPos = int i\<rparr>"
  have cat: "fold (\<lambda>st. fold f (g st)) xs = fold f (concat (map g xs))" for f :: "route_stop \<Rightarrow> (int, int) gomap \<Rightarrow> _" and g and xs :: "string list"
    by (induction xs) auto
  have "mset (iter_marked (orders E) k marked) = mset marked" using assms(2) by (simp add: orders_ok_def)
  then have "st \<in> set (iter_marked (orders E) k marked)" using assms(3) by (metis set_mset_mset)
  moreover have "?rs \<in> set (?g st)" using assms(1,4-6) by (fastforce simp: buffer_wf_def stops_indexed_def)
  ultimately have "?rs \<in> set (concat (map ?g (iter_marked (orders E) k marked)))" by auto
  then show ?thesis
    unfolding build_queue_def cat by (intro enqueue_stop_min [OF refl assms(4)]) simp
qed

section \<open>A round\<close>

text \<open>Every ride that leaves a station from time \<open>a\<close> on is matched by the labels of round \<open>k\<close>.\<close>

definition rides_from :: "search_env \<Rightarrow> nat \<Rightarrow> search_state \<Rightarrow> string \<Rightarrow> int \<Rightarrow> bool" where
  "rides_from E k s st a \<longleftrightarrow> (\<forall>route t i j. ride_exists E route t i j \<longrightarrow> StopIDs route ! i = st \<longrightarrow> a \<le> Departures t ! i \<longrightarrow>
     arrives_by E s k (StopIDs route ! j) (Arrivals t ! j))"

lemma rides_from_advances: "rides_from E k (fst w) st a \<Longrightarrow> advances E k w w' \<Longrightarrow> rides_from E k (fst w') st a"
  by (simp add: rides_from_def advances_def)

lemma rides_from_mono: "rides_from E k s st r \<Longrightarrow> r \<le> r' \<Longrightarrow> rides_from E k s st r'"
  by (force simp: rides_from_def)

lemma ready_tau: "ready_at E (k + 1) s st = Some r \<Longrightarrow> \<exists>a. tau s k st = Some a"
  by (auto simp: ready_at_def split: option.splits)

lemma ready_label:
  assumes "network_ok E" "times_settled E (k - 1) s" "tau s (k - 1) st = Some a"
  shows "\<exists>r \<le> a + slack E (k - 1). ready_at E k s st = Some r"
proof -
  have ok: "label_ok E s (k - 1) st" "times_ok E s" "search_timed E" "0 \<le> xferSec E" "xferSec E < 2 ^ 62"
    using assms(1,2) by (auto simp: times_settled_def labels_ok_def network_ok_def)
  show ?thesis
  proof (cases "\<exists>e. journal s (k - 1) st = Some e \<and> je_kind e = LegTransit")
    case True
    then obtain e where e: "journal s (k - 1) st = Some e" "je_kind e = LegTransit" by blast
    with ok(1,2) assms(3) have t: "je_arrival e = a" "entry_timed E st e" "reached_by E s st a" "k - 1 \<noteq> 0"
      by (auto simp: label_ok_def times_ok_def entry_linked_def)
    with e(2) ok(3) have "0 \<le> a" "a < 2 ^ 62" by (auto simp: entry_timed_def reached_by_def search_timed_def params_timed_def)
    with ok(4,5) have "i64 (a + xferSec E) = a + xferSec E" by (intro i64_id in_i64I) simp_all
    with e assms(3) t(4) show ?thesis by (simp add: ready_at_def slack_def)
  next
    case False
    with assms(3) have "ready_at E k s st = Some a" by (auto simp: ready_at_def split: option.splits)
    moreover have "a \<le> a + slack E (k - 1)" using ok(4) by (simp add: slack_def)
    ultimately show ?thesis by blast
  qed
qed

lemma scans_cover:
  assumes "1 \<le> k" "network_ok E" "times_settled E (k - 1) s" "synced (k - 1) s"
    and sc: "fold (\<lambda>ri. scanRoute E k ri (gm_get queue ri 0)) order (copy_labels k s, []) = w"
    and queue: "queue = build_queue E k marked" "order = sort (iter_queue (orders E) k (map fst queue))"
  shows "advances E k (copy_labels k s, []) w"
    and "st \<in> set marked \<Longrightarrow> ready_at E k s st = Some r \<Longrightarrow> rides_from E k (fst w) st r"
proof -
  let ?f = "\<lambda>ri. scanRoute E k ri (gm_get queue ri 0)" and ?w = "(copy_labels k s, [])"
  have wf: "buffer_wf (routes E)" "orders_ok (orders E)" using assms(2) by (auto simp: network_ok_def)
  have flags: "flags_ok (routes E)" using wf(1) by (auto simp: buffer_wf_def flags_ok_def IsFIFO_def)
  have run: "run_of E k v (fold ?f xs v)" for xs v by (intro fold_run_of scanRoute_run [OF assms(1) flags])
  have sync: "synced k (fst ?w)" using assms(1,4) by (simp add: synced_def copy_labels_def)
  show "advances E k ?w w" using run_of_advances [OF run sync, of order] sc by simp
  assume st: "st \<in> set marked" "ready_at E k s st = Some r"
  have same: "tau (copy_labels k s) (k - 1) = tau s (k - 1)" "journal (copy_labels k s) (k - 1) = journal s (k - 1)"
    using assms(1) by (auto simp: copy_labels_def)
  have rdy: "ready_at E k (copy_labels k s) st = Some r" using st(2) ready_at_cong [OF same] by metis
  show "rides_from E k (fst w) st r"
    unfolding rides_from_def
  proof (intro allI impI)
    fix route t i j
    assume ride: "ride_exists E route t i j" "StopIDs route ! i = st" "r \<le> Departures t ! i"
    then obtain ri where ri: "ri < length (Routes (routes E))" "Routes (routes E) ! ri = route" "t \<in> set (StopTimes (routes E) ! ri)"
      and ij: "i < j" "j < length (StopIDs route)" "tripUsable E t" by (auto simp: ride_exists_def)
    from build_queue_min [OF wf st(1) ri(1), of i k] ri(2) ij ride(2) obtain p
      where p: "p \<le> int i" "map_of queue (int ri) = Some p" by (auto simp: queue(1))
    then have "gm_get queue (int ri) 0 \<le> int i" "int ri \<in> set (map fst queue)"
      by (simp_all add: gm_get_def) (metis domI dom_map_of_conv_image_fst)
    moreover have "mset (iter_queue (orders E) k (map fst queue)) = mset (map fst queue)" using wf(2) by (simp add: orders_ok_def)
    ultimately have "int ri \<in> set order" by (metis queue(2) set_mset_mset set_sort)
    then obtain xs ys where order: "order = xs @ int ri # ys" by (auto dest: split_list)
    define v where "v = fold ?f xs ?w"
    have v: "run_of E k ?w v" unfolding v_def by (rule run)
    then have vs: "synced k (fst v)" "ready_at E k (fst v) = ready_at E k (copy_labels k s)"
      using run_of_advances [OF v sync] by (simp_all add: advances_def run_of_def)
    have "boardable E k (fst v) (Routes (routes E) ! ri) t i"
      using vs(2) rdy ri(2) ij ride(2,3) by (auto simp: boardable_def)
    from scanRoute_covers [OF assms(1,2) ri(1) vs(1) \<open>gm_get queue (int ri) 0 \<le> int i\<close> ri(3) this]
    have "arrives_by E (fst (?f (int ri) v)) k (StopIDs route ! j) (Arrivals t ! j)"
      using ij ri(2) by (simp add: covers_from_def)
    moreover have "synced k (fst (?f (int ri) v))"
      using run_of_advances [OF scanRoute_run [OF assms(1) flags] vs(1)] by (simp add: advances_def)
    then have "advances E k (?f (int ri) v) w"
      using run_of_advances [OF run [of "?f (int ri) v" ys]] sc by (simp add: order v_def)
    ultimately show "arrives_by E (fst w) k (StopIDs route ! j) (Arrivals t ! j)" by (simp add: advances_def)
  qed
qed

section \<open>The walks of a round\<close>

lemma walk_edges_flat:
  "fold (\<lambda>(from, depart). fold (walk_edge_step E k from depart) (walks_from E from)) srcs w =
   fold (\<lambda>(from, depart, fp). walk_edge_step E k from depart fp)
     (concat (map (\<lambda>(from, depart). map (\<lambda>fp. (from, depart, fp)) (walks_from E from)) srcs)) w"
  by (induction srcs arbitrary: w) (auto simp: fold_map o_def)

lemma walk_edges_cover:
  assumes "\<And>x d fp. (x, d, fp) \<in> set ps \<Longrightarrow> i64 (d + WalkSeconds fp) = d + WalkSeconds fp" "synced k (fst w)"
  shows "advances E k w (fold (\<lambda>(from, depart, fp). walk_edge_step E k from depart fp) ps w) \<and>
    (\<forall>(x, d, fp) \<in> set ps. arrives_by E (fst (fold (\<lambda>(from, depart, fp). walk_edge_step E k from depart fp) ps w)) k
       (NeighbourStop fp) (d + WalkSeconds fp)) \<and>
    (\<forall>st a. tau (fst (fold (\<lambda>(from, depart, fp). walk_edge_step E k from depart fp) ps w)) k st = Some a \<longrightarrow>
       tau (fst w) k st = Some a \<or> (\<exists>(x, d, fp) \<in> set ps. NeighbourStop fp = st \<and> a = d + WalkSeconds fp))"
  using assms
proof (induction ps arbitrary: w)
  case (Cons p ps)
  obtain x d fp where p: "p = (x, d, fp)" by (cases p)
  let ?w = "walk_edge_step E k x d fp w"
  have arr: "i64 (d + WalkSeconds fp) = d + WalkSeconds fp" using Cons.prems(1) [of x d fp] by (simp add: p)
  have one: "advances E k w ?w" "arrives_by E (fst ?w) k (NeighbourStop fp) (d + WalkSeconds fp)"
    using Cons.prems(2) by (auto simp: walk_edge_step_def Let_def arr set_label_advances advances_refl set_label_arrives not_improves_arrives)
  have new: "tau (fst w) k st = Some a \<or> NeighbourStop fp = st \<and> a = d + WalkSeconds fp" if "tau (fst ?w) k st = Some a" for st a
    using that by (auto simp: walk_edge_step_def Let_def arr split: if_splits)
  have rest: "advances E k ?w (fold (\<lambda>(from, depart, fp). walk_edge_step E k from depart fp) ps ?w) \<and>
    (\<forall>(x, d, fp) \<in> set ps. arrives_by E (fst (fold (\<lambda>(from, depart, fp). walk_edge_step E k from depart fp) ps ?w)) k
       (NeighbourStop fp) (d + WalkSeconds fp)) \<and>
    (\<forall>st a. tau (fst (fold (\<lambda>(from, depart, fp). walk_edge_step E k from depart fp) ps ?w)) k st = Some a \<longrightarrow>
       tau (fst ?w) k st = Some a \<or> (\<exists>(x, d, fp) \<in> set ps. NeighbourStop fp = st \<and> a = d + WalkSeconds fp))"
    using Cons.prems(1) one(1) by (intro Cons.IH) (auto simp: advances_def)
  let ?v = "fold (\<lambda>(from, depart, fp). walk_edge_step E k from depart fp) ps ?w"
  have "advances E k w ?v" using one(1) rest advances_trans by blast
  moreover have "arrives_by E (fst ?v) k (NeighbourStop fp) (d + WalkSeconds fp)" using one(2) rest by (simp add: advances_def)
  moreover have "tau (fst w) k st = Some a \<or> (\<exists>(x, d, fp) \<in> set (p # ps). NeighbourStop fp = st \<and> a = d + WalkSeconds fp)"
    if "tau (fst ?v) k st = Some a" for st a
    using that rest new [of st a] by (auto simp: p)
  ultimately show ?case using rest by (simp add: p)
qed (simp add: advances_refl)

lemma snapshot_complete:
  "fold (snapshot_source E k) sources (s, srcs) = (s', srcs') \<Longrightarrow> set srcs \<subseteq> set srcs' \<and>
     (x \<in> set sources \<longrightarrow> walks_from E x \<noteq> [] \<longrightarrow> tau s k x = Some d \<longrightarrow> (x, d) \<in> set srcs')"
proof (induction sources arbitrary: s srcs)
  case (Cons y ys)
  obtain s1 srcs1 where one: "snapshot_source E k y (s, srcs) = (s1, srcs1)" by fastforce
  then have keep: "tau s1 = tau s" "set srcs \<subseteq> set srcs1" "walks_from E y \<noteq> [] \<Longrightarrow> tau s k y = Some d \<Longrightarrow> (y, d) \<in> set srcs1"
    by (auto simp: snapshot_source_def split: if_splits option.splits)
  from Cons.prems one have "fold (snapshot_source E k) ys (s1, srcs1) = (s', srcs')" by simp
  from Cons.IH [OF this] keep show ?case by auto
qed simp

lemma relax_covers:
  assumes "network_ok E" "synced k s" "relaxFootpaths E k sources (s, imp) = w'"
    and times: "\<And>s1 srcs. snapshot_of k s sources s1 srcs \<Longrightarrow> times_walking E k srcs (s1, imp)"
  shows "advances E k (s, imp) w'"
    and "x \<in> set sources \<Longrightarrow> tau s k x = Some d \<Longrightarrow> fp \<in> set (walks_from E x) \<Longrightarrow>
      arrives_by E (fst w') k (NeighbourStop fp) (d + WalkSeconds fp)"
    and "tau (fst w') k st = Some a \<Longrightarrow> tau s k st = Some a \<or>
      (\<exists>x d fp. tau s k x = Some d \<and> x \<in> set sources \<and> fp \<in> set (walks_from E x) \<and> NeighbourStop fp = st \<and> a = d + WalkSeconds fp)"
proof -
  obtain s1 srcs where f: "fold (snapshot_source E k) sources (s, []) = (s1, srcs)" by fastforce
  have "snapshot_of k s [] s []" by (simp add: snapshot_of_def)
  from snapshot_fold [OF f this] have sn: "snapshot_of k s sources s1 srcs" by simp
  then have same: "tau s1 = tau s" "best s1 = best s" "journal s1 = journal s" by (simp_all add: snapshot_of_def)
  have src: "x \<in> set sources \<and> tau s k x = Some d" if "(x, d) \<in> set srcs" for x d
    using sn that unfolding snapshot_of_def by blast
  define ps where "ps = concat (map (\<lambda>(from, depart). map (\<lambda>fp. (from, depart, fp)) (walks_from E from)) srcs)"
  have mem: "(x, d, fp) \<in> set ps \<longleftrightarrow> (x, d) \<in> set srcs \<and> fp \<in> set (walks_from E x)" for x d fp
    by (auto simp: ps_def)
  have w': "w' = fold (\<lambda>(from, depart, fp). walk_edge_step E k from depart fp) ps (s1, imp)"
    using assms(3) f by (simp add: relaxFootpaths_def walk_edges_flat ps_def)
  have timed: "search_timed E" using assms(1) by (simp add: network_ok_def)
  have "i64 (d + WalkSeconds fp) = d + WalkSeconds fp" if "(x, d, fp) \<in> set ps" for x d fp
  proof -
    from that mem have m: "(x, d) \<in> set srcs" "fp \<in> set (walks_from E x)" by auto
    from times [OF sn] timed m(1) have "reached_by E s1 x d" "d < 2 ^ 62" by (auto simp: times_walking_def)
    then have "0 \<le> d" "d < 2 ^ 62" using timed by (auto simp: reached_by_def search_timed_def params_timed_def)
    with timed_walk [OF timed m(2)] show ?thesis by (simp add: i64_plus)
  qed
  from walk_edges_cover [of ps k "(s1, imp)" E, OF this] assms(2) same
  have cover: "advances E k (s1, imp) w'" "\<forall>(x, d, fp) \<in> set ps. arrives_by E (fst w') k (NeighbourStop fp) (d + WalkSeconds fp)"
    "\<forall>st a. tau (fst w') k st = Some a \<longrightarrow> tau s k st = Some a \<or> (\<exists>(x, d, fp) \<in> set ps. NeighbourStop fp = st \<and> a = d + WalkSeconds fp)"
    by (auto simp: w' synced_def)
  show "advances E k (s, imp) w'" using cover(1) same by (auto simp: advances_def arrives_by_def)
  show "arrives_by E (fst w') k (NeighbourStop fp) (d + WalkSeconds fp)"
    if "x \<in> set sources" "tau s k x = Some d" "fp \<in> set (walks_from E x)"
    using that cover(2) snapshot_complete [OF f, of x d] mem [of x d fp] by fastforce
  show "tau s k st = Some a \<or>
      (\<exists>x d fp. tau s k x = Some d \<and> x \<in> set sources \<and> fp \<in> set (walks_from E x) \<and> NeighbourStop fp = st \<and> a = d + WalkSeconds fp)"
    if "tau (fst w') k st = Some a"
  proof (cases "tau s k st = Some a")
    case False
    with that cover(3) obtain x d fp where "(x, d, fp) \<in> set ps" "NeighbourStop fp = st" "a = d + WalkSeconds fp" by blast
    with src mem show ?thesis by blast
  qed simp
qed

section \<open>Round by round\<close>

definition walks_covered :: "search_env \<Rightarrow> nat \<Rightarrow> search_state \<Rightarrow> bool" where
  "walks_covered E k s \<longleftrightarrow> (\<forall>st a fp. tau s k st = Some a \<longrightarrow> fp \<in> set (walks_from E st) \<longrightarrow>
     arrives_by E s k (NeighbourStop fp) (a + WalkSeconds fp))"

definition complete_at :: "search_env \<Rightarrow> nat \<Rightarrow> work \<Rightarrow> bool" where
  "complete_at E k w \<longleftrightarrow> times_settled E k (fst w) \<and> synced k (fst w) \<and> walks_covered E k (fst w) \<and>
     (\<forall>st r. st \<notin> set (snd w) \<longrightarrow> ready_at E (k + 1) (fst w) st = Some r \<longrightarrow> rides_from E k (fst w) st r) \<and>
     (\<forall>j st t walked. j \<le> k \<longrightarrow> unhurried_to E j st t walked \<longrightarrow> arrives_by E (fst w) k st t)"

lemma complete_journey: "complete_at E k w \<Longrightarrow> j \<le> k \<Longrightarrow> unhurried_to E j st t walked \<Longrightarrow> arrives_by E (fst w) k st t"
  unfolding complete_at_def by blast

lemma foot_step:
  assumes "network_ok E" "walks_covered E k s" "arrives_by E s k st t" "fp \<in> set (walks_from E st)"
  shows "arrives_by E s k (NeighbourStop fp) (t + WalkSeconds fp)"
proof (cases "\<exists>a. tau s k st = Some a \<and> a \<le> t")
  case True
  then obtain a where a: "tau s k st = Some a" "a \<le> t" by blast
  with assms(2,4) have "arrives_by E s k (NeighbourStop fp) (a + WalkSeconds fp)" by (auto simp: walks_covered_def)
  then show ?thesis using a(2) by (auto intro: arrives_by_mono)
next
  case False
  have "0 \<le> WalkSeconds fp" using assms(1,4) timed_walk(1) by (auto simp: network_ok_def)
  with False assms(3) show ?thesis by (force simp: arrives_by_def)
qed

lemma ride_step:
  assumes "network_ok E" "arrives_by E s k' st t" "\<And>a. tau s k' st = Some a \<Longrightarrow> rides_from E k s' st (a + d)"
    and "\<And>u. arrives_by E s k' (dest E) u \<Longrightarrow> arrives_by E s' k (dest E) u"
    and "ride_exists E route tr i j" "StopIDs route ! i = st" "t + d \<le> Departures tr ! i" "0 \<le> d"
  shows "arrives_by E s' k (StopIDs route ! j) (Arrivals tr ! j)"
proof (cases "\<exists>a. tau s k' st = Some a \<and> a \<le> t")
  case True
  then obtain a where "tau s k' st = Some a" "a + d \<le> Departures tr ! i" using assms(7) by fastforce
  with assms(3,5,6) show ?thesis by (auto simp: rides_from_def)
next
  case False
  then have "arrives_by E s k' (dest E) t" using assms(2) by (auto simp: arrives_by_def)
  moreover have "t \<le> Departures tr ! i" using assms(7,8) by simp
  ultimately have "arrives_by E s' k (dest E) (Arrivals tr ! j)"
    using assms(1,4,5) timed_ride(1) arrives_by_mono by (meson order_trans network_ok_def)
  then show ?thesis by (auto simp: arrives_by_def)
qed

lemma relax_walks_covered:
  assumes "network_ok E" "synced k s" "relaxFootpaths E k sources (s, imp) = w'"
    and times: "\<And>s1 srcs. snapshot_of k s sources s1 srcs \<Longrightarrow> times_walking E k srcs (s1, imp)"
    and old: "\<And>st a fp. st \<notin> set sources \<Longrightarrow> tau s k st = Some a \<Longrightarrow> fp \<in> set (walks_from E st) \<Longrightarrow>
      arrives_by E s k (NeighbourStop fp) (a + WalkSeconds fp)"
  shows "walks_covered E k (fst w')"
  unfolding walks_covered_def
proof (intro allI impI)
  fix st a fp
  assume st: "tau (fst w') k st = Some a" "fp \<in> set (walks_from E st)"
  note relax = relax_covers [OF assms(1-3) times]
  show "arrives_by E (fst w') k (NeighbourStop fp) (a + WalkSeconds fp)"
  proof (cases "tau s k st = Some a")
    case True
    with old st(2) relax(1,2) show ?thesis by (cases "st \<in> set sources") (auto simp: advances_def)
  next
    case False
    with relax(3) [OF _ st(1)] obtain x d fp' where x: "tau s k x = Some d" "x \<in> set sources" "fp' \<in> set (walks_from E x)"
      "NeighbourStop fp' = st" "a = d + WalkSeconds fp'" by auto
    have timed: "search_timed E" "walks_compose (routes E)" using assms(1) by (auto simp: network_ok_def)
    show ?thesis
    proof (cases "NeighbourStop fp = x")
      case True
      have "arrives_by E (fst w') k x d" using relax(1) x(1) by (auto simp: advances_def arrives_by_def)
      moreover have "d \<le> a + WalkSeconds fp" using timed_walk(1) [OF timed(1) st(2)] timed_walk(1) [OF timed(1) x(3)] x(5) by simp
      ultimately show ?thesis unfolding True by (rule arrives_by_mono)
    next
      case False
      with timed(2) x(3,4) st(2) obtain e where e: "e \<in> set (walks_from E x)" "NeighbourStop e = NeighbourStop fp"
        "WalkSeconds e \<le> WalkSeconds fp' + WalkSeconds fp" unfolding walks_compose_def by blast
      have "arrives_by E (fst w') k (NeighbourStop fp) (d + WalkSeconds e)" using relax(2) [OF _ x(2,1) e(1)] e(2) by simp
      then show ?thesis using e(3) x(5) by (auto intro: arrives_by_mono)
    qed
  qed
qed

lemma start_complete:
  assumes "network_ok E"
  shows "complete_at E 0 (relaxFootpaths E 0 [Origin (params E)] (init_state (params E), [Origin (params E)]))"
proof -
  let ?o = "Origin (params E)" and ?s = "init_state (params E)"
  define w where "w = relaxFootpaths E 0 [?o] (?s, [?o])"
  have sync: "synced 0 ?s" by (simp add: synced_def init_state_def)
  note relax = relax_covers [OF assms sync w_def [symmetric] times_start]
  have adv: "advances E 0 (?s, [?o]) w" by (rule relax(1))
  have walks: "walks_covered E 0 (fst w)"
    by (rule relax_walks_covered [OF assms sync w_def [symmetric] times_start]) (auto simp: init_state_def)
  from relaxFootpaths_run [OF w_def [symmetric]] obtain s1 srcs where "snapshot_of 0 ?s [?o] s1 srcs"
    "(walk_step E 0 srcs)\<^sup>*\<^sup>* (s1, [?o]) w" .
  then have settled: "times_settled E 0 (fst w)"
    using times_start times.walk_run times.finish by blast
  have origin: "arrives_by E (fst w) 0 ?o (DepTime (params E))"
    using adv by (auto simp: advances_def arrives_by_def init_state_def)
  have foot0: "arrives_by E (fst w) 0 st t" if "unhurried_to E 0 st t False" for st t
    using that by cases (auto intro: origin)
  have "arrives_by E (fst w) 0 st t" if "unhurried_to E 0 st t walked" for st t walked
    using that by cases (auto intro: origin foot_step [OF assms walks foot0])
  moreover have marked: "st \<in> set (snd w)" if "tau (fst w) 0 st = Some a" for st a
  proof (rule ccontr)
    assume "st \<notin> set (snd w)"
    with adv that have "tau ?s 0 st = Some a" "?o \<in> set (snd w)" by (auto simp: advances_def)
    with \<open>st \<notin> set (snd w)\<close> show False by (auto simp: init_state_def split: if_splits)
  qed
  moreover have "rides_from E 0 (fst w) st r" if "st \<notin> set (snd w)" "ready_at E (0 + 1) (fst w) st = Some r" for st r
    using ready_tau [OF that(2)] marked that(1) by blast
  ultimately show ?thesis
    using settled walks adv unfolding complete_at_def w_def [symmetric] advances_def by simp
qed

lemma round_complete:
  assumes "1 \<le> k" "network_ok E" "complete_at E (k - 1) (s, marked)"
  shows "complete_at E k (search_round E k (s, marked)) \<and>
    (\<forall>j < k. tau (fst (search_round E k (s, marked))) j = tau s j \<and> journal (fst (search_round E k (s, marked))) j = journal s j)"
proof -
  have wf: "buffer_wf (routes E)" "orders_ok (orders E)" using assms(2) by (auto simp: network_ok_def)
  have flags: "flags_ok (routes E)" using wf(1) by (auto simp: buffer_wf_def flags_ok_def IsFIFO_def)
  have c: "times_settled E (k - 1) s" "synced (k - 1) s" "walks_covered E (k - 1) s"
    "\<And>st r. st \<notin> set marked \<Longrightarrow> ready_at E k s st = Some r \<Longrightarrow> rides_from E (k - 1) s st r"
    using assms(1,3) by (auto simp: complete_at_def)
  have cj: "j \<le> k - 1 \<Longrightarrow> unhurried_to E j st t walked \<Longrightarrow> arrives_by E s (k - 1) st t" for j st t walked
    using complete_journey [OF assms(3)] by simp
  define queue where "queue = build_queue E k marked"
  define order where "order = sort (iter_queue (orders E) k (map fst queue))"
  define s0 where "s0 = copy_labels k s"
  obtain s1 imp where sc: "fold (\<lambda>ri. scanRoute E k ri (gm_get queue ri 0)) order (s0, []) = (s1, imp)" by fastforce
  define sources where "sources = sort (iter_improved (orders E) k imp)"
  define w where "w = relaxFootpaths E k sources (s1, imp)"
  have res: "search_round E k (s, marked) = w"
    using sc by (simp add: search_round_def Let_def queue_def order_def sources_def w_def s0_def)
  have "mset (iter_improved (orders E) k imp) = mset imp" using wf(2) by (simp add: orders_ok_def)
  then have srcs: "set sources = set imp" unfolding sources_def by (metis set_mset_mset set_sort)
  text \<open>The scans.\<close>
  note scans = scans_cover [OF assms(1,2) c(1,2) sc [unfolded s0_def] queue_def order_def]
  have adv1: "advances E k (s0, []) (s1, imp)" using scans(1) by (simp add: s0_def)
  have "run_of E k (s0, []) (s1, imp)"
    using fold_run_of [of order E k "\<lambda>ri. scanRoute E k ri (gm_get queue ri 0)"] scanRoute_run [OF assms(1) flags] sc by metis
  then have "times_scanning E k (s1, imp)"
    using times.transit_run [OF _ assms(1) times_copy [OF assms(1) c(1)]] by (simp add: run_of_def s0_def)
  note timesw = times_snapshot [OF assms(1) this srcs]
  have sync: "synced k s1" using adv1 by (simp add: advances_def)
  have tau0: "tau s0 k = tau s (k - 1)" by (simp add: s0_def copy_labels_def)
  then have arr0: "arrives_by E s0 k st t \<longleftrightarrow> arrives_by E s (k - 1) st t" for st t by (simp add: arrives_by_def)
  have same: "tau s1 k st = tau s (k - 1) st" if "st \<notin> set imp" for st using adv1 that tau0 by (simp add: advances_def)
  text \<open>The walks.\<close>
  have adv2: "advances E k (s1, imp) w" by (rule relax_covers(1) [OF assms(2) sync w_def [symmetric] timesw])
  have adv: "advances E k (s0, []) w" using adv1 adv2 by (rule advances_trans)
  have walks: "walks_covered E k (fst w)"
  proof (rule relax_walks_covered [OF assms(2) sync w_def [symmetric] timesw])
    fix st a fp assume "st \<notin> set sources" "tau s1 k st = Some a" "fp \<in> set (walks_from E st)"
    with same srcs c(3) have "arrives_by E s (k - 1) (NeighbourStop fp) (a + WalkSeconds fp)" by (auto simp: walks_covered_def)
    then show "arrives_by E s1 k (NeighbourStop fp) (a + WalkSeconds fp)" using adv1 arr0 by (simp add: advances_def)
  qed
  text \<open>Rides from every label of the round before.\<close>
  have rides: "rides_from E k (fst w) st r" if "ready_at E k s st = Some r" for st r
  proof (cases "st \<in> set marked")
    case True
    from scans(2) [OF this that] show ?thesis using rides_from_advances [OF _ adv2] by simp
  next
    case False
    from c(4) [OF this that] have "rides_from E k s0 st r" by (simp add: rides_from_def arr0)
    then show ?thesis using rides_from_advances [OF _ adv] by simp
  qed
  then have rides': "rides_from E k (fst w) st (a + slack E (k - 1))" if "tau s (k - 1) st = Some a" for st a
    using ready_label [OF assms(2) c(1) that] rides_from_mono by blast
  have later: "arrives_by E (fst w) k st t" if "arrives_by E s (k - 1) st t" for st t
    using that adv arr0 by (simp add: advances_def)
  have slack: "0 \<le> slack E j" for j using assms(2) by (auto simp: slack_def network_ok_def)
  have ridden: "arrives_by E (fst w) k st t" if "unhurried_to E k st t False" for st t
    using that
  proof cases
    case (by_vehicle k' st' t' walked route tr i j)
    then have "arrives_by E s (k - 1) st' t'" "t' + slack E (k - 1) \<le> Departures tr ! i" "ride_exists E route tr i j" "StopIDs route ! i = st'"
      using cj [of k'] by simp_all
    from ride_step [OF assms(2) this(1) rides' later this(3,4,2) slack] by_vehicle show ?thesis by simp
  qed (use assms(1) in simp_all)
  have "arrives_by E (fst w) k st t" if "j \<le> k" "unhurried_to E j st t walked" for j st t walked
  proof (cases "j = k")
    case True
    from that(2) [unfolded True] show ?thesis
      by cases (use assms(1) ridden that True in \<open>auto intro: foot_step [OF assms(2) walks ridden]\<close>)
  next
    case False
    with that cj [of j] later show ?thesis by simp
  qed
  moreover have "times_settled E k (fst w)"
    using times.round_settled [OF assms(1) c(1) flags wf(2), of marked] by (simp add: res)
  moreover have "rides_from E k (fst w) st r" if "st \<notin> set (snd w)" "ready_at E (k + 1) (fst w) st = Some r" for st r
  proof (rule rides)
    have "tau (fst w) k st = tau s (k - 1) st" "journal (fst w) k st = journal s (k - 1) st"
      using that(1) adv by (auto simp: advances_def s0_def copy_labels_def)
    then have "ready_at E (k + 1) (fst w) st = ready_at E k s st" by (simp only: ready_at_def diff_add_inverse2)
    with that(2) show "ready_at E k s st = Some r" by simp
  qed
  moreover have "tau (fst w) j = tau s j" "journal (fst w) j = journal s j" if "j < k" for j
    using that adv by (simp_all add: advances_def s0_def copy_labels_def)
  moreover have "synced k (fst w)" using adv by (simp add: advances_def)
  ultimately show ?thesis using walks unfolding complete_at_def res by blast
qed

text \<open>Nothing improved: every longer journey is matched as well.\<close>

lemma complete_stop:
  assumes "network_ok E" "complete_at E k (s, [])" "1 \<le> k" "unhurried_to E j st t walked"
  shows "arrives_by E s k st t"
  using assms(4)
proof induction
  case at_origin
  have "unhurried_to E 0 (Origin (params E)) (DepTime (params E)) False" by (rule unhurried_to.at_origin)
  with assms(2) show ?case unfolding complete_at_def by (metis fst_conv le0)
next
  case (on_foot k' st t fp)
  then show ?case using foot_step [OF assms(1)] assms(2) by (simp add: complete_at_def)
next
  case (by_vehicle k' st t walked route tr i j)
  show ?case
  proof (cases "k' + 1 \<le> k")
    case True
    from unhurried_to.by_vehicle [OF by_vehicle(1-4)] complete_journey [OF assms(2) True] show ?thesis by simp
  next
    case False
    with assms(3) have "slack E k' = slack E k" by (simp add: slack_def)
    moreover have "0 \<le> slack E k" using assms(1) by (auto simp: slack_def network_ok_def)
    moreover have "rides_from E k s st' (a + slack E k)" if "tau s k st' = Some a" for st' a
      using ready_label [OF assms(1), of "k + 1" s st' a] that assms(2) rides_from_mono by (fastforce simp: complete_at_def)
    ultimately show ?thesis
      using by_vehicle ride_step [OF assms(1), where s = s and k' = k and s' = s and k = k and st = st and t = t and d = "slack E k"] assms(2)
      by (auto simp: complete_at_def)
  qed
qed

definition labels_optimal :: "search_env \<Rightarrow> search_state \<Rightarrow> nat \<Rightarrow> bool" where
  "labels_optimal E s n \<longleftrightarrow> (\<forall>k t walked. k \<le> n \<longrightarrow> unhurried_to E k (dest E) t walked \<longrightarrow>
     (\<exists>m a. m \<le> k \<and> tau s m (dest E) = Some a \<and> a \<le> t))"

lemma rounds_optimal:
  assumes "network_ok E"
  shows "search_rounds cancelled E n k w = Some s \<Longrightarrow> 1 \<le> k \<Longrightarrow> complete_at E (k - 1) w \<Longrightarrow>
    labels_optimal E (fst w) (k - 1) \<Longrightarrow> labels_optimal E s (k + n - 1)"
proof (induction n arbitrary: k w)
  case (Suc n)
  obtain v marked where w: "w = (v, marked)" by (cases w)
  let ?w = "search_round E k w"
  have c: "complete_at E k ?w" and old: "\<And>j. j < k \<Longrightarrow> tau (fst ?w) j = tau v j"
    using round_complete [OF Suc.prems(2) assms] Suc.prems(3) by (simp_all add: w)
  have opt: "labels_optimal E (fst ?w) k"
    unfolding labels_optimal_def
  proof (intro allI impI)
    fix j t walked assume j: "j \<le> k" "unhurried_to E j (dest E) t walked"
    show "\<exists>m a. m \<le> j \<and> tau (fst ?w) m (dest E) = Some a \<and> a \<le> t"
    proof (cases "j = k")
      case True
      with c j have "arrives_by E (fst ?w) k (dest E) t" by (blast intro: complete_journey)
      with True show ?thesis by (auto simp: arrives_by_dest)
    next
      case False
      then have "j \<le> k - 1" using j(1) by simp
      with j(2) Suc.prems(4) obtain m a where "m \<le> j" "tau v m (dest E) = Some a" "a \<le> t"
        unfolding labels_optimal_def w fst_conv by blast
      with old [of m] False j(1) show ?thesis by auto
    qed
  qed
  show ?case
  proof (cases "snd ?w = []")
    case True
    with Suc.prems have s: "s = fst ?w" by (auto simp: Let_def split: if_splits)
    from True have w': "?w = (s, [])" using s by (metis prod.collapse)
    show ?thesis
      unfolding labels_optimal_def
    proof (intro allI impI)
      fix j t walked assume j: "j \<le> k + Suc n - 1" "unhurried_to E j (dest E) t walked"
      show "\<exists>m a. m \<le> j \<and> tau s m (dest E) = Some a \<and> a \<le> t"
      proof (cases "j \<le> k")
        case True
        with opt j(2) show ?thesis unfolding labels_optimal_def s by blast
      next
        case False
        from complete_stop [OF assms c [unfolded w'] Suc.prems(2) j(2)] obtain a where "tau s k (dest E) = Some a" "a \<le> t"
          by (auto simp: arrives_by_dest)
        with False show ?thesis by (intro exI [of _ k] exI [of _ a]) simp
      qed
    qed
  next
    case False
    with Suc.prems have "search_rounds cancelled E n (k + 1) ?w = Some s" by (auto simp: Let_def split: if_splits)
    from Suc.IH [OF this] c opt show ?thesis by simp
  qed
qed simp

lemma search_labels_optimal:
  assumes "network_ok E" "search_labels cancelled E = Some s"
  shows "labels_optimal E s (rounds E)"
proof -
  define w where "w = relaxFootpaths E 0 [Origin (params E)] (init_state (params E), [Origin (params E)])"
  have c: "complete_at E 0 w" using start_complete [OF assms(1)] by (simp add: w_def)
  then have "labels_optimal E (fst w) 0" by (fastforce simp: complete_at_def labels_optimal_def arrives_by_dest)
  with rounds_optimal [OF assms(1), of cancelled "rounds E" 1 w s] assms(2) c show ?thesis
    by (simp add: search_labels_def w_def)
qed

end
