(* ===== verification/Engine_Rounds.thy ===== *)
theory Engine_Rounds
  imports Engine_Optimal
begin

text \<open>
  One vehicle for each round of \<^verbatim>\<open>internal/raptor/engine.go\<close>. A label recorded in round \<open>k\<close> boards from a label
  that was recorded in round \<open>k - 1\<close>: an older one would have been ridden on before. So a journey rebuilt from a label that round
  \<open>k\<close> improved boards exactly \<open>k\<close> vehicles, whatever the transfer time.
\<close>

section \<open>The round of a label\<close>

text \<open>The round that recorded an entry: a ride leaves from the round before, a walk from its own. Labels without
  an entry are those of the origin.\<close>

definition round_of :: "journal_entry \<Rightarrow> int" where
  "round_of e = (if je_kind e = LegTransit then je_fromRound e + 1 else je_fromRound e)"

definition round_at :: "search_state \<Rightarrow> nat \<Rightarrow> string \<Rightarrow> int" where
  "round_at s k st = (case journal s k st of None \<Rightarrow> 0 | Some e \<Rightarrow> round_of e)"

lemma round_of_simps [simp]:
  "round_of (transit_entry k f key rid d a) = int k" "round_of (walk_entry k f d a) = int k"
  by (simp_all add: round_of_def)

lemma round_at_set_label [simp]:
  "round_at (fst (set_label k st a e w)) k st' = (if st' = st then round_of e else round_at (fst w) k st')"
  by (simp add: round_at_def)

lemma entry_linked_round_of: "entry_linked E s k e \<Longrightarrow> round_of e \<le> int k"
  by (auto simp: entry_linked_def round_of_def split: leg_kind.splits)

text \<open>Better than what the round \<open>k\<close> knew of the station and of the destination.\<close>

definition beats :: "search_env \<Rightarrow> search_state \<Rightarrow> nat \<Rightarrow> string \<Rightarrow> int \<Rightarrow> bool" where
  "beats E s k st a \<longleftrightarrow> (\<forall>b. tau s k st = Some b \<longrightarrow> a < b) \<and> (\<forall>b. tau s k (dest E) = Some b \<longrightarrow> a < b)"

lemma improves_beats:
  assumes "improves E s a st" "times_ok E s"
  shows "beats E s k st a"
proof -
  have "a < b" if "best s x = Some b" "x = st \<or> x = dest E" for x b
    using assms(1) that by (auto simp: improves_def split: if_splits option.splits)
  with assms(2) show ?thesis by (fastforce simp: beats_def times_ok_def reached_by_def)
qed

definition entry_new :: "search_env \<Rightarrow> search_state \<Rightarrow> nat \<Rightarrow> string \<Rightarrow> journal_entry \<Rightarrow> bool" where
  "entry_new E s k st e \<longleftrightarrow>
     (case je_kind e of
        LegTransit \<Rightarrow> 1 \<le> k \<and> beats E s (k - 1) st (je_arrival e)
      | LegWalk \<Rightarrow> round_at s k (je_from e) = int k)"

lemma entry_new_set_label:
  "entry_new E (fst w) k st e \<Longrightarrow> round_of e' = int k \<Longrightarrow> entry_new E (fst (set_label k st' a e' w)) k st e"
  by (auto simp: entry_new_def beats_def split: leg_kind.splits)

lemma entry_new_cong: "tau s = tau s' \<Longrightarrow> journal s = journal s' \<Longrightarrow> entry_new E s = entry_new E s'"
  by (simp add: entry_new_def beats_def round_at_def fun_eq_iff split: leg_kind.split)

section \<open>The invariant of a round\<close>

text \<open>While round \<open>k\<close> runs, what is marked was recorded in it and the rest is as in the round before; the origin keeps its label.\<close>

definition origin_ok :: "search_env \<Rightarrow> search_state \<Rightarrow> bool" where
  "origin_ok E s \<longleftrightarrow> tau s 0 (Origin (params E)) = Some (DepTime (params E)) \<and> (\<forall>j. journal s j (Origin (params E)) = None)"

definition untouched :: "nat \<Rightarrow> search_state \<Rightarrow> string \<Rightarrow> bool" where
  "untouched k s st \<longleftrightarrow> (k = 0 \<longrightarrow> journal s 0 st = None) \<and>
     (k \<noteq> 0 \<longrightarrow> tau s k st = tau s (k - 1) st \<and> journal s k st = journal s (k - 1) st)"

lemma untouched_set_label: "untouched k (fst w) st' \<Longrightarrow> st' \<noteq> st \<Longrightarrow> untouched k (fst (set_label k st a e w)) st'"
  by (cases k) (simp_all add: untouched_def)

definition round_open :: "search_env \<Rightarrow> nat \<Rightarrow> work \<Rightarrow> bool" where
  "round_open E k w \<longleftrightarrow> origin_ok E (fst w) \<and>
     (\<forall>st \<in> set (snd w). round_at (fst w) k st = int k) \<and>
     (\<forall>st. st \<notin> set (snd w) \<longrightarrow> untouched k (fst w) st) \<and>
     (\<forall>st \<in> set (snd w). \<forall>e. journal (fst w) k st = Some e \<longrightarrow> entry_new E (fst w) k st e) \<and>
     (\<forall>st e. preWalk (fst w) k st = Some e \<longrightarrow> round_of e = int k \<and> entry_new E (fst w) k st e)"

definition round_done :: "search_env \<Rightarrow> nat \<Rightarrow> search_state \<Rightarrow> bool" where
  "round_done E k s \<longleftrightarrow>
     (\<forall>st. round_at s k st \<noteq> int k \<longrightarrow> 1 \<le> k \<and> tau s k st = tau s (k - 1) st) \<and>
     (\<forall>st e. journal s k st = Some e \<longrightarrow> round_of e = int k \<longrightarrow> entry_new E s k st e) \<and>
     (\<forall>st e. preWalk s k st = Some e \<longrightarrow> round_of e = int k \<and> entry_new E s k st e)"

lemma round_done_frame:
  assumes "round_done E j s" "same_before k s s'" "j < k"
  shows "round_done E j s'"
proof -
  have same: "tau s' j = tau s j" "journal s' j = journal s j" "preWalk s' j = preWalk s j" "tau s' (j - 1) = tau s (j - 1)"
    using assms(2,3) by (simp_all add: same_before_def)
  then have "entry_new E s' j = entry_new E s j"
    by (simp add: entry_new_def beats_def round_at_def fun_eq_iff split: leg_kind.split)
  with assms(1) same show ?thesis by (simp add: round_done_def round_at_def)
qed

lemma round_open_set_label:
  assumes "round_open E k w" "round_of e = int k" "entry_new E (fst w) k st e" "st \<noteq> Origin (params E)"
  shows "round_open E k (set_label k st a e w)"
proof -
  note new = entry_new_set_label [where e' = e and w = w, OF _ assms(2)]
  let ?w = "set_label k st a e w"
  have pre: "round_of e' = int k \<and> entry_new E (fst ?w) k st' e'" if "preWalk (fst ?w) k st' = Some e'" for st' e'
    using assms(1) that new by (simp add: round_open_def)
  have marked: "entry_new E (fst ?w) k st' e'" if "st' \<in> set (snd ?w)" "journal (fst ?w) k st' = Some e'" for st' e'
  proof (cases "st' = st")
    case True
    with that(2) new [OF assms(3)] show ?thesis by simp
  next
    case False
    with that assms(1) new show ?thesis by (simp add: round_open_def)
  qed
  have rest: "untouched k (fst ?w) st'" if "st' \<notin> set (snd ?w)" for st'
    using that assms(1) untouched_set_label [of k w st' st a e] by (simp add: round_open_def)
  have "origin_ok E (fst ?w)" using assms(1,4) by (simp add: round_open_def origin_ok_def)
  moreover have "\<forall>st' \<in> set (snd ?w). round_at (fst ?w) k st' = int k"
    using assms(1,2) by (simp add: round_open_def)
  ultimately show ?thesis using pre marked rest unfolding round_open_def by blast
qed

lemma not_origin:
  assumes "origin_ok E s" "times_ok E s" "improves E s a st" "DepTime (params E) \<le> a"
  shows "st \<noteq> Origin (params E)"
proof
  assume "st = Origin (params E)"
  moreover obtain b where "best s (Origin (params E)) = Some b" "b \<le> DepTime (params E)"
  proof -
    have "tau s 0 (Origin (params E)) = Some (DepTime (params E))" using assms(1) by (simp add: origin_ok_def)
    with assms(2) have "reached_by E s (Origin (params E)) (DepTime (params E))" unfolding times_ok_def by blast
    with that show ?thesis by (auto simp: reached_by_def)
  qed
  ultimately show False using improves_less [OF assms(3)] assms(4) by auto
qed

lemma round_open_done:
  assumes "round_open E k (s, imp)" "labels_ok E k s"
  shows "round_done E k s"
proof -
  have un: "untouched k s st" if "round_at s k st \<noteq> int k" for st
    using assms(1) that unfolding round_open_def fst_conv snd_conv by blast
  have "1 \<le> k \<and> tau s k st = tau s (k - 1) st" if "round_at s k st \<noteq> int k" for st
    using un [OF that] that by (cases "k = 0") (auto simp: untouched_def round_at_def)
  moreover have "entry_new E s k st e" if e: "journal s k st = Some e" "round_of e = int k" for st e
  proof (cases "st \<in> set imp")
    case True
    with assms(1) e(1) show ?thesis by (auto simp: round_open_def)
  next
    case False
    with assms(1) have u: "untouched k s st" by (simp add: round_open_def)
    with e(1) have k: "k \<noteq> 0" by (cases "k = 0") (simp_all add: untouched_def)
    with u e(1) have "journal s (k - 1) st = Some e" by (simp add: untouched_def)
    with assms(2) have "entry_linked E s (k - 1) e" by (simp add: labels_ok_def label_ok_def)
    from entry_linked_round_of [OF this] e(2) k show ?thesis by linarith
  qed
  moreover have "round_of e = int k \<and> entry_new E s k st e" if "preWalk s k st = Some e" for st e
    using assms(1) that by (simp add: round_open_def)
  ultimately show ?thesis unfolding round_done_def by blast
qed

section \<open>The invariant of the search\<close>

definition rounds_scanning :: "search_env \<Rightarrow> nat \<Rightarrow> work \<Rightarrow> bool" where
  "rounds_scanning E k w \<longleftrightarrow> times_scanning E k w \<and>
     (search_timed E \<longrightarrow> round_open E k w \<and> (\<forall>j < k. round_done E j (fst w)))"

definition rounds_walking :: "search_env \<Rightarrow> nat \<Rightarrow> (string \<times> int) list \<Rightarrow> work \<Rightarrow> bool" where
  "rounds_walking E k srcs w \<longleftrightarrow> times_walking E k srcs w \<and>
     (search_timed E \<longrightarrow> round_open E k w \<and> (\<forall>j < k. round_done E j (fst w)) \<and>
        (\<forall>(st, d) \<in> set srcs. round_at (fst w) k st = int k))"

definition rounds_settled :: "search_env \<Rightarrow> nat \<Rightarrow> search_state \<Rightarrow> bool" where
  "rounds_settled E k s \<longleftrightarrow> times_settled E k s \<and>
     (search_timed E \<longrightarrow> origin_ok E s \<and> (\<forall>j \<le> k. round_done E j s))"

lemma rounds_start:
  assumes "snapshot_of 0 (init_state (params E)) [Origin (params E)] s srcs"
  shows "rounds_walking E 0 srcs (s, [Origin (params E)])"
proof -
  have s: "tau s = tau (init_state (params E))" "journal s j st = None" "preWalk s 0 st = None" for j st
    using assms by (fastforce simp: snapshot_of_def init_state_def)+
  then have "round_at s 0 st = 0" for st by (simp add: round_at_def)
  with s have "round_open E 0 (s, [Origin (params E)])"
    by (simp add: round_open_def origin_ok_def untouched_def init_state_def)
  with times_start [OF assms] \<open>\<And>st. round_at s 0 st = 0\<close> show ?thesis by (simp add: rounds_walking_def split_beta)
qed

lemma rounds_copy:
  assumes "1 \<le> k" "rounds_settled E (k - 1) s"
  shows "rounds_scanning E k (copy_labels k s, [])"
proof -
  have t: "times_settled E (k - 1) s" using assms(2) by (simp add: rounds_settled_def)
  have "round_open E k (copy_labels k s, []) \<and> (\<forall>j < k. round_done E j (copy_labels k s))" if "search_timed E"
  proof -
    from assms(2) that have o: "origin_ok E s" "\<And>j. j < k \<Longrightarrow> round_done E j s" by (auto simp: rounds_settled_def)
    have "preWalk s k = Map.empty" using t assms(1) by (simp add: times_settled_def labels_ok_def)
    with o(1) assms(1) have "round_open E k (copy_labels k s, [])"
      by (simp add: round_open_def origin_ok_def untouched_def copy_labels_def)
    moreover have "same_before k s (copy_labels k s)" by (simp add: same_before_def copy_labels_def)
    ultimately show ?thesis using o(2) round_done_frame by blast
  qed
  then show ?thesis using times_copy [OF assms(1) t] by (simp add: rounds_scanning_def)
qed

text \<open>Both kinds of step record a new entry of the round; the entry is timed, so it is not one of the origin.\<close>

lemma rounds_set_label:
  assumes "round_open E k w" "\<forall>j < k. round_done E j (fst w)" "times_ok E (fst w)"
    and "times_ok E (fst (set_label k st (je_arrival e) e w))"
    and "improves E (fst w) (je_arrival e) st" "round_of e = int k" "entry_new E (fst w) k st e"
  shows "round_open E k (set_label k st (je_arrival e) e w) \<and> (\<forall>j < k. round_done E j (fst (set_label k st (je_arrival e) e w)))"
proof -
  let ?w = "set_label k st (je_arrival e) e w"
  have "journal (fst ?w) k st = Some e" by simp
  with assms(4) have "entry_timed E st e" unfolding times_ok_def by blast
  then have "DepTime (params E) \<le> je_arrival e" by (auto simp: entry_timed_def)
  moreover have "origin_ok E (fst w)" using assms(1) by (simp add: round_open_def)
  ultimately have "st \<noteq> Origin (params E)" using not_origin assms(3,5) by blast
  from round_open_set_label [OF assms(1,6,7) this] have "round_open E k ?w" .
  moreover have "same_before k (fst w) (fst ?w)" by (simp add: same_before_def)
  ultimately show ?thesis using assms(2) round_done_frame by blast
qed

lemma rounds_transit:
  assumes "1 \<le> k" "rounds_scanning E k w" "transit_step E k w w'"
  shows "rounds_scanning E k w'"
proof -
  have t: "times_scanning E k w" using assms(2) by (simp add: rounds_scanning_def)
  then have t': "times_scanning E k w'" by (rule times_transit [OF assms(1) _ assms(3)])
  have "round_open E k w' \<and> (\<forall>j < k. round_done E j (fst w'))" if wf: "search_timed E"
    using assms(3)
  proof cases
    case (transit_stepI route tr i j s rdy imp)
    let ?e = "transit_entry k (StopIDs route ! i) (Key tr) (RouteID route) (Departures tr ! i) (Arrivals tr ! j)"
    have w: "w = (s, imp)" "w' = set_label k (StopIDs route ! j) (je_arrival ?e) ?e w" using transit_stepI by simp_all
    have ok: "times_ok E (fst w)" "times_ok E (fst w')" using t t' wf by (simp_all add: times_scanning_def)
    have "entry_new E (fst w) k (StopIDs route ! j) ?e"
      using improves_beats [OF transit_stepI(6)] ok(1) assms(1) by (simp add: entry_new_def w(1))
    then show ?thesis
      using rounds_set_label [of E k w "StopIDs route ! j" ?e] assms(2) wf ok transit_stepI(6)
      by (simp add: rounds_scanning_def w)
  qed
  with t' show ?thesis by (simp add: rounds_scanning_def)
qed

lemma rounds_snapshot:
  assumes "1 \<le> k" "rounds_scanning E k (s, imp)" "set sources = set imp" "snapshot_of k s sources s' srcs"
  shows "rounds_walking E k srcs (s', imp)"
proof -
  note sn = assms(4) [unfolded snapshot_of_def]
  have t: "times_scanning E k (s, imp)" using assms(2) by (simp add: rounds_scanning_def)
  have "round_open E k (s', imp) \<and> (\<forall>j < k. round_done E j s') \<and> (\<forall>(st, d) \<in> set srcs. round_at s' k st = int k)"
    if "search_timed E"
  proof -
    from assms(2) that have o: "round_open E k (s, imp)" "\<And>j. j < k \<Longrightarrow> round_done E j s" by (auto simp: rounds_scanning_def)
    have same: "tau s' = tau s" "journal s' = journal s" using sn by auto
    then have new: "entry_new E s' = entry_new E s" "round_at s' = round_at s"
      using entry_new_cong [OF same] by (simp_all add: round_at_def fun_eq_iff same)
    have pre: "round_of e = int k \<and> entry_new E s k st e" if "preWalk s' k st = Some e" for st e
    proof -
      from that sn assms(3) consider "preWalk s k st = Some e" | "st \<in> set imp" "journal s k st = Some e" by blast
      then show ?thesis using o(1) by cases (auto simp: round_open_def round_at_def)
    qed
    have "round_open E k (s', imp)"
      using o(1) pre unfolding round_open_def fst_conv snd_conv new origin_ok_def untouched_def same by blast
    moreover have "same_before k s s'" using sn by (auto simp: same_before_def fun_eq_iff)
    then have "round_done E j s'" if "j < k" for j using round_done_frame [OF o(2) [OF that] _ that] by blast
    moreover have "round_at s' k st = int k" if "(st, d) \<in> set srcs" for st d
    proof -
      from that sn assms(3) have "st \<in> set imp" by blast
      with o(1) show ?thesis by (simp add: round_open_def new)
    qed
    ultimately show ?thesis by auto
  qed
  then show ?thesis using times_snapshot [OF assms(1) t assms(3,4)] by (simp add: rounds_walking_def)
qed

lemma rounds_walk:
  assumes "rounds_walking E k srcs w" "walk_step E k srcs w w'"
  shows "rounds_walking E k srcs w'"
proof -
  have t: "times_walking E k srcs w" using assms(1) by (simp add: rounds_walking_def)
  then have t': "times_walking E k srcs w'" by (rule times_walk [OF _ assms(2)])
  have "round_open E k w' \<and> (\<forall>j < k. round_done E j (fst w')) \<and> (\<forall>(st, d) \<in> set srcs. round_at (fst w') k st = int k)"
    if wf: "search_timed E"
    using assms(2)
  proof cases
    case (walk_stepI src depart fp arr s imp)
    let ?e = "walk_entry k src depart arr"
    have w: "w = (s, imp)" "w' = set_label k (NeighbourStop fp) (je_arrival ?e) ?e w" using walk_stepI by simp_all
    have ok: "times_ok E (fst w)" "times_ok E (fst w')" using t t' wf by (simp_all add: times_walking_def)
    have o: "round_open E k w" "\<forall>j < k. round_done E j (fst w)" and srcs: "\<forall>(st, d) \<in> set srcs. round_at (fst w) k st = int k"
      using assms(1) wf by (simp_all add: rounds_walking_def)
    have "entry_new E (fst w) k (NeighbourStop fp) ?e"
      using srcs walk_stepI(3) by (auto simp: entry_new_def)
    then show ?thesis
      using rounds_set_label [OF o ok(1), of "NeighbourStop fp" ?e] ok walk_stepI(6) srcs by (auto simp: w)
  qed
  with t' show ?thesis by (simp add: rounds_walking_def)
qed

interpretation rounds: search_invariant E "rounds_scanning E" "rounds_walking E" "rounds_settled E" for E
proof (unfold_locales, goal_cases)
  case (1 s srcs)
  then show ?case by (rule rounds_start)
next
  case (2 k s)
  then show ?case by (rule rounds_copy)
next
  case (3 k w w')
  then show ?case by (rule rounds_transit)
next
  case (4 k s imp sources s' srcs)
  then show ?case by (rule rounds_snapshot)
next
  case (5 k srcs w w')
  then show ?case by (rule rounds_walk)
next
  case (6 k srcs w)
  then have t: "times_settled E k (fst w)" by (auto simp: rounds_walking_def intro: times.finish)
  then have "labels_ok E k (fst w)" by (simp add: times_settled_def)
  with 6 t show ?case
    using round_open_done [of E k "fst w" "snd w"] by (auto simp: rounds_settled_def rounds_walking_def round_open_def le_less)
qed

section \<open>Old labels have been ridden on\<close>

definition ridden_on :: "search_env \<Rightarrow> nat \<Rightarrow> search_state \<Rightarrow> bool" where
  "ridden_on E k s \<longleftrightarrow>
     (\<forall>st r. round_at s k st \<noteq> int k \<longrightarrow> ready_at E (k + 1) s st = Some r \<longrightarrow> rides_from E k s st r)"

lemma complete_ridden_on: "complete_at E k w \<Longrightarrow> round_open E k w \<Longrightarrow> ridden_on E k (fst w)"
  unfolding complete_at_def round_open_def ridden_on_def by blast

lemma ridden_on_frame:
  assumes "ridden_on E j s" "tau s' j = tau s j" "journal s' j = journal s j"
  shows "ridden_on E j s'"
proof -
  have "ready_at E (j + 1) s' = ready_at E (j + 1) s" using assms(2,3) by (intro ready_at_cong) simp_all
  with assms show ?thesis by (simp add: ridden_on_def round_at_def rides_from_def arrives_by_def)
qed

lemma rounds_ridden:
  assumes "network_ok E"
  shows "search_rounds cancelled E n k w = Some s \<Longrightarrow> 1 \<le> k \<Longrightarrow> complete_at E (k - 1) w \<Longrightarrow>
    rounds_settled E (k - 1) (fst w) \<Longrightarrow> \<forall>j < k. ridden_on E j (fst w) \<Longrightarrow>
    \<exists>m < k + n. rounds_settled E m s \<and> (\<forall>j \<le> m. ridden_on E j s)"
proof (induction n arbitrary: k w)
  case 0
  then show ?case by (intro exI [of _ "k - 1"]) auto
next
  case (Suc n)
  obtain v marked where w: "w = (v, marked)" by (cases w)
  let ?w = "search_round E k w"
  have wf: "search_timed E" "buffer_wf (routes E)" "orders_ok (orders E)" using assms by (auto simp: network_ok_def)
  then have flags: "flags_ok (routes E)" by (auto simp: buffer_wf_def flags_ok_def IsFIFO_def)
  have c: "complete_at E k ?w" and old: "\<And>j. j < k \<Longrightarrow> tau (fst ?w) j = tau v j" "\<And>j. j < k \<Longrightarrow> journal (fst ?w) j = journal v j"
    using round_complete [OF Suc.prems(2) assms] Suc.prems(3) by (simp_all add: w)
  obtain srcs where walking: "rounds_walking E k srcs ?w"
    using rounds.round_walking [OF Suc.prems(2) _ flags wf(3)] Suc.prems(4) unfolding w fst_conv by blast
  then have settled: "rounds_settled E k (fst ?w)" by (rule rounds.finish)
  have "ridden_on E k (fst ?w)" using complete_ridden_on [OF c] walking wf(1) by (simp add: rounds_walking_def)
  moreover have "ridden_on E j (fst ?w)" if "j < k" for j
    using ridden_on_frame [OF _ old [OF that]] Suc.prems(5) that by (simp add: w)
  ultimately have ridden: "ridden_on E j (fst ?w)" if "j \<le> k" for j using that by (cases "j = k") simp_all
  show ?case
  proof (cases "snd ?w = []")
    case True
    with Suc.prems have "s = fst ?w" by (auto simp: Let_def split: if_splits)
    with settled ridden show ?thesis by (intro exI [of _ k]) auto
  next
    case False
    with Suc.prems have "search_rounds cancelled E n (k + 1) ?w = Some s" by (auto simp: Let_def split: if_splits)
    from Suc.IH [OF this] c settled ridden show ?thesis by simp
  qed
qed

lemma search_ridden:
  assumes "network_ok E" "search_labels cancelled E = Some s"
  obtains m where "m \<le> rounds E" "rounds_settled E m s" "\<And>j. j \<le> m \<Longrightarrow> ridden_on E j s"
proof -
  define w where "w = relaxFootpaths E 0 [Origin (params E)] (init_state (params E), [Origin (params E)])"
  have c: "complete_at E 0 w" using start_complete [OF assms(1)] by (simp add: w_def)
  obtain srcs where walking: "rounds_walking E 0 srcs w" using rounds.start_walking unfolding w_def by blast
  then have "rounds_settled E 0 (fst w)" by (rule rounds.finish)
  moreover have "ridden_on E 0 (fst w)"
    using complete_ridden_on [OF c] walking assms(1) by (simp add: rounds_walking_def network_ok_def)
  ultimately obtain m where "m < 1 + rounds E" "rounds_settled E m s" "\<forall>j \<le> m. ridden_on E j s"
    using rounds_ridden [OF assms(1), of cancelled "rounds E" 1 w s] assms(2) c by (auto simp: search_labels_def w_def)
  then show ?thesis by (intro that [of m]) auto
qed

section \<open>Rebuilt journeys\<close>

text \<open>What a label of round \<open>k\<close> boarded from was recorded in the round before.\<close>

lemma boarded_from_new:
  assumes "entry_real E st e" "entry_linked E s k e" "round_of e = int k" "entry_new E s k st e" "je_kind e = LegTransit"
    and "ridden_on E (k - 1) s"
  shows "round_at s (k - 1) (je_from e) = int (k - 1)"
proof (rule ccontr)
  assume old: "round_at s (k - 1) (je_from e) \<noteq> int (k - 1)"
  have k: "1 \<le> k" "beats E s (k - 1) st (je_arrival e)" using assms(4,5) by (auto simp: entry_new_def)
  then have "nat (je_fromRound e) = k - 1" using assms(3,5) by (auto simp: round_of_def)
  with assms(2,5) obtain rdy where "ready_at E (k - 1 + 1) s (je_from e) = Some rdy" "rdy \<le> je_departure e"
    by (auto simp: entry_linked_def)
  with assms(6) old have "rides_from E (k - 1) s (je_from e) rdy" "rdy \<le> je_departure e" unfolding ridden_on_def by blast+
  moreover from assms(1,5) obtain route t i j where "ride_exists E route t i j" "StopIDs route ! i = je_from e" "StopIDs route ! j = st"
    "Departures t ! i = je_departure e" "Arrivals t ! j = je_arrival e" by (auto simp: entry_real_def)
  ultimately have "arrives_by E s (k - 1) st (je_arrival e)" unfolding rides_from_def by metis
  with k(2) show False by (fastforce simp: arrives_by_def beats_def)
qed

lemma build_legs_count:
  "build_legs E s V legs cur r pk pd = Some res \<Longrightarrow> rounds_settled E m s \<Longrightarrow> search_timed E \<Longrightarrow> \<forall>j \<le> m. ridden_on E j s \<Longrightarrow>
    0 \<le> r \<Longrightarrow> r \<le> int m \<Longrightarrow> round_at s (nat r) cur = r \<Longrightarrow> int (transit_count res) = int (transit_count legs) + r"
proof (induction E s V legs cur r pk pd rule: build_legs.induct)
  case (1 E s V legs cur r pk pd)
  have ok: "labels_ok E m s" "origin_ok E s" "round_done E (nat r) s"
    using "1.prems"(2,3,6) by (auto simp: rounds_settled_def times_settled_def)
  show ?case
  proof (cases "cur = Origin (params E)")
    case True
    with "1.prems"(1) have "res = legs" by (simp add: build_legs.simps [of E s V legs "Origin (params E)"])
    moreover have "r = 0" using True "1.prems"(7) ok(2) by (simp add: round_at_def origin_ok_def)
    ultimately show ?thesis by simp
  next
    case False
    with "1.prems"(1) obtain e0 where bounds: "\<not> (length legs > 2 * (rounds E + 1) + 2 \<or> r < 0 \<or> r \<ge> int (rounds E) + 1)"
      and e0: "journal s (nat r) cur = Some e0" "\<not> (je_from e0 = [] \<or> je_from e0 = cur)" "(r, cur) \<notin> set V"
      by (auto simp: build_legs.simps [of E s V legs cur] Let_def split: if_splits option.splits)
    define e where "e = chain_entry s r cur pk pd e0"
    have rec: "build_legs E s ((r, cur) # V) (legs @ [entry_leg e cur]) (je_from e) (je_fromRound e)
        (Some (je_kind e)) (je_departure e) = Some res"
      using "1.prems"(1) False bounds e0 by (simp add: build_legs.simps [of E s V legs cur] Let_def e_def)
    have lab: "label_ok E s (nat r) cur" using ok(1) "1.prems"(5,6) by (simp add: labels_ok_def)
    note e = chain_entry_ok [OF lab e0(1), of pk pd, folded e_def]
    have "round_of e0 = int (nat r)" using "1.prems"(5,7) e0(1) by (simp add: round_at_def)
    then have new: "round_of e = int (nat r)" "entry_new E s (nat r) cur e"
      using chain_entry_cases [of s r cur pk pd e0] ok(3) e0(1) unfolding e_def [symmetric] round_done_def by metis+
    have onward: "round_at s (nat (je_fromRound e)) (je_from e) = je_fromRound e \<and> 0 \<le> je_fromRound e \<and> je_fromRound e \<le> r \<and>
      je_fromRound e + (if je_kind e = LegTransit then 1 else 0) = r"
    proof (cases "je_kind e")
      case LegTransit
      with new(2) have k: "1 \<le> nat r" by (simp add: entry_new_def)
      with "1.prems"(4,6) have "ridden_on E (nat r - 1) s" by simp
      have f: "je_fromRound e = r - 1" "nat (je_fromRound e) = nat r - 1" using new(1) LegTransit k "1.prems"(5)
        by (auto simp: round_of_def nat_diff_distrib)
      from boarded_from_new [OF _ _ new LegTransit \<open>ridden_on E (nat r - 1) s\<close>] e
      have "round_at s (nat r - 1) (je_from e) = int (nat r - 1)" by simp
      with f k LegTransit show ?thesis by auto
    next
      case LegWalk
      with new "1.prems"(5) show ?thesis by (auto simp: round_of_def entry_new_def)
    qed
    then have "je_fromRound e \<le> int m" using "1.prems"(6) by simp
    from "1.IH" [OF False bounds e0(1,2) e_def e0(3) rec "1.prems"(2-4) _ this] onward show ?thesis
      by (auto simp: transit_count_def split: if_splits)
  qed
qed

lemma buildPath_count:
  assumes "rounds_settled E m s" "search_timed E" "\<And>j. j \<le> m \<Longrightarrow> ridden_on E j s"
    and "buildPath E s k = Some p" "k \<le> m" "round_at s k (dest E) = int k"
  shows "transit_count (Legs p) = k"
proof -
  from assms(4) obtain legs where legs: "build_legs E s [] [] (dest E) (int k) None 0 = Some legs" "Legs p = rev legs"
    by (auto simp: buildPath_def Let_def split: option.splits if_splits)
  from build_legs_count [OF legs(1) assms(1,2)] assms(3,5,6) have "transit_count legs = k" by (simp add: transit_count_def)
  then show ?thesis by (simp add: legs(2))
qed

end
