(* ===== verification/Engine_Answer.thy ===== *)
theory Engine_Answer
  imports Engine_Rounds Engine_Frontier
begin

text \<open>
  From the labels to the answer of \<^verbatim>\<open>internal/raptor/engine.go\<close>: the journeys rebuilt from optimal labels,
  with the duplicates dropped and the frontier kept, contain one that is as good as any journey of
  the reference in both objectives. On the way the converse of optimality where transfers take no time: the legs of every rebuilt
  journey are a journey of the reference. No journey is lost by its fingerprint, since each boards one vehicle for
  each round (\<open>Engine_Rounds\<close>).
\<close>

section \<open>Journeys of the reference\<close>

definition searchable :: "search_env \<Rightarrow> bool" where
  "searchable E \<longleftrightarrow> network_ok E \<and> xferSec E = 0"

lemma journey_time:
  assumes "network_ok E"
  shows "journey_to E k st t walked \<Longrightarrow> 0 \<le> t \<and> t < 2 ^ 62 + (if walked then 2 ^ 61 else 0)"
proof (induction rule: journey_to.induct)
  case at_origin
  from assms show ?case by (auto simp: network_ok_def search_timed_def params_timed_def)
next
  case (on_foot k st t fp)
  then show ?case using assms timed_walk [of E fp st] by (auto simp: network_ok_def)
next
  case (by_vehicle k st t walked route tr i j)
  then show ?case using assms timed_ride [of E route tr i j] by (auto simp: network_ok_def split: if_splits)
qed

text \<open>A leg of a sound journey carries a journey of the reference on; after a walk, the two walks
  are replaced by the one that the closure offers.\<close>

lemma i64_no_overflow: "0 \<le> a \<Longrightarrow> 0 \<le> b \<Longrightarrow> b < 2 ^ 63 \<Longrightarrow> a \<le> i64 (a + b) \<Longrightarrow> i64 (a + b) = a + b"
proof (rule i64_id, rule in_i64I)
  assume a: "0 \<le> a" "0 \<le> b" "b < 2 ^ 63" "a \<le> i64 (a + b)"
  from a show "- (2 ^ 63) \<le> a + b" by simp
  show "a + b < 2 ^ 63"
  proof (rule ccontr)
    assume ge: "\<not> a + b < 2 ^ 63"
    have "a < 2 ^ 63" using a(4) in_i64_i64 [of "a + b"] unfolding in_i64_def by linarith
    with a ge have "i64 (a + b - 2 ^ 64) = a + b - 2 ^ 64" by (intro i64_id) (simp add: in_i64_def)
    moreover have "i64 (a + b - 2 ^ 64) = i64 (a + b)"
      using minus_mod_self2 [of "a + b + 2 ^ 63" "2 ^ 64"] by (simp add: i64_def algebra_simps)
    ultimately show False using a \<open>a < 2 ^ 63\<close> by simp
  qed
qed

lemma walk_leg:
  assumes "leg_real E l" "Kind l = LegWalk" "leg_ok l" "0 \<le> DepartureUnix l" "search_timed E"
  obtains fp where "fp \<in> set (walks_from E (BoardStation l))" "NeighbourStop fp = AlightStation l"
    "ArrivalUnix l = DepartureUnix l + WalkSeconds fp"
proof -
  from assms(1,2) obtain fp where fp: "fp \<in> set (walks_from E (BoardStation l))" "NeighbourStop fp = AlightStation l"
    "ArrivalUnix l = i64 (DepartureUnix l + WalkSeconds fp)" by (auto simp: leg_real_def)
  have w: "0 \<le> WalkSeconds fp" "WalkSeconds fp < 2 ^ 61" using timed_walk [OF assms(5) fp(1)] by auto
  have "DepartureUnix l \<le> i64 (DepartureUnix l + WalkSeconds fp)" using assms(3) fp(3) by (simp add: leg_ok_def)
  with w assms(4) have "i64 (DepartureUnix l + WalkSeconds fp) = DepartureUnix l + WalkSeconds fp"
    by (intro i64_no_overflow) auto
  with fp that show ?thesis by simp
qed

lemma leg_journey:
  assumes "searchable E" "journey_to E k st t walked" "t \<le> DepartureUnix l" "BoardStation l = st"
    and "leg_real E l" "leg_ok l" "0 \<le> DepartureUnix l"
  shows "\<exists>t' walked'. t' \<le> ArrivalUnix l \<and>
    journey_to E (k + (if Kind l = LegTransit then 1 else 0)) (AlightStation l) t' walked'"
proof (cases "Kind l")
  case LegTransit
  with assms(5) obtain route tr i j where ride: "ride_exists E route tr i j" "StopIDs route ! i = BoardStation l"
    "StopIDs route ! j = AlightStation l" "Departures tr ! i = DepartureUnix l" "Arrivals tr ! j = ArrivalUnix l"
    by (auto simp: leg_real_def)
  have "xferSec E = 0" using assms(1) by (simp add: searchable_def)
  with journey_to.by_vehicle [OF assms(2) ride(1)] ride assms(3,4)
  have "journey_to E (k + 1) (AlightStation l) (ArrivalUnix l) False" by simp
  with LegTransit show ?thesis by auto
next
  case LegWalk
  have timed: "search_timed E" "walks_compose (routes E)" using assms(1) by (auto simp: searchable_def network_ok_def)
  from walk_leg [OF assms(5) LegWalk assms(6,7) timed(1)]
  obtain fp where fp: "fp \<in> set (walks_from E st)" "NeighbourStop fp = AlightStation l"
    "ArrivalUnix l = DepartureUnix l + WalkSeconds fp" using assms(4) by metis
  show ?thesis
  proof (cases walked)
    case False
    with journey_to.on_foot [of E k st t fp] assms(2) fp have "journey_to E k (AlightStation l) (t + WalkSeconds fp) True" by simp
    with assms(3) fp LegWalk show ?thesis by (intro exI [of _ "t + WalkSeconds fp"] exI [of _ True]) simp
  next
    case True
    with assms(2) obtain x u fp' where x: "journey_to E k x u False" "fp' \<in> set (walks_from E x)"
      "st = NeighbourStop fp'" "t = u + WalkSeconds fp'" by (cases rule: journey_to.cases) auto
    have w: "0 \<le> WalkSeconds fp" "0 \<le> WalkSeconds fp'" using timed_walk(1) [OF timed(1)] fp(1) x(2) by auto
    from timed(2) x(2,3) fp(1) consider "NeighbourStop fp = x" | d where "d \<in> set (walks_from E x)"
      "NeighbourStop d = NeighbourStop fp" "WalkSeconds d \<le> WalkSeconds fp' + WalkSeconds fp"
      unfolding walks_compose_def by blast
    then show ?thesis
    proof cases
      case 1
      with x(1,4) fp w assms(3) LegWalk show ?thesis by (intro exI [of _ u] exI [of _ False]) simp
    next
      case 2
      with journey_to.on_foot [OF x(1) 2(1)] x(4) fp assms(3) LegWalk show ?thesis
        by (intro exI [of _ "u + WalkSeconds d"] exI [of _ True]) simp
    qed
  qed
qed

lemma transit_count_snoc [simp]:
  "transit_count (ls @ [l]) = transit_count ls + (if Kind l = LegTransit then 1 else 0)"
  "transit_count [] = 0"
  by (simp_all add: transit_count_def)

lemma legs_journey:
  assumes "searchable E"
  shows "ls \<noteq> [] \<Longrightarrow> connected_legs ls \<Longrightarrow> list_all (leg_real E) ls \<Longrightarrow> BoardStation (hd ls) = Origin (params E) \<Longrightarrow>
    DepTime (params E) \<le> DepartureUnix (hd ls) \<Longrightarrow>
    DepTime (params E) \<le> DepartureUnix (last ls) \<and>
    (\<exists>t walked. t \<le> ArrivalUnix (last ls) \<and> journey_to E (transit_count ls) (AlightStation (last ls)) t walked)"
proof (induction ls rule: rev_induct)
  case (snoc l ls)
  have dep0: "0 \<le> DepTime (params E)" using assms by (auto simp: searchable_def network_ok_def search_timed_def params_timed_def)
  have l: "leg_real E l" "leg_ok l" using snoc.prems by (auto simp: connected_legs_def)
  show ?case
  proof (cases "ls = []")
    case True
    with snoc.prems dep0 l leg_journey [OF assms journey_to.at_origin, of l] show ?thesis by (simp add: transit_count_snoc(1) [of "[]", simplified])
  next
    case False
    with snoc.prems have ls: "connected_legs ls" "list_all (leg_real E) ls" "legs_join (last ls) l"
      by (auto simp: connected_legs_def successively_append_iff)
    with False snoc obtain t walked where t: "DepTime (params E) \<le> DepartureUnix (last ls)" "t \<le> ArrivalUnix (last ls)"
      "journey_to E (transit_count ls) (AlightStation (last ls)) t walked" by auto
    have "leg_ok (last ls)" using ls(1) False by (auto simp: connected_legs_def list_all_iff)
    with ls(3) t(1,2) have "DepTime (params E) \<le> DepartureUnix l" "t \<le> DepartureUnix l" "BoardStation l = AlightStation (last ls)"
      by (auto simp: legs_join_def leg_ok_def)
    with leg_journey [OF assms t(3), of l] l dep0 show ?thesis by simp
  qed
qed simp

section \<open>Fingerprints\<close>

text \<open>No separator of the fingerprint occurs in a published name.\<close>

definition plain_names :: "route_buffer \<Rightarrow> bool" where
  "plain_names buf \<longleftrightarrow>
     (\<forall>r \<in> set (Routes buf). CHR ''|'' \<notin> set (RouteID r) \<and>
        (\<forall>st \<in> set (StopIDs r). CHR ''>'' \<notin> set st \<and> CHR '';'' \<notin> set st)) \<and>
     (\<forall>ts \<in> set (StopTimes buf). \<forall>t \<in> set ts. CHR ''|'' \<notin> set (TripID (Key t))) \<and>
     (\<forall>(st, fps) \<in> set (Footpaths buf). CHR ''>'' \<notin> set st \<and> (\<forall>fp \<in> set fps. CHR '';'' \<notin> set (NeighbourStop fp)))"

definition plain_leg :: "leg \<Rightarrow> bool" where
  "plain_leg l \<longleftrightarrow> CHR ''|'' \<notin> set (leg_RouteID l) \<and> CHR ''|'' \<notin> set (leg_TripID l) \<and>
     CHR ''>'' \<notin> set (BoardStation l) \<and> CHR '';'' \<notin> set (AlightStation l) \<and>
     (leg_TripID l = [] \<longleftrightarrow> Kind l = LegWalk)"

lemma split_at:
  "c \<notin> set xs \<Longrightarrow> c \<notin> set ys \<Longrightarrow> xs @ c # as = ys @ c # bs \<longleftrightarrow> xs = ys \<and> as = bs"
proof (induction xs arbitrary: ys)
  case Nil
  then show ?case by (cases ys) auto
next
  case (Cons x xs)
  then show ?case by (cases ys) auto
qed

lemma fingerprint_trips:
  "list_all plain_leg ls \<Longrightarrow> list_all plain_leg ls' \<Longrightarrow>
   concat (map (\<lambda>l. leg_RouteID l @ ''|'' @ leg_TripID l @ ''|'' @ BoardStation l @ ''>'' @ AlightStation l @ '';'') ls) =
   concat (map (\<lambda>l. leg_RouteID l @ ''|'' @ leg_TripID l @ ''|'' @ BoardStation l @ ''>'' @ AlightStation l @ '';'') ls') \<Longrightarrow>
   transit_count ls = transit_count ls'"
proof (induction ls arbitrary: ls')
  case Nil
  then show ?case by (cases ls') auto
next
  case (Cons l ls)
  then obtain l' ls'' where ls': "ls' = l' # ls''" by (cases ls') auto
  from Cons.prems(1,2) have plain: "plain_leg l" "plain_leg l'" by (auto simp: ls')
  with Cons.prems(3) have "leg_TripID l = leg_TripID l'" and rest:
    "concat (map (\<lambda>l. leg_RouteID l @ ''|'' @ leg_TripID l @ ''|'' @ BoardStation l @ ''>'' @ AlightStation l @ '';'') ls) =
     concat (map (\<lambda>l. leg_RouteID l @ ''|'' @ leg_TripID l @ ''|'' @ BoardStation l @ ''>'' @ AlightStation l @ '';'') ls'')"
    by (auto simp: ls' plain_leg_def split_at)
  with plain have "Kind l = Kind l'" by (cases "Kind l"; cases "Kind l'") (auto simp: plain_leg_def)
  moreover have "transit_count ls = transit_count ls''" using Cons.IH [OF _ _ rest] Cons.prems(1,2) by (simp add: ls')
  ultimately show ?case by (simp add: ls' transit_count_def)
qed

lemma build_legs_walks:
  "build_legs E s V legs cur r pk pd = Some res \<Longrightarrow> list_all (\<lambda>l. Kind l = LegWalk \<longrightarrow> leg_TripID l = []) legs \<Longrightarrow>
   list_all (\<lambda>l. Kind l = LegWalk \<longrightarrow> leg_TripID l = []) res"
proof (induction E s V legs cur r pk pd rule: build_legs.induct)
  case (1 E s V legs cur r pk pd)
  from "1.prems" show ?case
    by (subst (asm) build_legs.simps) (force simp: Let_def entry_leg_def dest!: "1.IH" split: if_splits option.splits)
qed

lemma plain_real_leg:
  assumes "leg_real E l" "leg_ok l" "Kind l = LegWalk \<longrightarrow> leg_TripID l = []" "plain_names (routes E)"
  shows "plain_leg l"
proof (cases "Kind l")
  case LegTransit
  with assms(1) obtain route t i j where ride: "ride_exists E route t i j" "StopIDs route ! i = BoardStation l"
    "StopIDs route ! j = AlightStation l" "Key t = TripKey (leg_TripID l) (leg_Date l)" "RouteID route = leg_RouteID l"
    by (auto simp: leg_real_def)
  from ride(1) have published: "route \<in> set (Routes (routes E))" "StopIDs route ! i \<in> set (StopIDs route)" "StopIDs route ! j \<in> set (StopIDs route)"
    "\<exists>ts \<in> set (StopTimes (routes E)). t \<in> set ts" by (auto simp: ride_exists_def)
  moreover have "TripID (Key t) = leg_TripID l" using ride(4) by simp
  ultimately have "CHR ''|'' \<notin> set (leg_TripID l)" using assms(4) unfolding plain_names_def by metis
  moreover have "CHR ''|'' \<notin> set (leg_RouteID l)" "CHR ''>'' \<notin> set (BoardStation l)" "CHR '';'' \<notin> set (AlightStation l)"
    using assms(4) published ride by (auto simp: plain_names_def)
  ultimately show ?thesis using assms(2) LegTransit by (auto simp: plain_leg_def leg_ok_def)
next
  case LegWalk
  with assms(1) obtain fp where fp: "fp \<in> set (walks_from E (BoardStation l))" "NeighbourStop fp = AlightStation l"
    "leg_RouteID l = WalkRouteID" by (auto simp: leg_real_def)
  then obtain fps where "map_of (Footpaths (routes E)) (BoardStation l) = Some fps" "fp \<in> set fps"
    by (cases "map_of (Footpaths (routes E)) (BoardStation l)") (auto simp: gm_get_def)
  then have "(BoardStation l, fps) \<in> set (Footpaths (routes E))" "fp \<in> set fps" by (auto dest: map_of_SomeD)
  with assms(4) have "CHR ''>'' \<notin> set (BoardStation l)" "CHR '';'' \<notin> set (NeighbourStop fp)"
    unfolding plain_names_def by fast+
  with fp LegWalk assms(3) show ?thesis by (simp add: plain_leg_def WalkRouteID_def)
qed

section \<open>The journeys extracted\<close>

definition later_round :: "path \<Rightarrow> path \<Rightarrow> bool" where
  "later_round p q \<longleftrightarrow> path_ArrivalUnix q < path_ArrivalUnix p \<and> path_Rounds p < path_Rounds q"

definition served_by :: "search_env \<Rightarrow> search_state \<Rightarrow> path \<Rightarrow> bool" where
  "served_by E s p \<longleftrightarrow>
     (\<forall>j a. int j < path_Rounds p \<longrightarrow> tau s j (dest E) = Some a \<longrightarrow> path_ArrivalUnix p < a)"

definition extracted :: "search_env \<Rightarrow> search_state \<Rightarrow> nat \<Rightarrow> path list \<times> int \<Rightarrow> bool" where
  "extracted E s n acc \<longleftrightarrow>
     sorted_wrt later_round (fst acc) \<and>
     (\<forall>p \<in> set (fst acc). path_Rounds p < int n \<and> snd acc \<le> path_ArrivalUnix p \<and> served_by E s p) \<and>
     (\<forall>j a. j < n \<longrightarrow> tau s j (dest E) = Some a \<longrightarrow> a < infinity \<longrightarrow>
        (\<exists>q \<in> set (fst acc). path_ArrivalUnix q \<le> a \<and> path_Rounds q \<le> int j)) \<and>
     (\<forall>j a. j < n \<longrightarrow> tau s j (dest E) = Some a \<longrightarrow> snd acc \<le> a) \<and> snd acc \<le> infinity \<and>
     (snd acc < infinity \<longrightarrow> (\<exists>q \<in> set (fst acc). path_ArrivalUnix q \<le> snd acc))"

definition rebuilds :: "search_env \<Rightarrow> search_state \<Rightarrow> bool" where
  "rebuilds E s \<longleftrightarrow> (\<forall>k a. tau s k (dest E) = Some a \<longrightarrow>
     (\<exists>p. buildPath E s k = Some p \<and> path_ArrivalUnix p = a \<and> path_Rounds p = int k))"

lemma extract_step_extracted:
  assumes "rebuilds E s" "extracted E s n acc"
  shows "extracted E s (Suc n) (extract_step E s n acc)"
proof -
  obtain out b where acc: "acc = (out, b)" by (cases acc)
  show ?thesis
  proof (cases "tau s n (dest E)")
    case None
    with assms(2) show ?thesis by (fastforce simp: extracted_def extract_step_def acc less_Suc_eq)
  next
    case (Some a)
    show ?thesis
    proof (cases "a < b")
      case False
      have step: "extract_step E s n acc = acc" using False Some by (simp add: extract_step_def acc)
      have "\<exists>q \<in> set out. path_ArrivalUnix q \<le> a \<and> path_Rounds q \<le> int n" if "a < infinity"
      proof -
        from False that assms(2) obtain q where "q \<in> set out" "path_ArrivalUnix q \<le> b" "path_Rounds q < int n"
          by (auto simp: extracted_def acc)
        with False show ?thesis by force
      qed
      with False assms(2) Some show ?thesis unfolding step by (fastforce simp: extracted_def acc less_Suc_eq)
    next
      case True
      from assms(1) Some obtain p where p: "buildPath E s n = Some p" "path_ArrivalUnix p = a" "path_Rounds p = int n"
        unfolding rebuilds_def by blast
      have step: "extract_step E s n acc = (out @ [p], a)" using True Some p by (simp add: extract_step_def acc)
      have old: "path_Rounds q < int n \<and> b \<le> path_ArrivalUnix q \<and> served_by E s q" if "q \<in> set out" for q
        using assms(2) that by (simp add: extracted_def acc)
      have least: "b \<le> a'" if "j < n" "tau s j (dest E) = Some a'" for j a'
        using assms(2) that by (simp add: extracted_def acc)
      have found: "\<exists>q \<in> set out. path_ArrivalUnix q \<le> a' \<and> path_Rounds q \<le> int j"
        if "j < n" "tau s j (dest E) = Some a'" "a' < infinity" for j a'
        using assms(2) that by (simp add: extracted_def acc)
      have "served_by E s p"
        unfolding served_by_def
      proof (intro allI impI)
        fix j a' assume j: "int j < path_Rounds p" "tau s j (dest E) = Some a'"
        show "path_ArrivalUnix p < a'"
          using j p Some True least [of j a'] by auto
      qed
      moreover have "later_round q p" if "q \<in> set out" for q
        using old [OF that] p True by (simp add: later_round_def)
      moreover have "a \<le> a'" if "tau s j (dest E) = Some a'" "j < Suc n" for j a'
        using that Some True least [of j a'] by (cases "j = n") auto
      moreover have "\<exists>q \<in> set (out @ [p]). path_ArrivalUnix q \<le> a' \<and> path_Rounds q \<le> int j"
        if "tau s j (dest E) = Some a'" "j < Suc n" "a' < infinity" for j a'
        using that Some p found [of j a'] by (cases "j = n") auto
      moreover have "sorted_wrt later_round out" "b \<le> infinity" using assms(2) by (simp_all add: extracted_def acc)
      moreover have "path_Rounds q < int (Suc n) \<and> a \<le> path_ArrivalUnix q" if "q \<in> set out" for q
        using old [OF that] True by simp
      ultimately show ?thesis
        using old p True unfolding extracted_def step by (simp add: sorted_wrt_append)
    qed
  qed
qed

lemma candidates_extracted: "rebuilds E s \<Longrightarrow> \<exists>b. extracted E s (rounds E + 1) (candidates E s, b)"
proof -
  assume "rebuilds E s"
  then have "extracted E s n (fold (extract_step E s) [0..<n] ([], infinity))" for n
    by (induction n) (simp_all add: extract_step_extracted, simp add: extracted_def)
  from this [of "rounds E + 1"] show ?thesis unfolding candidates_def by (metis prod.collapse)
qed

lemma deduplicatePaths_distinct:
  "distinct (map pathFingerprint ps) \<Longrightarrow> deduplicatePaths ps = ps"
proof -
  have "distinct (map pathFingerprint ps) \<Longrightarrow> pathFingerprint ` set ps \<inter> set seen = {} \<Longrightarrow>
    snd (fold (\<lambda>p (seen, out). let fp = pathFingerprint p in
            if fp \<in> set seen then (seen, out) else (fp # seen, out @ [p])) ps (seen, out)) = out @ ps" for seen out
    by (induction ps arbitrary: seen out) (auto simp: Let_def)
  from this [of "[]" "[]"] show "distinct (map pathFingerprint ps) \<Longrightarrow> deduplicatePaths ps = ps" by (simp add: deduplicatePaths_def)
qed

section \<open>Nothing is lost\<close>

lemma rebuildsI:
  assumes "search_timed E" "labels_ok E m s" "times_ok E s" "m \<le> rounds E"
    and "dest E = Destination (params E)" "Origin (params E) \<noteq> Destination (params E)"
  shows "rebuilds E s"
  unfolding rebuilds_def
proof (intro allI impI)
  fix k a assume "tau s k (dest E) = Some a"
  with buildPath_total [OF assms(1-4) _ assms(5,6), of k] obtain p
    where p: "buildPath E s k = Some p" "path_ArrivalUnix p = a" by auto
  then have "path_Rounds p = int k" by (auto simp: buildPath_def Let_def split: option.splits if_splits)
  with p show "\<exists>p. buildPath E s k = Some p \<and> path_ArrivalUnix p = a \<and> path_Rounds p = int k" by blast
qed

lemma built_walks: "buildPath E s k = Some p \<Longrightarrow> list_all (\<lambda>l. Kind l = LegWalk \<longrightarrow> leg_TripID l = []) (Legs p)"
  using build_legs_walks [of E s "[]" "[]"]
  by (fastforce simp: buildPath_def Let_def split: option.splits if_splits)

lemma sound_journey:
  assumes "searchable E" "journey_sound E p" "dest E = Destination (params E)"
  shows "\<exists>t walked. t \<le> path_ArrivalUnix p \<and> journey_to E (transit_count (Legs p)) (dest E) t walked"
  using assms legs_journey [OF assms(1), of "Legs p"] by (simp add: journey_sound_def path_well_formed_def)

text \<open>A journey boards one vehicle for each round, so no two of the journeys rebuilt share a fingerprint.\<close>

lemma distinct_by: "sorted_wrt (\<lambda>x y. f x \<noteq> f y) xs \<Longrightarrow> distinct (map f xs)"
  by (induction xs) auto

lemma candidate_count:
  assumes "network_ok E" "search_labels cancelled E = Some s" "rebuilds E s" "p \<in> set (candidates E s)"
  shows "int (transit_count (Legs p)) = path_Rounds p"
proof -
  from search_ridden [OF assms(1,2)] obtain m where m: "rounds_settled E m s" "\<And>j. j \<le> m \<Longrightarrow> ridden_on E j s" by blast
  have timed: "search_timed E" using assms(1) by (simp add: network_ok_def)
  with m(1) have ok: "labels_ok E m s" "\<And>j. j \<le> m \<Longrightarrow> round_done E j s"
    by (auto simp: rounds_settled_def times_settled_def)
  from candidates_built [OF assms(4)] obtain k where k: "tau s k (dest E) \<noteq> None" "buildPath E s k = Some p" by blast
  with ok(1) have le: "k \<le> m" by (cases "k \<le> m") (auto simp: labels_ok_def)
  from k assms(3) have p: "tau s k (dest E) = Some (path_ArrivalUnix p)" "path_Rounds p = int k" unfolding rebuilds_def by fastforce+
  have "served_by E s p" using candidates_extracted [OF assms(3)] assms(4) by (auto simp: extracted_def)
  then have "path_ArrivalUnix p < a" if "1 \<le> k" "tau s (k - 1) (dest E) = Some a" for a
  proof -
    from that(1) p(2) have "int (k - 1) < path_Rounds p" by simp
    with \<open>served_by E s p\<close> that(2) show ?thesis unfolding served_by_def by blast
  qed
  with p(1) have "\<not> (1 \<le> k \<and> tau s k (dest E) = tau s (k - 1) (dest E))" by fastforce
  with ok(2) [OF le] have "round_at s k (dest E) = int k" unfolding round_done_def by blast
  with buildPath_count [OF m(1) timed m(2) k(2) le] p(2) show ?thesis by simp
qed

lemma candidates_distinct:
  assumes "network_ok E" "plain_names (routes E)" "search_labels cancelled E = Some s" "rebuilds E s"
    and sound: "\<And>p. p \<in> set (candidates E s) \<Longrightarrow> journey_sound E p"
  shows "distinct (map pathFingerprint (candidates E s))"
proof (rule distinct_by)
  from candidates_extracted [OF assms(4)] have ex: "sorted_wrt later_round (candidates E s)" by (auto simp: extracted_def)
  have plain: "list_all plain_leg (Legs p)" if p: "p \<in> set (candidates E s)" for p
  proof -
    from candidates_built [OF p] have "list_all (\<lambda>l. Kind l = LegWalk \<longrightarrow> leg_TripID l = []) (Legs p)"
      using built_walks by blast
    with sound [OF p] plain_real_leg [OF _ _ _ assms(2)] show ?thesis
      by (auto simp: journey_sound_def path_well_formed_def connected_legs_def list_all_iff)
  qed
  have "pathFingerprint p \<noteq> pathFingerprint q"
    if pq: "p \<in> set (candidates E s)" "q \<in> set (candidates E s)" "later_round p q" for p q
  proof
    assume "pathFingerprint p = pathFingerprint q"
    then have "transit_count (Legs p) = transit_count (Legs q)"
      unfolding pathFingerprint_def by (rule fingerprint_trips [OF plain [OF pq(1)] plain [OF pq(2)]])
    with candidate_count [OF assms(1,3,4) pq(1)] candidate_count [OF assms(1,3,4) pq(2)] pq(3) show False
      by (simp add: later_round_def)
  qed
  with ex show "sorted_wrt (\<lambda>p q. pathFingerprint p \<noteq> pathFingerprint q) (candidates E s)"
    by (rule sorted_wrt_mono_rel [rotated])
qed

lemma frontier_covers:
  assumes "deduplicatePaths (candidates E s) = candidates E s" "rebuilds E s" "labels_optimal E s (rounds E)"
    and sound: "\<And>p. p \<in> set (candidates E s) \<Longrightarrow> journey_sound E p" and "rounds E \<le> 8"
    and "unhurried_to E k (dest E) t walked" "k \<le> rounds E" "t < infinity"
  shows "\<exists>q \<in> set (frontier E s). path_ArrivalUnix q \<le> t \<and> Transfers q \<le> max 0 (int k - 1)"
proof -
  from assms(3,6,7) obtain m a where m: "m \<le> k" "tau s m (dest E) = Some a" "a \<le> t" unfolding labels_optimal_def by blast
  then have "m < rounds E + 1" "a < infinity" using assms(7,8) by linarith+
  moreover obtain b where "extracted E s (rounds E + 1) (candidates E s, b)" using candidates_extracted [OF assms(2)] ..
  ultimately obtain q where q: "q \<in> set (candidates E s)" "path_ArrivalUnix q \<le> a" "path_Rounds q \<le> int m"
    using m(2) unfolding extracted_def fst_conv by blast
  from sound [OF q(1)] q(3) m(1) assms(5)
  have tr: "Transfers q \<le> max 0 (int k - 1)" "Transfers q < max_int32" by (auto simp: journey_sound_def max_int32_def)
  from pareto_from_covers [OF _ _ tr(2), of "sort_key rank (candidates E s)"] q
  obtain q' where "q' \<in> set (frontier E s)" "path_ArrivalUnix q' \<le> path_ArrivalUnix q" "Transfers q' \<le> Transfers q"
    unfolding frontier_def assms(1) by auto
  with q(2) m(3) tr(1) show ?thesis by (intro bexI [of _ q']) auto
qed

lemma uncancelled_returns: "\<exists>s. search_rounds (\<lambda>k. False) E n k w = Some s"
  by (induction n arbitrary: k w) (simp_all add: Let_def)

lemma journeys_sound_of:
  assumes "labels_ok E m s" "m \<le> rounds E" "p \<in> set (candidates E s)"
  shows "journey_sound E p"
proof -
  from candidates_built [OF assms(3)] obtain k where k: "tau s k (dest E) \<noteq> None" "buildPath E s k = Some p" by blast
  then have "k \<le> m" using assms(1) by (cases "k \<le> m") (auto simp: labels_ok_def)
  with buildPath_sound [OF k(2) assms(1)] assms(2) show ?thesis by blast
qed

lemma sorted_hd_least: "sorted_wrt trades_off xs \<Longrightarrow> q \<in> set xs \<Longrightarrow> path_ArrivalUnix (hd xs) \<le> path_ArrivalUnix q"
  by (cases xs) (auto simp: trades_off_def)

lemma found_state:
  assumes "network_ok E" "search_labels (\<lambda>k. False) E = Some s"
    and "dest E = Destination (params E)" "Origin (params E) \<noteq> Destination (params E)"
  shows "rebuilds E s" "labels_optimal E s (rounds E)" "\<And>p. p \<in> set (candidates E s) \<Longrightarrow> journey_sound E p"
proof -
  have wf: "search_timed E" "buffer_wf (routes E)" "orders_ok (orders E)" using assms(1) by (auto simp: network_ok_def)
  then have "flags_ok (routes E)" by (auto simp: buffer_wf_def flags_ok_def IsFIFO_def)
  with search_state_ok [OF assms(2) _ wf(3,1)] obtain m where m: "m \<le> rounds E" "labels_ok E m s" "times_ok E s" by auto
  from rebuildsI [OF wf(1) m(2,3,1) assms(3,4)] show "rebuilds E s" .
  from journeys_sound_of [OF m(2,1)] show "\<And>p. p \<in> set (candidates E s) \<Longrightarrow> journey_sound E p" .
  from search_labels_optimal [OF assms(1,2)] show "labels_optimal E s (rounds E)" .
qed

lemma frontier_sound:
  "(\<And>p. p \<in> set (candidates E s) \<Longrightarrow> journey_sound E p) \<Longrightarrow> q \<in> set (frontier E s) \<Longrightarrow> journey_sound E q"
  using set_extract_paths [of E s 0] by (auto simp: extract_paths_eq)

lemma unhurried_time:
  assumes "network_ok E" "unhurried_to E k st t walked"
  shows "t < infinity"
proof -
  have "journey_to E k st t walked" using unhurried_is_journey [OF assms(2)] assms(1) by (simp add: network_ok_def)
  then have "t < 2 ^ 62 + 2 ^ 61" using journey_time [OF assms(1)] by (force split: if_splits)
  then show ?thesis by (simp add: infinity_def max_int64_def)
qed

lemma answer_in_time:
  assumes "network_ok (search_env_of p buf sig ords)" "plain_names buf" "Routes buf \<noteq> []"
    and "Origin p \<noteq> []" "Destination p \<noteq> []" "Origin p \<noteq> Destination p"
    and "unhurried_to (search_env_of p buf sig ords) k (Destination p) t walked" "int k \<le> Rounds p"
  shows "let answer = RaptorSearch (\<lambda>k. False) ords (Some buf) sig p topK in
    answer \<noteq> [] \<and> path_ArrivalUnix (hd answer) \<le> t \<and> list_all (\<lambda>q. TransitLegs q = path_Rounds q) answer \<and>
    (topK \<le> 0 \<or> Rounds p < topK \<longrightarrow>
       (\<exists>q \<in> set answer. path_ArrivalUnix q \<le> t \<and> Transfers q \<le> max 0 (int k - 1)))"
proof -
  let ?E = "search_env_of p buf sig ords"
  have r: "1 \<le> Rounds p" "Rounds p \<le> 8" using Rounds_bounds [of p] by (auto simp: MaxAllowedRounds_def)
  then have k: "k \<le> rounds ?E" "rounds ?E \<le> 8" using assms(8) by simp_all
  obtain s where s: "search_labels (\<lambda>k. False) ?E = Some s"
    using uncancelled_returns by (metis search_labels_def)
  have answer: "RaptorSearch (\<lambda>k. False) ords (Some buf) sig p topK = extract_paths ?E s topK"
    using s assms(3-6) by (simp add: RaptorSearch_def Let_def)
  have ends: "dest ?E = Destination (params ?E)" "Origin (params ?E) \<noteq> Destination (params ?E)" using assms(6) by simp_all
  note f = found_state [OF assms(1) s ends]
  have u: "unhurried_to ?E k (dest ?E) t walked" using assms(7) by simp
  have "plain_names (routes ?E)" using assms(2) by simp
  note distinct = candidates_distinct [OF assms(1) this s f(1,3)]
  have best: "\<exists>q \<in> set (frontier ?E s). path_ArrivalUnix q \<le> t \<and> Transfers q \<le> max 0 (int k - 1)"
    by (rule frontier_covers [OF deduplicatePaths_distinct [OF distinct] f k(2) u k(1) unhurried_time [OF assms(1) u]])
  then have "frontier ?E s \<noteq> []" by auto
  then have hd: "extract_paths ?E s topK \<noteq> []" "hd (extract_paths ?E s topK) = hd (frontier ?E s)"
    by (auto simp: extract_paths_eq hd_take)
  have whole: "frontier ?E s = extract_paths ?E s topK" if "topK \<le> 0 \<or> Rounds p < topK"
    using that length_frontier [of ?E s] r by (auto simp: extract_paths_eq)
  have first: "path_ArrivalUnix (hd (frontier ?E s)) \<le> t"
    using best sorted_hd_least [OF frontier_sorted] by (meson order_trans)
  have "TransitLegs q = path_Rounds q" if "q \<in> set (extract_paths ?E s topK)" for q
  proof -
    from that have "q \<in> set (candidates ?E s)" using set_extract_paths by blast
    from candidate_count [OF assms(1) s f(1) this] show ?thesis by (simp add: TransitLegs_eq transit_count_def)
  qed
  then show ?thesis unfolding answer Let_def list_all_iff using hd whole best first by auto
qed

lemma answer_best:
  assumes "searchable (search_env_of p buf sig ords)" "plain_names buf" "Routes buf \<noteq> []"
    and "Origin p \<noteq> []" "Destination p \<noteq> []" "Origin p \<noteq> Destination p"
    and "journey_to (search_env_of p buf sig ords) k (Destination p) t walked" "int k \<le> Rounds p"
  shows "let answer = RaptorSearch (\<lambda>k. False) ords (Some buf) sig p topK in
    answer \<noteq> [] \<and> path_ArrivalUnix (hd answer) \<le> t \<and>
    (\<exists>k' walked'. int k' \<le> Rounds p \<and>
       journey_to (search_env_of p buf sig ords) k' (Destination p) (path_ArrivalUnix (hd answer)) walked') \<and>
    (topK \<le> 0 \<or> Rounds p < topK \<longrightarrow>
       (\<exists>q \<in> set answer. path_ArrivalUnix q \<le> t \<and> Transfers q \<le> max 0 (int k - 1)))"
proof -
  let ?E = "search_env_of p buf sig ords" and ?answer = "RaptorSearch (\<lambda>k. False) ords (Some buf) sig p topK"
  have r: "1 \<le> Rounds p" using Rounds_bounds [of p] by simp
  have net: "network_ok ?E" "xferSec ?E = 0" using assms(1) by (simp_all add: searchable_def)
  have reach: "?answer \<noteq> [] \<and> path_ArrivalUnix (hd ?answer) \<le> u \<and> (topK \<le> 0 \<or> Rounds p < topK \<longrightarrow>
       (\<exists>q \<in> set ?answer. path_ArrivalUnix q \<le> u \<and> Transfers q \<le> max 0 (int j - 1)))"
    if "journey_to ?E j (Destination p) u w" "int j \<le> Rounds p" for j u w
    using answer_in_time [OF net(1) assms(2-6) journey_is_unhurried [OF that(1) net(2)] that(2)] by (simp add: Let_def)
  obtain s where s: "search_labels (\<lambda>k. False) ?E = Some s"
    using uncancelled_returns by (metis search_labels_def)
  have answer: "?answer = extract_paths ?E s topK" using s assms(3-6) by (simp add: RaptorSearch_def Let_def)
  have ends: "dest ?E = Destination (params ?E)" "Origin (params ?E) \<noteq> Destination (params ?E)" using assms(6) by simp_all
  have "hd ?answer \<in> set (candidates ?E s)"
    using reach [OF assms(7,8)] set_extract_paths [of ?E s topK] unfolding answer by (meson hd_in_set subsetD)
  then have h: "journey_sound ?E (hd ?answer)" by (rule found_state(3) [OF net(1) s ends])
  from sound_journey [OF assms(1) h] obtain u w where u: "u \<le> path_ArrivalUnix (hd ?answer)"
    "journey_to ?E (transit_count (Legs (hd ?answer))) (Destination p) u w" by auto
  moreover have j: "int (transit_count (Legs (hd ?answer))) \<le> Rounds p"
    using h r by (auto simp: journey_sound_def)
  ultimately have "path_ArrivalUnix (hd ?answer) = u" using reach by (meson antisym)
  with u(2) j have "\<exists>k' walked'. int k' \<le> Rounds p \<and> journey_to ?E k' (Destination p) (path_ArrivalUnix (hd ?answer)) walked'"
    by blast
  then show ?thesis using reach [OF assms(7,8)] by (simp add: Let_def)
qed

section \<open>Properties\<close>


text \<open>C7: with any transfer time, on a well-formed timed network (walks compose, no two vehicles of a FIFO route leave a stop
  together, no trip arrives before it left an earlier stop, times and walks far from the ends of \<open>int64\<close>) whose names hold no
  separator of the fingerprint: every journey of the reference that is unhurried, that is, allows the transfer time
  before every vehicle but the first, after a walk too, is matched: the first journey of an uncancelled search arrives at least as
  early, and, when the answer is not cut, one of the answer arrives at least as early with at most as many transfers. Each journey
  of the answer boards exactly one vehicle for each round it took to find it, so that none is lost as a duplicate of another.
  \<open>Search_Limits\<close> shows what happens where walks do not compose, vehicles tie or a journey hurries.\<close>

theorem search_with_transfer_time:
  assumes "network_ok (search_env_of p buf sig ords)" "plain_names buf" "Routes buf \<noteq> []"
    and "Origin p \<noteq> []" "Destination p \<noteq> []" "Origin p \<noteq> Destination p"
    and "unhurried_to (search_env_of p buf sig ords) k (Destination p) t walked" "int k \<le> Rounds p"
  shows "let answer = RaptorSearch (\<lambda>k. False) ords (Some buf) sig p topK in
    answer \<noteq> [] \<and> path_ArrivalUnix (hd answer) \<le> t \<and> list_all (\<lambda>q. TransitLegs q = path_Rounds q) answer \<and>
    (topK \<le> 0 \<or> Rounds p < topK \<longrightarrow>
       (\<exists>q \<in> set answer. path_ArrivalUnix q \<le> t \<and> Transfers q \<le> max 0 (int k - 1)))"
  by (rule answer_in_time [OF assms])

lemma sample_buffer_wf: "buffer_wf sample_buffer"
proof -
  have "stops_indexed sample_buffer"
    unfolding stops_indexed_def
  proof (intro allI)
    fix st and rs :: route_stop
    show "rs \<in> set (gm_get (StopToRoutes sample_buffer) st []) \<longleftrightarrow>
      (\<exists>ri pos. rs = \<lparr>RouteIdx = int ri, StopPos = int pos\<rparr> \<and> ri < length (Routes sample_buffer) \<and>
         pos < length (StopIDs (Routes sample_buffer ! ri)) \<and> StopIDs (Routes sample_buffer ! ri) ! pos = st)"
      (is "?l \<longleftrightarrow> (\<exists>ri pos. ?r ri pos)")
    proof
      show "?l \<Longrightarrow> \<exists>ri pos. ?r ri pos"
        by (auto simp: sample_buffer_def gm_get_def split: if_splits)
      assume "\<exists>ri pos. ?r ri pos"
      then obtain ri pos where r: "?r ri pos" by blast
      then have "ri = 0 \<or> ri = 1" by (auto simp: sample_buffer_def)
      moreover from this r have "pos = 0 \<or> pos = 1" by (auto simp: sample_buffer_def)
      ultimately show ?l using r by (auto simp: sample_buffer_def gm_get_def)
    qed
  qed
  moreover have "trips_indexed sample_buffer"
    by (fastforce simp: trips_indexed_def sample_buffer_def sample_trip1_def sample_trip2_def less_Suc_eq split: if_splits)
  ultimately show ?thesis
    by (auto simp: buffer_wf_def route_wf_def sample_buffer_def sample_trip1_def sample_trip2_def less_Suc_eq gm_ok_def computeFIFO_def)
qed

lemma sample_searchable: "searchable sample_env" "plain_names sample_buffer"
proof -
  have "walks_compose sample_buffer" by (auto simp: walks_compose_def sample_buffer_def gm_get_def split: if_splits)
  then show "searchable sample_env"
    using sample_timed sample_ok sample_buffer_wf
    by (auto simp: searchable_def network_ok_def search_timed_def sample_env_eq leave_apart_def less_Suc_eq
        TransferBuffer_def sample_params_def DefaultMinTransferSeconds_def sample_buffer_def)
  show "plain_names sample_buffer"
    by (auto simp: plain_names_def sample_buffer_def sample_trip1_def sample_trip2_def)
qed

lemma sample_journey: "journey_to sample_env 2 ''E'' 400 False"
proof -
  have rides: "ride_exists sample_env (Routes sample_buffer ! 0) sample_trip1 0 1"
    "ride_exists sample_env (Routes sample_buffer ! 1) sample_trip2 0 1"
    by (auto simp: ride_exists_def sample_env_eq sample_buffer_def sample_trip1_def sample_trip2_def
        tripUsable_def canBoard_def intro: exI [of _ 0] exI [of _ 1])
  have "journey_to sample_env 0 ''A'' 50 False"
    using journey_to.at_origin [of sample_env] by (simp add: sample_env_eq sample_params_def)
  from journey_to.by_vehicle [OF this rides(1)] have "journey_to sample_env 1 ''B'' 200 False"
    by (simp add: sample_env_eq sample_buffer_def sample_trip1_def)
  from journey_to.on_foot [OF this, of "Footpath ''D'' 60"] have "journey_to sample_env 1 ''D'' 260 True"
    by (simp add: sample_env_eq sample_buffer_def gm_get_def)
  from journey_to.by_vehicle [OF this rides(2)] show ?thesis
    by (simp add: sample_env_eq sample_buffer_def sample_trip2_def numeral_2_eq_2)
qed


text \<open>The same network with a transfer time of forty seconds.\<close>

definition slow_params :: search_params where
  "slow_params = sample_params\<lparr>MinTransferSeconds := 40\<rparr>"

lemma slow_env: "search_env_of slow_params sample_buffer [] sample_orders = sample_env\<lparr>params := slow_params, xferSec := 40\<rparr>"
  by (simp add: sample_env_def search_env_of_def slow_params_def Rounds_def DateWindow_def TransferBuffer_def sample_params_def)

lemma slow_network_ok: "network_ok (search_env_of slow_params sample_buffer [] sample_orders)"
  using sample_searchable(1) unfolding slow_env
  by (auto simp: searchable_def network_ok_def search_timed_def params_timed_def slow_params_def sample_env_def TransferBuffer_def)

lemma slow_journey: "unhurried_to (search_env_of slow_params sample_buffer [] sample_orders) 2 ''E'' 400 False"
proof -
  let ?E = "search_env_of slow_params sample_buffer [] sample_orders"
  have rides: "ride_exists ?E (Routes sample_buffer ! 0) sample_trip1 0 1"
    "ride_exists ?E (Routes sample_buffer ! 1) sample_trip2 0 1"
    by (auto simp: ride_exists_def slow_env sample_env_eq sample_buffer_def sample_trip1_def sample_trip2_def
        slow_params_def sample_params_def DateWindow_def sample_dates tripUsable_def canBoard_def intro: exI [of _ 0] exI [of _ 1])
  have stops: "StopIDs (Routes sample_buffer ! 0) ! 0 = ''A''" "StopIDs (Routes sample_buffer ! 0) ! 1 = ''B''"
    "StopIDs (Routes sample_buffer ! 1) ! 0 = ''D''" "StopIDs (Routes sample_buffer ! 1) ! 1 = ''E''"
    and times: "Departures sample_trip1 ! 0 = 100" "Arrivals sample_trip1 ! 1 = 200" "Departures sample_trip2 ! 0 = 310"
    "Arrivals sample_trip2 ! 1 = 400"
    by (simp_all add: sample_buffer_def sample_trip1_def sample_trip2_def)
  have "unhurried_to ?E 0 ''A'' 50 False"
    using unhurried_to.at_origin [of ?E] by (simp add: slow_env slow_params_def sample_params_def)
  from unhurried_to.by_vehicle [OF this rides(1)] have "unhurried_to ?E 1 ''B'' 200 False"
    using stops times by (simp add: slack_def)
  moreover have "Footpath ''D'' 60 \<in> set (walks_from ?E ''B'')"
    by (simp add: sample_buffer_def gm_get_def)
  ultimately have "unhurried_to ?E 1 ''D'' 260 True" using unhurried_to.on_foot [of ?E 1 "''B''" 200 "Footpath ''D'' 60"] by simp
  moreover have "xferSec ?E = 40" by (simp add: slow_env)
  ultimately show ?thesis
    using unhurried_to.by_vehicle [OF _ rides(2), of 1 "''D''" 260 True] stops times by (simp add: slack_def numeral_2_eq_2)
qed

theorem search_with_transfer_time_witness:
  "\<exists>q \<in> set (RaptorSearch (\<lambda>k. False) sample_orders (Some sample_buffer) [] slow_params 5).
     path_ArrivalUnix q \<le> 400 \<and> Transfers q \<le> 1"
proof -
  have p: "Routes sample_buffer \<noteq> []" "Origin slow_params \<noteq> []" "Destination slow_params \<noteq> []"
    "Origin slow_params \<noteq> Destination slow_params" "Destination slow_params = ''E''" "Rounds slow_params = 2"
    by (simp_all add: sample_buffer_def slow_params_def sample_params_def Rounds_def MaxAllowedRounds_def)
  show ?thesis
    using search_with_transfer_time [OF slow_network_ok sample_searchable(2) p(1-4), of 2 400 False 5] slow_journey p(5,6)
    by (simp add: Let_def)
qed

end
