(* ===== verification/Search_Limits.thy ===== *)
theory Search_Limits
  imports Engine_Answer
begin

text \<open>
  What the conditions of \<open>search_finds_best\<close> exclude. Each of the three that the code does not check
  is shown to matter: a schedule as the loader publishes it, a journey of the reference, and the
  answer of \<^verbatim>\<open>RaptorSearch\<close> that misses it, evaluated in the kernel.
\<close>

section \<open>Schedules from rows\<close>

text \<open>A trip with its stops and the time at each; a vehicle does not wait.\<close>

type_synonym timetable = "(string \<times> string \<times> (string \<times> int) list) list"

definition rows_of :: "timetable \<Rightarrow> schedule_row option list" where
  "rows_of = concat \<circ> map (\<lambda>(rid, trip, stops). map (\<lambda>(i, sid, t).
     Some \<lparr>row_RouteID = rid, row_TripID = trip, row_Date = ''2026-08-27'', row_StopSeq = int i,
        row_StationID = sid, row_Arrival = t, row_Departure = t\<rparr>) (enumerate 1 stops))"

definition walk_rows_of :: "(string \<times> string \<times> int) list \<Rightarrow> footpath_row option list" where
  "walk_rows_of = map (\<lambda>(a, b, w). Some \<lparr>fr_StationID = a, fr_NeighbourID = b, fr_WalkSeconds = w\<rparr>)"

definition published :: "timetable \<Rightarrow> (string \<times> string \<times> int) list \<Rightarrow> schedule_state" where
  "published trips feet =
     reload_step id DefaultLoadOptions (Rows (rows_of trips) True) (Rows (walk_rows_of feet) True) init_schedule"

lemma published_reachable: "schedule_reachable id (published trips feet)"
  unfolding published_def by (intro schedule_reachable.intros)

text \<open>The buffer, without the hash that the first load does not compare with anything.\<close>

definition buffer_of :: "timetable \<Rightarrow> (string \<times> string \<times> int) list \<Rightarrow> route_buffer" where
  "buffer_of trips feet =
     (build_routes (the (group_rows (rows_of trips) \<lparr>store = [], routeTrips = [], routeOrder = []\<rparr>)))
       \<lparr>Footpaths := closeFootpaths (fst (read_footpaths (walk_rows_of feet) [])) DefaultLoadOptions\<rparr>"

lemma group_rows_Some: "list_all (\<lambda>r. r \<noteq> None) rows \<Longrightarrow> \<exists>g. group_rows rows acc = Some g"
  by (induction rows acc rule: group_rows.induct) auto

lemma published_live: "live (published trips feet) = buffer_of trips feet"
proof -
  have "list_all (\<lambda>r. r \<noteq> None) (rows_of trips)" by (auto simp: rows_of_def list_all_iff)
  from group_rows_Some [OF this, of "\<lparr>store = [], routeTrips = [], routeOrder = []\<rparr>"] show ?thesis
    by (auto simp: published_def buffer_of_def reload_step_def ReloadRouteArrays_def publish_staging_def init_schedule_def loadFootpaths_def
        manifestChanged_def manifestHash_not_Nil Let_def split: prod.splits)
qed

lemma published_exists: "\<exists>st. schedule_reachable id st \<and> live st = buffer_of trips feet"
  using published_reachable published_live by blast

section \<open>Requests\<close>

definition request :: "int \<Rightarrow> search_params" where
  "request transfer = \<lparr>Origin = ''O'', Destination = ''Z'', SearchDate = ''2026-08-27'', DepTime = 0, SeatClass = ''SL'',
     Passengers = 1, MaxRounds = 2, MinTransferSeconds = transfer, DateWindowDays = 1\<rparr>"

definition in_order :: map_orders where
  "in_order = \<lparr>iter_marked = \<lambda>k. id, iter_queue = \<lambda>k. id, iter_improved = \<lambda>k. id\<rparr>"

abbreviation env_of :: "int \<Rightarrow> route_buffer \<Rightarrow> search_env" where
  "env_of transfer buf \<equiv> search_env_of (request transfer) buf [] in_order"

definition arrivals :: "int \<Rightarrow> route_buffer \<Rightarrow> int list" where
  "arrivals transfer buf = map path_ArrivalUnix (RaptorSearch (\<lambda>k. False) in_order (Some buf) [] (request transfer) 5)"

section \<open>Vehicles that leave together\<close>

text \<open>J is not reached where it leaves A, and leaves B together with K, which the passenger rides by then: the
  scan keeps K, although J is at Z earlier.\<close>

definition tie :: route_buffer where
  "tie = buffer_of
     [(''R'', ''J'', [(''A'', 5), (''B'', 30), (''Z'', 40)]), (''R'', ''K'', [(''A'', 15), (''B'', 30), (''Z'', 60)])]
     [(''O'', ''A'', 10), (''O'', ''B'', 20)]"

section \<open>A transfer time\<close>

text \<open>X is reached by a vehicle at 100 and on foot at 105; only the walk leaves time for the vehicle
  at 110, but its label loses against the earlier one.\<close>

definition slow_transfer :: route_buffer where
  "slow_transfer = buffer_of
     [(''P'', ''P1'', [(''O'', 10), (''X'', 100)]), (''Q'', ''Q1'', [(''O'', 10), (''Y'', 95)]), (''S'', ''S1'', [(''X'', 110), (''Z'', 200)])]
     [(''Y'', ''X'', 10)]"

section \<open>A walk beyond the closure\<close>

text \<open>X is reached on foot from V in the first round and by a vehicle in the second, which is later and
  not recorded; the walk on to Z is not taken from X, since it was reached on foot, nor is it in the
  closure from V, since it would take longer than the bound.\<close>

definition long_walk :: route_buffer where
  "long_walk = buffer_of
     [(''P'', ''P1'', [(''O'', 10), (''V'', 100)]), (''Q'', ''Q1'', [(''O'', 10), (''W'', 50)]), (''S'', ''S1'', [(''W'', 60), (''X'', 1200)])]
     [(''V'', ''X'', 1000), (''X'', ''Z'', 1000)]"

section \<open>The runs\<close>

text \<open>The stop times of a vehicle that does not wait.\<close>

definition vehicle :: "string \<Rightarrow> (string \<times> int) list \<Rightarrow> trip_stop_times" where
  "vehicle trip stops =
     \<lparr>Key = TripKey trip ''2026-08-27'', Arrivals = map snd stops, Departures = map snd stops, StationIDs = map fst stops\<rparr>"

lemma ride_existsI:
  assumes "ri < length (StopTimes buf)" "length (Routes buf) = length (StopTimes buf)" "vehicle trip stops \<in> set (StopTimes buf ! ri)"
    and "StopIDs (Routes buf ! ri) = map fst stops" "i < j" "j < length stops"
  shows "ride_exists (env_of x buf) (Routes buf ! ri) (vehicle trip stops) i j"
  using assms by (auto simp: ride_exists_def vehicle_def tripUsable_def canBoard_def request_def DateWindow_def sample_dates)

lemma ride:
  assumes "journey_to (env_of x buf) k st t walked" "t + (if walked \<or> k = 0 then 0 else TransferBuffer (request x)) \<le> dep"
    and "ri < length (StopTimes buf)" "length (Routes buf) = length (StopTimes buf)" "vehicle trip stops \<in> set (StopTimes buf ! ri)"
    and "StopIDs (Routes buf ! ri) = map fst stops" "i < j" "j < length stops" "stops ! i = (st, dep)" "stops ! j = (st', arr)"
  shows "journey_to (env_of x buf) (Suc k) st' arr False"
proof -
  have "StopIDs (Routes buf ! ri) ! i = st" "StopIDs (Routes buf ! ri) ! j = st'" "Departures (vehicle trip stops) ! i = dep"
    "Arrivals (vehicle trip stops) ! j = arr"
    using assms(6-10) by (simp_all add: vehicle_def)
  moreover have "t + (if walked \<or> k = 0 then 0 else xferSec (env_of x buf)) \<le> dep" using assms(2) by (auto split: if_splits)
  ultimately show ?thesis using journey_to.by_vehicle [OF assms(1) ride_existsI [OF assms(3-8)]] by simp
qed

lemma tie_answer: "arrivals 0 tie = [60]"
  by code_simp

lemma slow_transfer_answer: "arrivals 60 slow_transfer = []"
  by code_simp

lemma long_walk_answer: "arrivals 0 long_walk = []"
  by code_simp

lemma start: "journey_to (env_of x buf) 0 ''O'' 0 False"
  using journey_to.at_origin [of "env_of x buf"] by (simp add: request_def)

lemma tie_vehicles:
  "StopTimes tie = [[vehicle ''J'' [(''A'', 5), (''B'', 30), (''Z'', 40)], vehicle ''K'' [(''A'', 15), (''B'', 30), (''Z'', 60)]]] \<and>
   map StopIDs (Routes tie) = [[''A'', ''B'', ''Z'']] \<and> Footpaths tie = [(''O'', [Footpath ''A'' 10, Footpath ''B'' 20])]"
  by code_simp

text \<open>A journey that arrives at 40 on J exists, and the answer holds only the one that arrives at 60.\<close>

theorem tied_departures_hide_journey:
  "(\<exists>st. schedule_reachable id st \<and> live st = tie) \<and> journey_to (env_of 0 tie) 1 ''Z'' 40 False \<and> arrivals 0 tie = [60]"
proof -
  have "journey_to (env_of 0 tie) 0 ''B'' 20 True"
    using journey_to.on_foot [OF start [of 0 tie], of "Footpath ''B'' 20"] tie_vehicles by (simp add: gm_get_def)
  then have "journey_to (env_of 0 tie) (Suc 0) ''Z'' 40 False"
    by (rule ride [where ri = 0 and i = 1 and j = 2 and trip = "''J''" and stops = "[(''A'', 5), (''B'', 30), (''Z'', 40)]"]) (use tie_vehicles in auto)
  moreover have "\<exists>st. schedule_reachable id st \<and> live st = tie" unfolding tie_def by (rule published_exists)
  ultimately show ?thesis using tie_answer by (simp add: numeral_2_eq_2)
qed

lemma slow_transfer_vehicles:
  "StopTimes slow_transfer = [[vehicle ''P1'' [(''O'', 10), (''X'', 100)]], [vehicle ''Q1'' [(''O'', 10), (''Y'', 95)]],
     [vehicle ''S1'' [(''X'', 110), (''Z'', 200)]]] \<and>
   map StopIDs (Routes slow_transfer) = [[''O'', ''X''], [''O'', ''Y''], [''X'', ''Z'']] \<and>
   Footpaths slow_transfer = [(''Y'', [Footpath ''X'' 10])]"
  by code_simp

text \<open>A journey over Y that keeps the transfer time of a minute exists, and no journey is found.\<close>

theorem transfer_time_hides_walk:
  "(\<exists>st. schedule_reachable id st \<and> live st = slow_transfer) \<and> journey_to (env_of 60 slow_transfer) 2 ''Z'' 200 False \<and>
   arrivals 60 slow_transfer = []"
proof -
  note v = slow_transfer_vehicles
  have "journey_to (env_of 60 slow_transfer) (Suc 0) ''Y'' 95 False"
    by (rule ride [OF start, where ri = 1 and i = 0 and j = 1 and trip = "''Q1''" and stops = "[(''O'', 10), (''Y'', 95)]"]) (use v in auto)
  then have "journey_to (env_of 60 slow_transfer) (Suc 0) ''X'' 105 True"
    using journey_to.on_foot [of "env_of 60 slow_transfer" "Suc 0" "''Y''" 95 "Footpath ''X'' 10"] v by (simp add: gm_get_def)
  then have "journey_to (env_of 60 slow_transfer) (Suc (Suc 0)) ''Z'' 200 False"
    by (rule ride [where ri = 2 and i = 0 and j = 1 and trip = "''S1''" and stops = "[(''X'', 110), (''Z'', 200)]"]) (use v in auto)
  moreover have "\<exists>st. schedule_reachable id st \<and> live st = slow_transfer" unfolding slow_transfer_def by (rule published_exists)
  ultimately show ?thesis using slow_transfer_answer by (simp add: numeral_2_eq_2)
qed

lemma long_walk_vehicles:
  "StopTimes long_walk = [[vehicle ''P1'' [(''O'', 10), (''V'', 100)]], [vehicle ''Q1'' [(''O'', 10), (''W'', 50)]],
     [vehicle ''S1'' [(''W'', 60), (''X'', 1200)]]] \<and>
   map StopIDs (Routes long_walk) = [[''O'', ''V''], [''O'', ''W''], [''W'', ''X'']] \<and>
   gm_get (Footpaths long_walk) ''X'' [] = [Footpath ''Z'' 1000]"
  by code_simp

text \<open>The journey over W to X and on foot to Z exists, and no journey is found.\<close>

theorem walk_bound_hides_journey:
  "(\<exists>st. schedule_reachable id st \<and> live st = long_walk) \<and> journey_to (env_of 0 long_walk) 2 ''Z'' 2200 True \<and>
   arrivals 0 long_walk = []"
proof -
  note v = long_walk_vehicles
  have "journey_to (env_of 0 long_walk) (Suc 0) ''W'' 50 False"
    by (rule ride [OF start, where ri = 1 and i = 0 and j = 1 and trip = "''Q1''" and stops = "[(''O'', 10), (''W'', 50)]"]) (use v in auto)
  then have "journey_to (env_of 0 long_walk) (Suc (Suc 0)) ''X'' 1200 False"
    by (rule ride [where ri = 2 and i = 0 and j = 1 and trip = "''S1''" and stops = "[(''W'', 60), (''X'', 1200)]"])
      (use v in \<open>auto simp: request_def TransferBuffer_def DefaultMinTransferSeconds_def\<close>)
  from journey_to.on_foot [OF this, of "Footpath ''Z'' 1000"] v
  have "journey_to (env_of 0 long_walk) 2 ''Z'' 2200 True" by (simp add: numeral_2_eq_2)
  moreover have "\<exists>st. schedule_reachable id st \<and> live st = long_walk" unfolding long_walk_def by (rule published_exists)
  ultimately show ?thesis using long_walk_answer by (simp add: numeral_2_eq_2)
qed

end
