(* ===== verification/Syncer.thy ===== *)
theory Syncer
  imports Zone Signal_State Redis Strconv
begin

text \<open>
  The read side of the seat data, \<^verbatim>\<open>internal/seat/refresher.go\<close>: the cold start that snapshots every
  known trip, its retries, and the loop that tails the dirty stream and publishes the deltas. What
  Redis replies, what the clock says and whether the context is cancelled are arguments of each
  step; the state is the \<open>syncer\<close> with its cursor and throttle, and the published signal buffer of
  \<open>Signal_State\<close>. Times of the throttle are nanoseconds.
\<close>

section \<open>Configuration and state\<close>

record syncer_config =
  sc_MGetChunk :: int
  StreamBatch :: int
  StreamBlock :: int
  ColdStartAttempts :: int
  MinResyncInterval :: int

definition syncer_withDefaults :: "syncer_config \<Rightarrow> syncer_config" where
  "syncer_withDefaults c =
     (let c = (if sc_MGetChunk c \<le> 0 then c\<lparr>sc_MGetChunk := 512\<rparr> else c);
          c = (if StreamBatch c \<le> 0 then c\<lparr>StreamBatch := 500\<rparr> else c);
          c = (if StreamBlock c \<le> 0 then c\<lparr>StreamBlock := seconds 2\<rparr> else c);
          c = (if ColdStartAttempts c \<le> 0 then c\<lparr>ColdStartAttempts := 5\<rparr> else c);
          c = (if MinResyncInterval c \<le> 0 then c\<lparr>MinResyncInterval := seconds 30\<rparr> else c)
      in c)"

text \<open>\<open>lastResync\<close> is \<open>None\<close> for the zero time.\<close>

record syncer =
  sy_cfg :: syncer_config
  cursor :: string
  lastResync :: "int option"

definition NewSyncer :: "syncer_config \<Rightarrow> syncer" where
  "NewSyncer c = \<lparr>sy_cfg = syncer_withDefaults c, cursor = ''0'', lastResync = None\<rparr>"

definition setCursor :: "string \<Rightarrow> syncer \<Rightarrow> syncer" where
  "setCursor eid s = s\<lparr>cursor := eid\<rparr>"

definition markResynced :: "int \<Rightarrow> syncer \<Rightarrow> syncer" where
  "markResynced now s = s\<lparr>lastResync := Some now\<rparr>"

definition resyncWait :: "int \<Rightarrow> syncer \<Rightarrow> int" where
  "resyncWait now s =
     (case lastResync s of
        None \<Rightarrow> 0
      | Some t \<Rightarrow>
          (let since = now - t
           in if since < MinResyncInterval (sy_cfg s) then MinResyncInterval (sy_cfg s) - since else 0))"

section \<open>Stream IDs\<close>

definition splitStreamID :: "string \<Rightarrow> int \<times> int" where
  "splitStreamID eid =
     (let ms = takeWhile (\<lambda>c. c \<noteq> CHR ''-'') eid; rest = dropWhile (\<lambda>c. c \<noteq> CHR ''-'') eid
      in (fst (ParseInt64 ms), if rest = [] then 0 else fst (ParseInt64 (tl rest))))"

definition compareStreamIDs :: "string \<Rightarrow> string \<Rightarrow> int" where
  "compareStreamIDs a b =
     (let (aMs, aSeq) = splitStreamID a; (bMs, bSeq) = splitStreamID b
      in if aMs < bMs then -1 else if aMs > bMs then 1
         else if aSeq < bSeq then -1 else if aSeq > bSeq then 1 else 0)"

section \<open>Fetching signals\<close>

text \<open>
  The decoders are parameters: \<open>unmarshal\<close> gives \<open>None\<close> for an error (JSON null is the empty map),
  \<open>parseFloat\<close> the value with the error dropped. A panic of the departure lookup is
  \<open>DeparturePanic\<close>.
\<close>

record decoders =
  unmarshal :: "string \<Rightarrow> seat_map option"
  parseFloat :: "string \<Rightarrow> rat"

datatype fetch_error = MGetFailed | DeparturePanic

definition val_at :: "redis_value list \<Rightarrow> nat \<Rightarrow> redis_value" where
  "val_at vals i = (if i < length vals then vals ! i else RedisNil)"

text \<open>The signal of one trip, or \<open>Inr None\<close> when it is skipped; \<open>zclock\<close> is the time that
  \<open>ClassifyZone\<close> reads for the trip.\<close>

definition signal_of :: "decoders \<Rightarrow> route_buffer \<Rightarrow> int \<Rightarrow> (trip_key \<Rightarrow> int) \<Rightarrow> trip_key \<Rightarrow> redis_value \<Rightarrow> redis_value \<Rightarrow>
    fetch_error + seat_signal option" where
  "signal_of dec routes now zclock key mapVal tsVal =
     (case mapVal of
        RedisNil \<Rightarrow> Inr None
      | RedisOther \<Rightarrow> Inr None
      | RedisText raw \<Rightarrow>
          if raw = [] then Inr None
          else case unmarshal dec raw of
            None \<Rightarrow> Inr None
          | Some byClass \<Rightarrow>
              (let ts = (case tsVal of RedisText str \<Rightarrow> parseFloat dec str | RedisNil \<Rightarrow> 0 | RedisOther \<Rightarrow> 0);
                   total = fold (\<lambda>(c, v) t. i64 (t + v)) byClass 0
               in case TripDeparture routes key of
                    None \<Rightarrow> Inl DeparturePanic
                  | Some dep \<Rightarrow>
                      (let stale =
                         (if dep > 0 \<and> ts > 0
                          then of_int now - ts > 2 * (of_int (Interval (ClassifyZone (zclock key) dep)) / 10 ^ 9)
                          else if ts = 0 then True else False)
                       in Inr (Some \<lparr>ByClass = byClass, Total = total, Stale = stale, SnapshotTs = ts\<rparr>))))"

fun read_signals :: "(trip_key \<Rightarrow> redis_value \<Rightarrow> redis_value \<Rightarrow> fetch_error + seat_signal option) \<Rightarrow>
    redis_value list \<Rightarrow> redis_value list \<Rightarrow> nat \<Rightarrow> trip_key list \<Rightarrow> signal_buffer \<Rightarrow> fetch_error + signal_buffer" where
  "read_signals sig mapVals tsVals i [] out = Inr out"
| "read_signals sig mapVals tsVals i (key # keys) out =
     (case sig key (val_at mapVals i) (val_at tsVals i) of
        Inl e \<Rightarrow> Inl e
      | Inr None \<Rightarrow> read_signals sig mapVals tsVals (i + 1) keys out
      | Inr (Some s) \<Rightarrow> read_signals sig mapVals tsVals (i + 1) keys (gm_put key s out))"

text \<open>The \<open>j\<close>-th pipeline answers both MGETs or fails.\<close>

type_synonym pipeline = "nat \<Rightarrow> string list \<Rightarrow> string list \<Rightarrow> (redis_value list \<times> redis_value list) option"

fun fetch_signal_chunks :: "(trip_key \<Rightarrow> redis_value \<Rightarrow> redis_value \<Rightarrow> fetch_error + seat_signal option) \<Rightarrow> pipeline \<Rightarrow>
    nat \<Rightarrow> trip_key list list \<Rightarrow> signal_buffer \<Rightarrow> fetch_error + signal_buffer" where
  "fetch_signal_chunks sig pipe j [] out = Inr out"
| "fetch_signal_chunks sig pipe j (chunk # rest) out =
     (case pipe j (map (\<lambda>k. SeatMapKey (TripID k) (Date k)) chunk) (map (\<lambda>k. SeatTSKey (TripID k) (Date k)) chunk) of
        None \<Rightarrow> Inl MGetFailed
      | Some (mapVals, tsVals) \<Rightarrow>
          (case read_signals sig mapVals tsVals 0 chunk out of
             Inl e \<Rightarrow> Inl e
           | Inr out \<Rightarrow> fetch_signal_chunks sig pipe (j + 1) rest out))"

definition fetchSignals :: "decoders \<Rightarrow> pipeline \<Rightarrow> int \<Rightarrow> (trip_key \<Rightarrow> int) \<Rightarrow> syncer \<Rightarrow> route_buffer \<Rightarrow> trip_key list \<Rightarrow>
    fetch_error + signal_buffer" where
  "fetchSignals dec pipe now zclock s routes trips =
     (if length trips = 0 then Inr []
      else fetch_signal_chunks (signal_of dec routes now zclock) pipe 0 (chunks (nat (sc_MGetChunk (sy_cfg s))) trips) [])"

section \<open>The cold start\<close>

text \<open>
  What one cold start meets: the head of the stream (an error, or perhaps an entry), the order in
  which the trip index is ranged over, the replies to the MGETs and the clock readings.
\<close>

record cold_env =
  ce_head :: "string option option"
  ce_routes :: route_buffer
  ce_iter :: "trip_key list \<Rightarrow> trip_key list"
  ce_pipe :: pipeline
  ce_now :: int
  ce_zclock :: "trip_key \<Rightarrow> int"
  ce_swapped :: int
  ce_resynced :: int

datatype cold_error = HeadReadFailed | SnapshotFailed fetch_error | ContextDone

definition ColdStart :: "decoders \<Rightarrow> cold_env \<Rightarrow> syncer \<times> app_state \<Rightarrow> cold_error option \<times> syncer \<times> app_state" where
  "ColdStart dec e st =
     (let (s, app) = st in
      case ce_head e of
        None \<Rightarrow> (Some HeadReadFailed, s, app)
      | Some head \<Rightarrow>
          (let s = (case head of None \<Rightarrow> s | Some eid \<Rightarrow> setCursor eid s);
               routes = ce_routes e;
               keys = ce_iter e (gm_keys (TripIndex routes))
           in case fetchSignals dec (ce_pipe e) (ce_now e) (ce_zclock e) s routes keys of
                Inl err \<Rightarrow> (Some (SnapshotFailed err), s, app)
              | Inr staging \<Rightarrow> (None, markResynced (ce_resynced e) s, SwapSignal (ce_swapped e) staging app)))"

text \<open>
  The retry loop from \<open>attempt\<close> with \<open>left\<close> attempts left. It also returns the delays it slept, in
  order; \<open>cancelled a\<close> is the context at the top of attempt \<open>a\<close>.
\<close>

fun cold_attempts :: "decoders \<Rightarrow> (nat \<Rightarrow> cold_env) \<Rightarrow> (nat \<Rightarrow> bool) \<Rightarrow> nat \<Rightarrow> nat \<Rightarrow> cold_error option \<Rightarrow> int \<Rightarrow>
    syncer \<times> app_state \<Rightarrow> cold_error option \<times> int list \<times> syncer \<times> app_state" where
  "cold_attempts dec env cancelled attempt 0 lastErr delay st = (lastErr, [], st)"
| "cold_attempts dec env cancelled attempt (Suc left) lastErr delay st =
     (if cancelled attempt then (Some ContextDone, [], st)
      else case ColdStart dec (env attempt) st of
        (None, st) \<Rightarrow> (None, [], st)
      | (Some err, st) \<Rightarrow>
          if left > 0
          then (case cold_attempts dec env cancelled (attempt + 1) left (Some err) (i64 (2 * delay)) st of
                  (r, slept, st) \<Rightarrow> (r, delay # slept, st))
          else (Some err, [], st))"

definition ColdStartWithRetry :: "decoders \<Rightarrow> (nat \<Rightarrow> cold_env) \<Rightarrow> (nat \<Rightarrow> bool) \<Rightarrow> syncer \<times> app_state \<Rightarrow>
    cold_error option \<times> int list \<times> syncer \<times> app_state" where
  "ColdStartWithRetry dec env cancelled st =
     cold_attempts dec env cancelled 1 (nat (ColdStartAttempts (sy_cfg (fst st)))) None (seconds 1 div 2) st"

section \<open>The refresh loop\<close>

record stream_msg =
  msg_ID :: string
  msg_trip :: "string option"

datatype xread = XReadNil | XReadFailed | XReadMsgs "stream_msg list"

text \<open>\<open>oldest\<close> is the reply to XRANGE: an error, or perhaps an entry.\<close>

definition lagged :: "string option option \<Rightarrow> syncer \<Rightarrow> bool" where
  "lagged oldest s =
     (case oldest of
        Some (Some eid) \<Rightarrow> cursor s \<noteq> ''0'' \<and> compareStreamIDs (cursor s) eid < 0
      | _ \<Rightarrow> False)"

text \<open>The last ID of a batch and the distinct trips it names, in order.\<close>

definition collect_dirty :: "string \<Rightarrow> stream_msg list \<Rightarrow> string \<times> trip_key list" where
  "collect_dirty lastID msgs =
     fold (\<lambda>msg (lastID, dirty).
        (msg_ID msg,
         case msg_trip msg of
           None \<Rightarrow> dirty
         | Some raw \<Rightarrow> (case ParseSeatTripDate raw of None \<Rightarrow> dirty | Some key \<Rightarrow> add_new key dirty))) msgs (lastID, [])"

definition merge_signals :: "signal_buffer \<Rightarrow> signal_buffer \<Rightarrow> signal_buffer" where
  "merge_signals live updates = fold (\<lambda>(k, v). gm_put k v) updates (fold (\<lambda>(k, v). gm_put k v) live [])"

text \<open>
  One iteration: the context at the five places where it is asked (top, after a failed read, after
  the throttle slept, after a failed resync, after a failed fetch), the replies and the clock.
\<close>

datatype loop_point = AtTop | AfterRead | AfterWait | AfterCold | AfterFetch

record refresh_env =
  re_cancelled :: "loop_point \<Rightarrow> bool"
  re_xread :: xread
  re_oldest :: "string option option"
  re_wait_now :: int
  re_cold :: cold_env
  re_marked :: int
  re_routes :: route_buffer
  re_pipe :: pipeline
  re_now :: int
  re_zclock :: "trip_key \<Rightarrow> int"
  re_swapped :: int

definition resync :: "decoders \<Rightarrow> refresh_env \<Rightarrow> syncer \<times> app_state \<Rightarrow> syncer \<times> app_state" where
  "resync dec e st =
     (let wait = resyncWait (re_wait_now e) (fst st)
      in if wait > 0 \<and> re_cancelled e AfterWait then st
         else case ColdStart dec (re_cold e) st of
           (None, st) \<Rightarrow> st
         | (Some err, s, app) \<Rightarrow>
             if \<not> re_cancelled e AfterCold then (markResynced (re_marked e) s, app) else (s, app))"

datatype 's loop_result = Stopped | Panicked | Running 's

definition refresh_step :: "decoders \<Rightarrow> refresh_env \<Rightarrow> (syncer \<times> app_state) \<times> int \<Rightarrow> ((syncer \<times> app_state) \<times> int) loop_result" where
  "refresh_step dec e lp =
     (let ((s, app), backoff) = lp in
      if re_cancelled e AtTop then Stopped
      else case re_xread e of
        XReadNil \<Rightarrow> Running ((s, app), backoff)
      | XReadFailed \<Rightarrow>
          if re_cancelled e AfterRead then Stopped
          else Running ((s, app), if backoff < seconds 30 then 2 * backoff else backoff)
      | XReadMsgs msgs \<Rightarrow>
          (let backoff = seconds 1
           in if msgs = [] then Running ((s, app), backoff)
              else if lagged (re_oldest e) s then Running (resync dec e (s, app), backoff)
              else
                (let (lastID, dirty) = collect_dirty (cursor s) msgs
                 in if dirty = [] then Running ((setCursor lastID s, app), backoff)
                    else case fetchSignals dec (re_pipe e) (re_now e) (re_zclock e) s (re_routes e) dirty of
                      Inl DeparturePanic \<Rightarrow> Panicked
                    | Inl MGetFailed \<Rightarrow>
                        if re_cancelled e AfterFetch then Stopped else Running ((s, app), backoff)
                    | Inr updates \<Rightarrow>
                        (let staging = merge_signals (LiveSignal app) updates
                         in Running ((setCursor lastID s, SwapSignal (re_swapped e) staging app), backoff)))))"

fun RefreshLoop :: "decoders \<Rightarrow> refresh_env list \<Rightarrow> (syncer \<times> app_state) \<times> int \<Rightarrow> ((syncer \<times> app_state) \<times> int) loop_result" where
  "RefreshLoop dec [] lp = Running lp"
| "RefreshLoop dec (e # es) lp =
     (case refresh_step dec e lp of Running lp \<Rightarrow> RefreshLoop dec es lp | Stopped \<Rightarrow> Stopped | Panicked \<Rightarrow> Panicked)"

section \<open>Lemmas\<close>

definition stream_id :: "nat \<Rightarrow> nat \<Rightarrow> string" where
  "stream_id ms sq = show_nat ms @ CHR ''-'' # show_nat sq"

lemma splitStreamID_stream_id:
  assumes "ms < 2 ^ 63" "sq < 2 ^ 63"
  shows "splitStreamID (stream_id ms sq) = (int ms, int sq)"
proof -
  have "c \<noteq> CHR ''-''" if "c \<in> set (show_nat ms)" for c
    using show_nat_digits [OF that] by auto
  then have "takeWhile (\<lambda>c. c \<noteq> CHR ''-'') (stream_id ms sq) = show_nat ms"
    "dropWhile (\<lambda>c. c \<noteq> CHR ''-'') (stream_id ms sq) = CHR ''-'' # show_nat sq"
    by (simp_all add: stream_id_def takeWhile_append2 dropWhile_append2)
  with assms show ?thesis by (simp add: splitStreamID_def ParseInt64_show_nat Let_def)
qed

lemma compare_stream_ids:
  assumes "ms < 2 ^ 63" "sq < 2 ^ 63" "ms' < 2 ^ 63" "sq' < 2 ^ 63"
  shows "compareStreamIDs (stream_id ms sq) (stream_id ms' sq') =
    (if (ms, sq) < (ms', sq') then -1 else if (ms, sq) = (ms', sq') then 0 else 1)"
  using splitStreamID_stream_id [OF assms(1,2)] splitStreamID_stream_id [OF assms(3,4)]
  by (auto simp: compareStreamIDs_def less_prod_def)

text \<open>One pass over the trips, each with its own pair of values: what the chunks add up to.\<close>

fun fold_signals :: "(trip_key \<Rightarrow> fetch_error + seat_signal option) \<Rightarrow> trip_key list \<Rightarrow> signal_buffer \<Rightarrow> fetch_error + signal_buffer" where
  "fold_signals h [] out = Inr out"
| "fold_signals h (k # ks) out =
     (case h k of Inl e \<Rightarrow> Inl e | Inr None \<Rightarrow> fold_signals h ks out | Inr (Some s) \<Rightarrow> fold_signals h ks (gm_put k s out))"

lemma fold_signals_append:
  "fold_signals h (xs @ ys) out = (case fold_signals h xs out of Inl e \<Rightarrow> Inl e | Inr out \<Rightarrow> fold_signals h ys out)"
  by (induction h xs out rule: fold_signals.induct) (auto split: sum.splits option.splits)

lemma read_signals_fold:
  "(\<And>j. j < length keys \<Longrightarrow> val_at mv (i + j) = f (keys ! j) \<and> val_at tv (i + j) = g (keys ! j)) \<Longrightarrow>
   read_signals sig mv tv i keys out = fold_signals (\<lambda>k. sig k (f k) (g k)) keys out"
proof (induction keys arbitrary: i out)
  case (Cons key keys)
  have "val_at mv i = f key \<and> val_at tv i = g key" using Cons.prems [of 0] by simp
  moreover have "val_at mv (Suc i + j) = f (keys ! j) \<and> val_at tv (Suc i + j) = g (keys ! j)" if "j < length keys" for j
    using Cons.prems [of "Suc j"] that by simp
  ultimately show ?case using Cons.IH [of "Suc i"] by (simp split: sum.splits option.splits)
qed simp

text \<open>\<open>faithful\<close> pipelines read a fixed keyspace.\<close>

definition faithful :: "pipeline \<Rightarrow> (string \<Rightarrow> redis_value) \<Rightarrow> bool" where
  "faithful pipe lookup \<longleftrightarrow> pipe = (\<lambda>j mk tk. Some (map lookup mk, map lookup tk))"

abbreviation map_val :: "(string \<Rightarrow> redis_value) \<Rightarrow> trip_key \<Rightarrow> redis_value" where
  "map_val lookup k \<equiv> lookup (SeatMapKey (TripID k) (Date k))"

abbreviation ts_val :: "(string \<Rightarrow> redis_value) \<Rightarrow> trip_key \<Rightarrow> redis_value" where
  "ts_val lookup k \<equiv> lookup (SeatTSKey (TripID k) (Date k))"

lemma fetch_signal_chunks_fold:
  assumes "faithful pipe lookup"
  shows "fetch_signal_chunks sig pipe j cs out =
    fold_signals (\<lambda>k. sig k (map_val lookup k) (ts_val lookup k)) (concat cs) out"
proof (induction cs arbitrary: j out)
  case (Cons c cs)
  have "read_signals sig (map (\<lambda>k. map_val lookup k) c) (map (\<lambda>k. ts_val lookup k) c) 0 c out =
      fold_signals (\<lambda>k. sig k (map_val lookup k) (ts_val lookup k)) c out"
    by (rule read_signals_fold) (simp add: val_at_def)
  with Cons assms show ?case
    by (simp add: faithful_def fold_signals_append o_def split: sum.splits)
qed simp

lemma fold_signals_map:
  assumes "\<And>k. k \<in> set ks \<Longrightarrow> h k = Inr (r k)" "gm_ok out"
  shows "\<exists>out'. fold_signals h ks out = Inr out' \<and> gm_ok out' \<and>
    (\<forall>k. map_of out' k = (if k \<in> set ks \<and> r k \<noteq> None then r k else map_of out k))"
  using assms
proof (induction ks arbitrary: out)
  case (Cons k ks)
  have hk: "h k = Inr (r k)" using Cons.prems(1) by simp
  note IH = Cons.IH [OF Cons.prems(1) [OF list.set_intros(2)]]
  show ?case
  proof (cases "r k")
    case None
    with IH [OF _ Cons.prems(2)] hk show ?thesis by (auto cong: if_cong)
  next
    case (Some s)
    from IH [OF _ gm_ok_put [OF Cons.prems(2)], of k s] obtain out' where
      "fold_signals h ks (gm_put k s out) = Inr out'" "gm_ok out'"
      "\<forall>k'. map_of out' k' = (if k' \<in> set ks \<and> r k' \<noteq> None then r k' else map_of (gm_put k s out) k')" by auto
    with Some hk show ?thesis by (auto simp: gomap_simps)
  qed
qed simp

definition known_departures :: "route_buffer \<Rightarrow> trip_key list \<Rightarrow> bool" where
  "known_departures routes trips \<longleftrightarrow> list_all (\<lambda>k. TripDeparture routes k \<noteq> None) trips"

lemma signal_of_no_panic:
  "TripDeparture routes k \<noteq> None \<Longrightarrow> \<exists>r. signal_of dec routes now zclock k mv tv = Inr r"
  by (auto simp: signal_of_def Let_def split: redis_value.splits option.splits)

text \<open>What Redis says of a trip, without the judgement of staleness.\<close>

definition redis_seats :: "decoders \<Rightarrow> (string \<Rightarrow> redis_value) \<Rightarrow> trip_key \<Rightarrow> (seat_map \<times> rat) option" where
  "redis_seats dec lookup k =
     (case map_val lookup k of
        RedisText raw \<Rightarrow>
          if raw = [] then None
          else map_option (\<lambda>m. (m, case ts_val lookup k of RedisText str \<Rightarrow> parseFloat dec str | _ \<Rightarrow> 0)) (unmarshal dec raw)
      | _ \<Rightarrow> None)"

lemma signal_of_seats:
  "signal_of dec routes now zclock k (map_val lookup k) (ts_val lookup k) = Inr r \<Longrightarrow>
   map_option (\<lambda>s. (ByClass s, SnapshotTs s)) r = redis_seats dec lookup k"
  by (auto simp: signal_of_def redis_seats_def Let_def split: redis_value.splits option.splits if_splits)

lemma fetchSignals_faithful:
  assumes "faithful pipe lookup" "0 < sc_MGetChunk (sy_cfg s)" "known_departures routes trips"
  shows "\<exists>out. fetchSignals dec pipe now zclock s routes trips = Inr out \<and> gm_ok out \<and>
    (\<forall>k. map_option (\<lambda>sig. (ByClass sig, SnapshotTs sig)) (map_of out k) =
       (if k \<in> set trips then redis_seats dec lookup k else None))"
proof -
  define h where "h = (\<lambda>k. signal_of dec routes now zclock k (map_val lookup k) (ts_val lookup k))"
  define r where "r = (\<lambda>k. case h k of Inl e \<Rightarrow> None | Inr r \<Rightarrow> r)"
  have h: "h k = Inr (r k)" if "k \<in> set trips" for k
  proof -
    from that assms(3) have "TripDeparture routes k \<noteq> None" by (simp add: known_departures_def list_all_iff)
    then obtain x where "h k = Inr x" unfolding h_def using signal_of_no_panic by metis
    then show ?thesis by (simp add: r_def)
  qed
  have seats: "map_option (\<lambda>s. (ByClass s, SnapshotTs s)) (r k) = redis_seats dec lookup k" if "k \<in> set trips" for k
    using signal_of_seats h [OF that] unfolding h_def by blast
  have "fetchSignals dec pipe now zclock s routes trips = fold_signals h trips []"
    using assms(2) by (simp add: fetchSignals_def fetch_signal_chunks_fold [OF assms(1)] concat_chunks h_def)
  moreover from fold_signals_map [of trips h r "[]", OF h] obtain out where
    "fold_signals h trips [] = Inr out" "gm_ok out" and look: "\<forall>k. map_of out k = (if k \<in> set trips \<and> r k \<noteq> None then r k else None)"
    by auto
  moreover have "map_option (\<lambda>sig. (ByClass sig, SnapshotTs sig)) (map_of out k) = (if k \<in> set trips then redis_seats dec lookup k else None)" for k
    using look seats [of k] by (cases "r k") auto
  ultimately show ?thesis by (intro exI [of _ out]) simp
qed

lemma fold_put: "gm_ok m \<Longrightarrow> gm_ok acc \<Longrightarrow>
    gm_ok (fold (\<lambda>(k, v). gm_put k v) m acc) \<and> map_of (fold (\<lambda>(k, v). gm_put k v) m acc) = map_of acc ++ map_of m"
proof (induction m arbitrary: acc)
  case (Cons x m)
  obtain k v where x: "x = (k, v)" by fastforce
  have m: "gm_ok m" "map_of m k = None" using Cons.prems(1) by (auto simp: gm_ok_def x map_of_eq_None_iff)
  from Cons.IH [OF m(1) gm_ok_put [OF Cons.prems(2)], of k v] m(2) show ?case
    by (auto simp: x gomap_simps map_add_def fun_eq_iff split: option.splits)
qed simp

lemma merge_signals_map:
  "gm_ok live \<Longrightarrow> gm_ok updates \<Longrightarrow>
   gm_ok (merge_signals live updates) \<and> map_of (merge_signals live updates) = map_of live ++ map_of updates"
  using fold_put [of live "[]"] fold_put [of updates "fold (\<lambda>(k, v). gm_put k v) live []"] by (simp add: merge_signals_def)

lemma fetchSignals_gm_ok:
  assumes "fetchSignals dec pipe now zclock s routes trips = Inr out"
  shows "gm_ok out"
proof -
  have read: "read_signals sig mv tv i keys out = Inr out' \<Longrightarrow> gm_ok out \<Longrightarrow> gm_ok out'" for sig mv tv i keys out out'
    by (induction sig mv tv i keys out rule: read_signals.induct) (auto split: sum.splits option.splits)
  have "fetch_signal_chunks sig pipe j cs out = Inr out' \<Longrightarrow> gm_ok out \<Longrightarrow> gm_ok out'" for sig j cs out out'
  proof (induction cs arbitrary: j out)
    case (Cons c cs)
    then obtain mv tv mid where "read_signals sig mv tv 0 c out = Inr mid" "fetch_signal_chunks sig pipe (j + 1) cs mid = Inr out'"
      by (auto split: sum.splits option.splits)
    with Cons read show ?case by blast
  qed simp
  with assms show ?thesis by (auto simp: fetchSignals_def split: if_splits)
qed

definition dirty_trips :: "stream_msg list \<Rightarrow> trip_key set" where
  "dirty_trips msgs = {k. \<exists>msg \<in> set msgs. \<exists>raw. msg_trip msg = Some raw \<and> ParseSeatTripDate raw = Some k}"

lemma collect_dirty_eq:
  "msgs \<noteq> [] \<Longrightarrow> fst (collect_dirty cur msgs) = msg_ID (last msgs)"
  "set (snd (collect_dirty cur msgs)) = dirty_trips msgs" "distinct (snd (collect_dirty cur msgs))"
proof -
  define f where "f = (\<lambda>(msg :: stream_msg) (lastID :: string, dirty).
        (msg_ID msg,
         case msg_trip msg of
           None \<Rightarrow> dirty
         | Some raw \<Rightarrow> (case ParseSeatTripDate raw of None \<Rightarrow> dirty | Some key \<Rightarrow> add_new key dirty)))"
  have "(msgs \<noteq> [] \<longrightarrow> fst (fold f msgs (l, d)) = msg_ID (last msgs)) \<and>
      set (snd (fold f msgs (l, d))) = set d \<union> dirty_trips msgs \<and> distinct (snd (fold f msgs (l, d))) = distinct d" for msgs l d
  proof (induction msgs arbitrary: l d)
    case (Cons msg msgs)
    from Cons [of "msg_ID msg" "snd (f msg (l, d))"] show ?case
      by (auto simp: f_def dirty_trips_def split: option.splits)
  qed (simp add: dirty_trips_def)
  from this [of msgs cur "[]"] show "msgs \<noteq> [] \<Longrightarrow> fst (collect_dirty cur msgs) = msg_ID (last msgs)"
    "set (snd (collect_dirty cur msgs)) = dirty_trips msgs" "distinct (snd (collect_dirty cur msgs))"
    unfolding collect_dirty_def f_def [symmetric] by simp_all
qed

end
