(* ===== verification/Syncer_Properties.thy ===== *)
theory Syncer_Properties
  imports Syncer
begin

text \<open>
  The theorems about \<open>Syncer\<close>: stream IDs are ordered by their numbers, fetching reads what Redis
  holds, the loop never passes an entry it has not applied, it converges to what Redis holds, full
  re-synchronisations are throttled, the cold start retries boundedly, and a cold start that fails
  half-way has already moved the cursor.
\<close>

text \<open>Splitting the ID of a stream entry gives its two numbers back, and comparing two IDs
  compares these numbers, the milliseconds first, up to the largest 63-bit number.\<close>

theorem stream_ids_ordered:
  assumes "ms < 2 ^ 63" "sq < 2 ^ 63" "ms' < 2 ^ 63" "sq' < 2 ^ 63"
  shows "splitStreamID (stream_id ms sq) = (int ms, int sq) \<and>
    compareStreamIDs (stream_id ms sq) (stream_id ms' sq') =
      (if (ms, sq) < (ms', sq') then -1 else if (ms, sq) = (ms', sq') then 0 else 1)"
  using splitStreamID_stream_id [OF assms(1,2)] compare_stream_ids [OF assms] by blast

theorem stream_ids_ordered_witness:
  "compareStreamIDs (stream_id 9 0) (stream_id 10 0) = -1 \<and> compareStreamIDs (stream_id 10 7) (stream_id 10 7) = 0"
  using stream_ids_ordered [of 9 0 10 0] stream_ids_ordered [of 10 7 10 7] by simp

text \<open>Fetching the signals of some trips gives each of them exactly the seats and the time stamp
  that Redis holds for it, and nothing for any other, whatever the chunk size is.\<close>

theorem fetchSignals_reads_redis:
  assumes "faithful pipe lookup" "0 < sc_MGetChunk (sy_cfg s)" "known_departures routes trips"
  shows "\<exists>out. fetchSignals dec pipe now zclock s routes trips = Inr out \<and> gm_ok out \<and>
    (\<forall>k. map_option (\<lambda>sig. (ByClass sig, SnapshotTs sig)) (map_of out k) =
       (if k \<in> set trips then redis_seats dec lookup k else None))"
  by (rule fetchSignals_faithful [OF assms])

definition demo_config :: syncer_config where
  "demo_config = \<lparr>sc_MGetChunk = 1, StreamBatch = 0, StreamBlock = 0, ColdStartAttempts = 0, MinResyncInterval = 0\<rparr>"

definition demo_dec :: decoders where
  "demo_dec = \<lparr>unmarshal = (\<lambda>s. if s = ''{}'' then Some [] else Some [(''SL'', int (length s))]), parseFloat = (\<lambda>s. 7)\<rparr>"

definition demo_lookup :: "string \<Rightarrow> redis_value" where
  "demo_lookup k = (if k = ''seat:map:T1:2026-08-27'' then RedisText ''abc''
     else if k = ''seat:ts:T1:2026-08-27'' then RedisText ''7'' else RedisNil)"

definition demo_pipe :: pipeline where
  "demo_pipe = (\<lambda>j mk tk. Some (map demo_lookup mk, map demo_lookup tk))"

lemma demo_faithful: "faithful demo_pipe demo_lookup"
  by (simp add: faithful_def demo_pipe_def)

lemma demo_seats: "redis_seats demo_dec demo_lookup (TripKey ''T1'' ''2026-08-27'') = Some ([(''SL'', 3)], 7)"
  by (simp add: redis_seats_def demo_lookup_def SeatMapKey_def SeatTSKey_def demo_dec_def)

lemma no_departures: "known_departures newRouteBuffer ks"
  by (simp add: known_departures_def list_all_iff TripDeparture_def newRouteBuffer_def)

lemma demo_chunk: "sc_MGetChunk (sy_cfg (NewSyncer demo_config)) = 1"
  by (simp add: NewSyncer_def syncer_withDefaults_def demo_config_def Let_def)

theorem fetchSignals_reads_redis_witness:
  "\<exists>out. fetchSignals demo_dec demo_pipe 0 (\<lambda>k. 0) (NewSyncer demo_config) newRouteBuffer [TripKey ''T1'' ''2026-08-27'', TripKey ''T2'' ''2026-08-27''] = Inr out \<and>
     map_option ByClass (map_of out (TripKey ''T1'' ''2026-08-27'')) = Some [(''SL'', 3)]"
proof -
  let ?k = "TripKey ''T1'' ''2026-08-27''"
  from fetchSignals_reads_redis [OF demo_faithful _ no_departures, of "NewSyncer demo_config" demo_dec 0 "\<lambda>k. 0" "[?k, TripKey ''T2'' ''2026-08-27'']"]
  obtain out where out: "fetchSignals demo_dec demo_pipe 0 (\<lambda>k. 0) (NewSyncer demo_config) newRouteBuffer [?k, TripKey ''T2'' ''2026-08-27''] = Inr out"
    "map_option (\<lambda>sig. (ByClass sig, SnapshotTs sig)) (map_of out ?k) = redis_seats demo_dec demo_lookup ?k"
    by (auto simp: demo_chunk)
  from out(2) have "map_option ByClass (map_of out ?k) = Some [(''SL'', 3)]" unfolding demo_seats by auto
  with out(1) show ?thesis by blast
qed

text \<open>What an iteration without lag does.\<close>

lemma unlagged_outcome:
  assumes "refresh_step dec e ((s, app), b) = Running ((s', app'), b')" "\<not> lagged (re_oldest e) s" "gm_ok (liveSignal app)"
  shows "(s' = s \<and> app' = app) \<or>
    (\<exists>msgs. re_xread e = XReadMsgs msgs \<and> msgs \<noteq> [] \<and> s' = setCursor (msg_ID (last msgs)) s \<and>
       (if dirty_trips msgs = {} then app' = app
        else \<exists>dirty updates. set dirty = dirty_trips msgs \<and> distinct dirty \<and>
          fetchSignals dec (re_pipe e) (re_now e) (re_zclock e) s (re_routes e) dirty = Inr updates \<and>
          map_of (liveSignal app') = map_of (liveSignal app) ++ map_of updates))"
proof (cases "re_xread e")
  case (XReadMsgs msgs)
  show ?thesis
  proof (cases "msgs = []")
    case False
    obtain lastID dirty where c: "collect_dirty (cursor s) msgs = (lastID, dirty)" by fastforce
    from collect_dirty_eq [where cur = "cursor s" and msgs = msgs] c False
    have d: "lastID = msg_ID (last msgs)" "set dirty = dirty_trips msgs" "distinct dirty" by auto
    show ?thesis
    proof (cases "dirty = []")
      case True
      with XReadMsgs False c d assms(1,2) show ?thesis
        by (auto simp: refresh_step_def Let_def split: if_splits)
    next
      case nonempty: False
      show ?thesis
      proof (cases "fetchSignals dec (re_pipe e) (re_now e) (re_zclock e) s (re_routes e) dirty")
        case (Inl err)
        with XReadMsgs False c nonempty assms(1,2) show ?thesis
          by (auto simp: refresh_step_def Let_def split: if_splits fetch_error.splits)
      next
        case (Inr updates)
        with XReadMsgs False c nonempty assms(1,2) have
          st: "s' = setCursor lastID s" "app' = SwapSignal (re_swapped e) (merge_signals (LiveSignal app) updates) app"
          by (auto simp: refresh_step_def Let_def split: if_splits)
        have "map_of (liveSignal app') = map_of (liveSignal app) ++ map_of updates"
          using merge_signals_map [OF assms(3) fetchSignals_gm_ok [OF Inr]] by (simp add: st(2) SwapSignal_eq LiveSignal_def)
        with XReadMsgs False d st(1) Inr nonempty show ?thesis
          by (intro disjI2 exI [of _ msgs]) auto
      qed
    qed
  qed (use XReadMsgs assms(1) in \<open>auto simp: refresh_step_def Let_def split: if_splits\<close>)
qed (use assms(1) in \<open>auto simp: refresh_step_def Let_def split: if_splits\<close>)

text \<open>C12: an iteration that finds no lag either changes nothing, or moves the cursor to the last entry of
  the batch it read, having published the fetched signal of every trip the batch names over the
  live signals: no entry is passed without its delta.\<close>

theorem refresh_never_passes_unapplied:
  assumes "refresh_step dec e ((s, app), b) = Running ((s', app'), b')" "\<not> lagged (re_oldest e) s" "gm_ok (liveSignal app)"
  shows "(s' = s \<and> app' = app) \<or>
    (\<exists>msgs. re_xread e = XReadMsgs msgs \<and> msgs \<noteq> [] \<and> s' = setCursor (msg_ID (last msgs)) s \<and>
       (if dirty_trips msgs = {} then app' = app
        else \<exists>dirty updates. set dirty = dirty_trips msgs \<and> distinct dirty \<and>
          fetchSignals dec (re_pipe e) (re_now e) (re_zclock e) s (re_routes e) dirty = Inr updates \<and>
          map_of (liveSignal app') = map_of (liveSignal app) ++ map_of updates))"
  by (rule unlagged_outcome [OF assms])

definition demo_env :: "stream_msg list \<Rightarrow> refresh_env" where
  "demo_env msgs = \<lparr>re_cancelled = (\<lambda>p. False), re_xread = XReadMsgs msgs,
     re_oldest = Some (case msgs of [] \<Rightarrow> None | m # _ \<Rightarrow> Some (msg_ID m)), re_wait_now = 0,
     re_cold = \<lparr>ce_head = None, ce_routes = newRouteBuffer, ce_iter = id, ce_pipe = demo_pipe, ce_now = 0,
       ce_zclock = (\<lambda>k. 0), ce_swapped = 0, ce_resynced = 0\<rparr>, re_marked = 0, re_routes = newRouteBuffer,
     re_pipe = demo_pipe, re_now = 0, re_zclock = (\<lambda>k. 0), re_swapped = 0\<rparr>"

theorem refresh_never_passes_unapplied_witness:
  "\<exists>st b. refresh_step demo_dec (demo_env [\<lparr>msg_ID = ''5-0'', msg_trip = None\<rparr>]) ((NewSyncer demo_config, init_app), 1) = Running (st, b) \<and>
     cursor (fst st) = ''5-0''"
proof -
  let ?msgs = "[\<lparr>msg_ID = ''5-0'', msg_trip = None\<rparr>]"
  have "refresh_step demo_dec (demo_env ?msgs) ((NewSyncer demo_config, init_app), 1) =
      Running ((setCursor ''5-0'' (NewSyncer demo_config), init_app), seconds 1)"
    by (simp add: refresh_step_def demo_env_def lagged_def NewSyncer_def collect_dirty_def)
  moreover from refresh_never_passes_unapplied [OF this] have
    "cursor (setCursor ''5-0'' (NewSyncer demo_config)) = ''5-0''"
    by (auto simp: lagged_def demo_env_def init_app_def setCursor_def NewSyncer_def)
  ultimately show ?thesis by auto
qed

section \<open>Stream entries\<close>

type_synonym stream_entry = "string \<times> (string \<times> string) list"

text \<open>Redis orders IDs by their two numbers.\<close>

abbreviation id_of :: "stream_entry \<Rightarrow> int \<times> int" where
  "id_of x \<equiv> splitStreamID (fst x)"

definition newer :: "string \<Rightarrow> stream_entry \<Rightarrow> bool" where
  "newer cur x \<longleftrightarrow> splitStreamID cur < id_of x"

abbreviation id_sorted :: "stream_entry list \<Rightarrow> bool" where
  "id_sorted es \<equiv> sorted_wrt (\<lambda>x y. id_of x < id_of y) es"

lemma splitStreamID_0: "splitStreamID ''0'' = (0, 0)"
  using ParseInt64_show_nat [of 0] by (simp add: splitStreamID_def show_nat_0)

lemma compare_less: "compareStreamIDs a b < 0 \<longleftrightarrow> splitStreamID a < splitStreamID b"
  by (cases "splitStreamID a"; cases "splitStreamID b") (auto simp: compareStreamIDs_def less_prod_def)

text \<open>What XREAD and the XRANGE of one entry answer from a stream.\<close>

definition msg_of :: "stream_entry \<Rightarrow> stream_msg" where
  "msg_of x = \<lparr>msg_ID = fst x, msg_trip = map_of (snd x) ''trip''\<rparr>"

definition xread_reply :: "string \<Rightarrow> int \<Rightarrow> stream_entry list \<Rightarrow> xread" where
  "xread_reply cur batch es =
     (case take (nat batch) (filter (newer cur) es) of [] \<Rightarrow> XReadNil | new \<Rightarrow> XReadMsgs (map msg_of new))"

definition oldest_reply :: "stream_entry list \<Rightarrow> string option" where
  "oldest_reply es = (case es of [] \<Rightarrow> None | x # _ \<Rightarrow> Some (fst x))"

lemma unread_advance:
  assumes "id_sorted es" "0 < n" "filter (newer cur) es \<noteq> []" "batch = take n (filter (newer cur) es)"
  shows "batch \<noteq> []" "filter (newer (fst (last batch))) es = drop n (filter (newer cur) es)"
    "\<not> lagged (Some (oldest_reply es)) (setCursor (fst (last batch)) s)"
proof -
  let ?un = "filter (newer cur) es"
  show ne: "batch \<noteq> []" using assms(2-4) by simp
  have un: "?un = batch @ drop n ?un" by (simp add: assms(4))
  have sorted: "id_sorted (batch @ drop n ?un)" unfolding un [symmetric] using assms(1) by (rule sorted_wrt_filter)
  have last: "last batch \<in> set batch" using ne by simp
  moreover have "set batch \<subseteq> set ?un" unfolding assms(4) by (rule set_take_subset)
  ultimately have mem: "last batch \<in> set es" "newer cur (last batch)" by auto
  have "filter (newer (fst (last batch))) es = filter (newer (fst (last batch))) ?un"
    using mem(2) by (auto simp: newer_def intro!: filter_cong)
  also have "\<dots> = filter (newer (fst (last batch))) batch @ filter (newer (fst (last batch))) (drop n ?un)"
    by (subst un) simp
  also have "filter (newer (fst (last batch))) batch = []"
  proof -
    have "id_sorted (butlast batch @ [last batch])" using sorted ne by (simp add: sorted_wrt_append)
    then have "\<not> newer (fst (last batch)) x" if "x \<in> set (butlast batch @ [last batch])" for x
      using that by (auto simp: newer_def sorted_wrt_append)
    then show ?thesis using ne by (simp add: filter_empty_conv)
  qed
  also have "filter (newer (fst (last batch))) (drop n ?un) = drop n ?un"
    using sorted last by (auto simp: newer_def sorted_wrt_append filter_id_conv)
  finally show "filter (newer (fst (last batch))) es = drop n ?un" by simp
  obtain z zs where z: "es = z # zs" using mem(1) by (cases es) auto
  with assms(1) mem(1) have "\<not> id_of (last batch) < id_of z" by (auto dest: less_asym)
  then show "\<not> lagged (Some (oldest_reply es)) (setCursor (fst (last batch)) s)"
    by (simp add: lagged_def oldest_reply_def setCursor_def compare_less z)
qed

lemma last_unread: "id_sorted es \<Longrightarrow> filter (newer cur) es \<noteq> [] \<Longrightarrow> last (filter (newer cur) es) = last es"
proof -
  assume es: "id_sorted es" "filter (newer cur) es \<noteq> []"
  then obtain ys z where z: "es = ys @ [z]" by (cases es rule: rev_cases) auto
  from es(2) obtain x where "x \<in> set es" "newer cur x" by (auto simp: filter_empty_conv)
  then have "newer cur z" using es(1) by (auto simp: z newer_def sorted_wrt_append)
  then show ?thesis by (simp add: z)
qed

section \<open>Convergence\<close>

text \<open>The buffer agrees with Redis on a trip: Redis has no seats for it, or the live signal has these.\<close>

definition agrees :: "decoders \<Rightarrow> (string \<Rightarrow> redis_value) \<Rightarrow> signal_buffer \<Rightarrow> trip_key \<Rightarrow> bool" where
  "agrees dec lookup live k \<longleftrightarrow>
     redis_seats dec lookup k = None \<or>
     map_option (\<lambda>sig. (ByClass sig, SnapshotTs sig)) (map_of live k) = redis_seats dec lookup k"

text \<open>An iteration that goes well: not cancelled, a batch of messages, no lag, both MGETs answered from
  the keyspace, and a schedule whose departures can be looked up.\<close>

definition good_batch :: "(string \<Rightarrow> redis_value) \<Rightarrow> syncer \<Rightarrow> refresh_env \<Rightarrow> stream_msg list \<Rightarrow> bool" where
  "good_batch lookup s e msgs \<longleftrightarrow>
     re_cancelled e = (\<lambda>p. False) \<and> re_xread e = XReadMsgs msgs \<and> msgs \<noteq> [] \<and> \<not> lagged (re_oldest e) s \<and>
     faithful (re_pipe e) lookup \<and> (\<forall>ks. known_departures (re_routes e) ks)"

lemma good_batch_step:
  assumes "good_batch lookup s e msgs" "0 < sc_MGetChunk (sy_cfg s)" "gm_ok (liveSignal app)"
  shows "\<exists>app' b'. refresh_step dec e ((s, app), b) = Running ((setCursor (msg_ID (last msgs)) s, app'), b') \<and>
    gm_ok (liveSignal app') \<and>
    (\<forall>k. k \<in> dirty_trips msgs \<or> agrees dec lookup (liveSignal app) k \<longrightarrow> agrees dec lookup (liveSignal app') k)"
proof -
  note e = assms(1) [unfolded good_batch_def]
  obtain dirty where c: "collect_dirty (cursor s) msgs = (msg_ID (last msgs), dirty)" "set dirty = dirty_trips msgs"
    using e collect_dirty_eq [where cur = "cursor s" and msgs = msgs] by (metis prod.collapse)
  show ?thesis
  proof (cases "dirty = []")
    case True
    with e c assms(3) show ?thesis by (auto simp: refresh_step_def Let_def)
  next
    case False
    from e have "faithful (re_pipe e) lookup" "known_departures (re_routes e) dirty" by blast+
    from fetchSignals_faithful [OF this(1) assms(2) this(2), of dec "re_now e" "re_zclock e"] obtain updates where
      u: "fetchSignals dec (re_pipe e) (re_now e) (re_zclock e) s (re_routes e) dirty = Inr updates" "gm_ok updates"
        "\<And>k. map_option (\<lambda>sig. (ByClass sig, SnapshotTs sig)) (map_of updates k) = (if k \<in> set dirty then redis_seats dec lookup k else None)"
      by blast
    let ?app = "SwapSignal (re_swapped e) (merge_signals (LiveSignal app) updates) app"
    have step: "refresh_step dec e ((s, app), b) = Running ((setCursor (msg_ID (last msgs)) s, ?app), seconds 1)"
      using e c False u(1) by (auto simp: refresh_step_def Let_def)
    have live: "gm_ok (liveSignal ?app) \<and> map_of (liveSignal ?app) = map_of (liveSignal app) ++ map_of updates"
      using merge_signals_map [OF assms(3) u(2)] by (simp add: SwapSignal_eq LiveSignal_def)
    have "agrees dec lookup (liveSignal ?app) k" if "k \<in> dirty_trips msgs \<or> agrees dec lookup (liveSignal app) k" for k
      using that u(3) [of k] c(2) live by (cases "map_of updates k") (auto simp: agrees_def map_add_def split: if_splits)
    with step live show ?thesis by blast
  qed
qed

text \<open>What an iteration meets that is answered by a Redis at rest: XREAD and XRANGE from one stream, the MGETs from one
  keyspace; and a whole run of such iterations.\<close>

definition answers :: "(string \<Rightarrow> redis_value) \<Rightarrow> stream_entry list \<Rightarrow> syncer \<Rightarrow> refresh_env \<Rightarrow> bool" where
  "answers lookup es s e \<longleftrightarrow>
     re_cancelled e = (\<lambda>p. False) \<and> re_xread e = xread_reply (cursor s) (StreamBatch (sy_cfg s)) es \<and>
     re_oldest e = Some (oldest_reply es) \<and> faithful (re_pipe e) lookup \<and> (\<forall>ks. known_departures (re_routes e) ks)"

fun answered_run :: "decoders \<Rightarrow> (string \<Rightarrow> redis_value) \<Rightarrow> stream_entry list \<Rightarrow> refresh_env list \<Rightarrow> (syncer \<times> app_state) \<times> int \<Rightarrow> bool" where
  "answered_run dec lookup es [] lp = True"
| "answered_run dec lookup es (e # envs) lp =
     (answers lookup es (fst (fst lp)) e \<and>
      (case refresh_step dec e lp of Running lp' \<Rightarrow> answered_run dec lookup es envs lp' | Stopped \<Rightarrow> True | Panicked \<Rightarrow> True))"

abbreviation unread :: "syncer \<Rightarrow> stream_entry list \<Rightarrow> stream_entry list" where
  "unread s es \<equiv> filter (newer (cursor s)) es"

lemma answers_step:
  assumes "id_sorted es" "\<not> lagged (Some (oldest_reply es)) s" "answers lookup es s e"
    and "0 < sc_MGetChunk (sy_cfg s)" "0 < StreamBatch (sy_cfg s)" "gm_ok (liveSignal app)"
  shows "\<exists>s' app' b'. refresh_step dec e ((s, app), b) = Running ((s', app'), b') \<and> gm_ok (liveSignal app') \<and> sy_cfg s' = sy_cfg s \<and>
    \<not> lagged (Some (oldest_reply es)) s' \<and> unread s' es = drop (nat (StreamBatch (sy_cfg s))) (unread s es) \<and>
    (\<forall>k. k \<in> dirty_trips (map msg_of (take (nat (StreamBatch (sy_cfg s))) (unread s es))) \<or> agrees dec lookup (liveSignal app) k \<longrightarrow>
       agrees dec lookup (liveSignal app') k) \<and>
    cursor s' = (if unread s es = [] then cursor s else fst (last (take (nat (StreamBatch (sy_cfg s))) (unread s es))))"
proof (cases "unread s es = []")
  case True
  with assms(3) have "re_cancelled e = (\<lambda>p. False)" "re_xread e = XReadNil" by (simp_all add: answers_def xread_reply_def)
  then have "refresh_step dec e ((s, app), b) = Running ((s, app), b)" by (simp add: refresh_step_def)
  with True assms(2,6) show ?thesis by (auto simp: dirty_trips_def)
next
  case False
  define batch where "batch = take (nat (StreamBatch (sy_cfg s))) (unread s es)"
  have n: "0 < nat (StreamBatch (sy_cfg s))" using assms(5) by simp
  note adv = unread_advance [OF assms(1) n False batch_def]
  have "re_xread e = XReadMsgs (map msg_of batch)"
    using assms(3) adv(1) by (cases batch) (auto simp: answers_def xread_reply_def batch_def [symmetric])
  then have "good_batch lookup s e (map msg_of batch)" using assms(2,3) adv(1) by (simp add: good_batch_def answers_def)
  from good_batch_step [OF this assms(4,6), of dec b] obtain app' b' where
    step: "refresh_step dec e ((s, app), b) = Running ((setCursor (msg_ID (last (map msg_of batch))) s, app'), b')" "gm_ok (liveSignal app')"
      "\<forall>k. k \<in> dirty_trips (map msg_of batch) \<or> agrees dec lookup (liveSignal app) k \<longrightarrow> agrees dec lookup (liveSignal app') k" by blast
  have last: "msg_ID (last (map msg_of batch)) = fst (last batch)" using adv(1) by (simp add: last_map msg_of_def)
  show ?thesis
    using step adv(2,3) False
    by (intro exI [of _ "setCursor (fst (last batch)) s"] exI [of _ app'] exI [of _ b'])
      (simp add: last setCursor_def batch_def [symmetric])
qed

text \<open>C11: the refresh loop converges: while Redis is at rest, its stream holding what the loop has not read, as many iterations as
  there are batches leave the cursor at the last entry with nothing unread, whatever the batch size is, and the buffer agrees
  with Redis on every trip it agreed on before and on every trip some unread entry names; further iterations change nothing.\<close>

theorem refresh_converges:
  assumes "id_sorted es" "\<not> lagged (Some (oldest_reply es)) s" "answered_run dec lookup es envs ((s, app), b)"
    and "sy_cfg s = syncer_withDefaults c" "gm_ok (liveSignal app)"
    and "length (unread s es) \<le> length envs * nat (StreamBatch (sy_cfg s))"
  shows "\<exists>s' app' b'. RefreshLoop dec envs ((s, app), b) = Running ((s', app'), b') \<and>
    cursor s' = (if unread s es = [] then cursor s else fst (last es)) \<and> unread s' es = [] \<and>
    (\<forall>k. k \<in> dirty_trips (map msg_of (unread s es)) \<or> agrees dec lookup (liveSignal app) k \<longrightarrow> agrees dec lookup (liveSignal app') k)"
  using assms(2-6)
proof (induction envs arbitrary: s app b)
  case Nil
  then show ?case by (auto simp: dirty_trips_def)
next
  case (Cons e envs)
  let ?n = "nat (StreamBatch (sy_cfg s))"
  have pos: "0 < sc_MGetChunk (sy_cfg s)" "0 < StreamBatch (sy_cfg s)"
    using Cons.prems(3) by (simp_all add: syncer_withDefaults_def Let_def)
  have "answers lookup es s e" using Cons.prems(2) by simp
  from answers_step [OF assms(1) Cons.prems(1) this pos Cons.prems(4), of dec b] obtain s1 app1 b1 where
    step: "refresh_step dec e ((s, app), b) = Running ((s1, app1), b1)" and gm: "gm_ok (liveSignal app1)" and cfg: "sy_cfg s1 = sy_cfg s"
    and lag: "\<not> lagged (Some (oldest_reply es)) s1" and rest: "unread s1 es = drop ?n (unread s es)"
    and ag: "\<And>k. k \<in> dirty_trips (map msg_of (take ?n (unread s es))) \<or> agrees dec lookup (liveSignal app) k \<Longrightarrow> agrees dec lookup (liveSignal app1) k"
    and cur: "cursor s1 = (if unread s es = [] then cursor s else fst (last (take ?n (unread s es))))" by blast
  have "length (unread s1 es) \<le> length envs * nat (StreamBatch (sy_cfg s1))" using Cons.prems(5) rest cfg by simp
  moreover have "answered_run dec lookup es envs ((s1, app1), b1)" "sy_cfg s1 = syncer_withDefaults c"
    using Cons.prems(2,3) step cfg by simp_all
  ultimately obtain s' app' b' where
    run: "RefreshLoop dec envs ((s1, app1), b1) = Running ((s', app'), b')"
    and cur': "cursor s' = (if unread s1 es = [] then cursor s1 else fst (last es))" and un': "unread s' es = []"
    and ag': "\<And>k. k \<in> dirty_trips (map msg_of (unread s1 es)) \<or> agrees dec lookup (liveSignal app1) k \<Longrightarrow> agrees dec lookup (liveSignal app') k"
    using Cons.IH [OF lag _ _ gm] by blast
  have "dirty_trips (map msg_of (unread s es)) = dirty_trips (map msg_of (take ?n (unread s es))) \<union> dirty_trips (map msg_of (unread s1 es))"
    unfolding rest by (subst append_take_drop_id [of ?n "unread s es", symmetric], unfold map_append) (auto simp: dirty_trips_def)
  then have "agrees dec lookup (liveSignal app') k" if "k \<in> dirty_trips (map msg_of (unread s es)) \<or> agrees dec lookup (liveSignal app) k" for k
    using that ag ag' by blast
  moreover have "cursor s' = (if unread s es = [] then cursor s else fst (last es))"
  proof (cases "unread s es = [] \<or> unread s1 es \<noteq> []")
    case True
    then show ?thesis using cur' cur rest by auto
  next
    case False
    then have "take ?n (unread s es) = unread s es" using rest by simp
    with False cur' cur last_unread [OF assms(1), of "cursor s"] show ?thesis by simp
  qed
  moreover have "RefreshLoop dec (e # envs) ((s, app), b) = Running ((s', app'), b')" using step run by simp
  ultimately show ?case using un' by blast
qed

lemma demo_dirty: "dirty_trips [\<lparr>msg_ID = ''5-0'', msg_trip = Some ''T1:2026-08-27''\<rparr>] = {TripKey ''T1'' ''2026-08-27''}"
proof -
  have "ParseSeatTripDate ''T1:2026-08-27'' = Some (TripKey ''T1'' ''2026-08-27'')" by code_simp
  then show ?thesis by (auto simp: dirty_trips_def)
qed

theorem refresh_converges_witness:
  "\<exists>s' app' b'. RefreshLoop demo_dec [demo_env [\<lparr>msg_ID = ''5-0'', msg_trip = Some ''T1:2026-08-27''\<rparr>]] ((NewSyncer demo_config, init_app), 1) =
      Running ((s', app'), b') \<and> cursor s' = ''5-0'' \<and>
    map_option ByClass (map_of (liveSignal app') (TripKey ''T1'' ''2026-08-27'')) = Some [(''SL'', 3)]"
proof -
  let ?es = "[(''5-0'', [(''trip'', ''T1:2026-08-27'')])]" and ?k = "TripKey ''T1'' ''2026-08-27''" and ?s = "NewSyncer demo_config"
  let ?e = "demo_env [\<lparr>msg_ID = ''5-0'', msg_trip = Some ''T1:2026-08-27''\<rparr>]"
  have "stream_id 5 0 = ''5-0''" by code_simp
  then have "splitStreamID ''5-0'' = (5, 0)" using splitStreamID_stream_id [of 5 0] by simp
  moreover note splitStreamID_0
  moreover have "nat (StreamBatch (sy_cfg ?s)) = Suc 499" by (simp add: NewSyncer_def syncer_withDefaults_def demo_config_def Let_def)
  ultimately have un: "unread ?s ?es = ?es" and "xread_reply (cursor ?s) (StreamBatch (sy_cfg ?s)) ?es = XReadMsgs (map msg_of ?es)"
    by (simp_all add: newer_def xread_reply_def NewSyncer_def)
  then have ans: "answers demo_lookup ?es ?s ?e"
    by (simp add: answers_def demo_env_def demo_faithful no_departures oldest_reply_def msg_of_def)
  have run: "answered_run demo_dec demo_lookup ?es [?e] ((?s, init_app), 1)"
    unfolding answered_run.simps fst_conv using ans by (cases "refresh_step demo_dec ?e ((?s, init_app), 1)") simp_all
  have start: "id_sorted ?es" "\<not> lagged (Some (oldest_reply ?es)) ?s" "sy_cfg ?s = syncer_withDefaults demo_config" "gm_ok (liveSignal init_app)"
    by (simp_all add: lagged_def oldest_reply_def NewSyncer_def init_app_def)
  from refresh_converges [OF start(1,2) run start(3,4)] un \<open>nat (StreamBatch (sy_cfg ?s)) = Suc 499\<close>
  obtain s' app' b' where out: "RefreshLoop demo_dec [?e] ((?s, init_app), 1) = Running ((s', app'), b')" "cursor s' = ''5-0''"
      "\<forall>k. k \<in> dirty_trips (map msg_of ?es) \<longrightarrow> agrees demo_dec demo_lookup (liveSignal app') k"
    by (auto simp del: RefreshLoop.simps)
  have "agrees demo_dec demo_lookup (liveSignal app') ?k" using out(3) demo_dirty by (simp add: msg_of_def)
  then have "map_option ByClass (map_of (liveSignal app') ?k) = Some [(''SL'', 3)]" by (auto simp: agrees_def demo_seats)
  with out(1,2) show ?thesis by blast
qed

section \<open>The cold start and its throttle\<close>

text \<open>A cold start whose snapshot fails has already moved the cursor to the head of the stream: the
  published signals are the old ones, and no entry that was not newer than the head, applied or
  not, is read again or noticed as lag.\<close>

theorem failed_cold_start_skips_entries:
  assumes "ColdStart dec e (s, app) = (Some (SnapshotFailed err), s', app')" "ce_head e = Some (Some (stream_id ms sq))"
    and "ms < 2 ^ 63" "sq < 2 ^ 63" "ms' < 2 ^ 63" "sq' < 2 ^ 63" "(ms', sq') \<le> (ms, sq)"
  shows "app' = app \<and> cursor s' = stream_id ms sq \<and> \<not> lagged (Some (Some (stream_id ms' sq'))) s'"
proof -
  have s': "s' = setCursor (stream_id ms sq) s" "app' = app"
    using assms(1,2) by (auto simp: ColdStart_def Let_def split: sum.splits)
  have "compareStreamIDs (stream_id ms sq) (stream_id ms' sq') \<ge> 0"
    using compare_stream_ids [OF assms(3-6)] assms(7) by auto
  with s' show ?thesis by (simp add: lagged_def setCursor_def)
qed

definition failing_cold :: cold_env where
  "failing_cold = \<lparr>ce_head = Some (Some (stream_id 9 1)), ce_routes = demo_buffer, ce_iter = id, ce_pipe = (\<lambda>j mk tk. None),
     ce_now = 0, ce_zclock = (\<lambda>k. 0), ce_swapped = 0, ce_resynced = 0\<rparr>"

lemma sy_cfg_setCursor: "sy_cfg (setCursor eid s) = sy_cfg s"
  by (simp add: setCursor_def)

lemma failing_cold_start:
  "ColdStart demo_dec failing_cold (NewSyncer demo_config, init_app) =
     (Some (SnapshotFailed MGetFailed), setCursor (stream_id 9 1) (NewSyncer demo_config), init_app)"
  by (simp add: ColdStart_def failing_cold_def fetchSignals_def demo_buffer_def newRouteBuffer_def gm_keys_def
      chunks.simps sy_cfg_setCursor demo_chunk Let_def)

theorem failed_cold_start_skips_entries_witness:
  "\<not> lagged (Some (Some (stream_id 3 0))) (fst (snd (ColdStart demo_dec failing_cold (NewSyncer demo_config, init_app))))"
  using failed_cold_start_skips_entries [OF failing_cold_start, of 9 1 3 0]
  by (simp add: failing_cold_start) (simp add: failing_cold_def)

text \<open>The throttle: whenever a resync is asked for, waiting as long as \<open>resyncWait\<close> says and no
  longer than the configured interval brings the next cold start to at least that interval after the
  last one, exactly there when it came early; and a resync that is not cancelled records its time,
  whether it succeeds or fails.\<close>

theorem resync_is_throttled:
  assumes "0 < MinResyncInterval (sy_cfg s)" "lastResync s = Some t" "t \<le> now"
  shows "0 \<le> resyncWait now s \<and> resyncWait now s \<le> MinResyncInterval (sy_cfg s) \<and>
    now + resyncWait now s = max now (t + MinResyncInterval (sy_cfg s)) \<and>
    (if re_cancelled e AfterWait \<or> re_cancelled e AfterCold then True
     else lastResync (fst (resync dec e (s, app))) \<in> {Some (ce_resynced (re_cold e)), Some (re_marked e)})"
  using assms
  by (auto simp: resyncWait_def resync_def ColdStart_def markResynced_def setCursor_def Let_def
      split: option.splits sum.splits prod.splits)

theorem resync_is_throttled_witness:
  "resyncWait 1000 (markResynced 0 (NewSyncer demo_config)) = seconds 30 - 1000"
  using resync_is_throttled [of "markResynced 0 (NewSyncer demo_config)" 0 1000 "demo_env []" demo_dec init_app]
  by (simp add: markResynced_def NewSyncer_def syncer_withDefaults_def demo_config_def Let_def seconds_def)

section \<open>Retries at boot\<close>

text \<open>The state after the cold starts of the attempts \<open>a, \<dots>, a + n - 1\<close>.\<close>

fun after_attempts :: "decoders \<Rightarrow> (nat \<Rightarrow> cold_env) \<Rightarrow> nat \<Rightarrow> nat \<Rightarrow> syncer \<times> app_state \<Rightarrow> syncer \<times> app_state" where
  "after_attempts dec env a 0 st = st"
| "after_attempts dec env a (Suc n) st = after_attempts dec env (a + 1) n (snd (ColdStart dec (env a) st))"

lemma after_attempts_snoc:
  "after_attempts dec env a (Suc n) st = snd (ColdStart dec (env (a + n)) (after_attempts dec env a n st))"
  by (induction n arbitrary: a st) auto

lemma i64_mult_right: "i64 (a * i64 x) = i64 (a * x)"
proof -
  have "(a * ((x + 2 ^ 63) mod 2 ^ 64 - 2 ^ 63)) mod 2 ^ 64 = (a * x) mod 2 ^ 64" for x a :: int
    by (metis add_diff_cancel_right' mod_diff_left_eq mod_mult_right_eq)
  then have "(a * ((x + 2 ^ 63) mod 2 ^ 64 - 2 ^ 63) + 2 ^ 63) mod 2 ^ 64 = (a * x + 2 ^ 63) mod 2 ^ 64"
    by (metis mod_add_left_eq)
  then show ?thesis by (simp add: i64_def)
qed

lemma cold_attempts_result:
  assumes "cold_attempts dec env cancelled a n le d st = (r, slept, st')" "0 < n" "in_i64 d"
  shows "\<exists>k \<le> n. st' = after_attempts dec env a k st \<and>
    slept = map (\<lambda>i. i64 (2 ^ i * d)) [0..<length slept] \<and> length slept < n \<and> length slept \<le> k \<and>
    (case r of
       None \<Rightarrow> 0 < k \<and> fst (ColdStart dec (env (a + k - 1)) (after_attempts dec env a (k - 1) st)) = None
     | Some err \<Rightarrow> (err = ContextDone \<and> k < n \<and> cancelled (a + k)) \<or>
         (k = n \<and> fst (ColdStart dec (env (a + k - 1)) (after_attempts dec env a (k - 1) st)) = Some err))"
  using assms
proof (induction n arbitrary: a le d st r slept st')
  case (Suc n)
  show ?case
  proof (cases "cancelled a")
    case True
    with Suc.prems show ?thesis by (intro exI [of _ 0]) auto
  next
    case False
    obtain err st1 where run: "ColdStart dec (env a) st = (err, st1)" by (cases "ColdStart dec (env a) st")
    show ?thesis
    proof (cases err)
      case None
      with Suc.prems False run show ?thesis by (intro exI [of _ 1]) auto
    next
      case (Some x)
      show ?thesis
      proof (cases "n = 0")
        case True
        with Suc.prems False run Some show ?thesis by (intro exI [of _ 1]) auto
      next
        case more: False
        with Suc.prems False run Some obtain slept1 where
          rec: "cold_attempts dec env cancelled (a + 1) n (Some x) (i64 (2 * d)) st1 = (r, slept1, st')" and sl: "slept = d # slept1"
          by (auto split: prod.splits)
        from Suc.IH [OF rec _ in_i64_i64] more obtain k where k: "k \<le> n" "st' = after_attempts dec env (a + 1) k st1"
          "slept1 = map (\<lambda>i. i64 (2 ^ i * i64 (2 * d))) [0..<length slept1]" "length slept1 < n" "length slept1 \<le> k"
          "case r of
             None \<Rightarrow> 0 < k \<and> fst (ColdStart dec (env (a + 1 + k - 1)) (after_attempts dec env (a + 1) (k - 1) st1)) = None
           | Some err \<Rightarrow> (err = ContextDone \<and> k < n \<and> cancelled (a + 1 + k)) \<or>
               (k = n \<and> fst (ColdStart dec (env (a + 1 + k - 1)) (after_attempts dec env (a + 1) (k - 1) st1)) = Some err)"
          by blast
        have "slept = map (\<lambda>i. i64 (2 ^ i * d)) [0..<length slept]"
        proof -
          have "map (\<lambda>i. i64 (2 ^ i * d)) [0..<Suc (length slept1)] = d # map (\<lambda>i. i64 (2 ^ i * i64 (2 * d))) [0..<length slept1]"
            using Suc.prems(3) by (simp add: map_upt_Suc i64_mult_right i64_id mult_ac del: upt_Suc)
          with k(3) sl show ?thesis by simp
        qed
        moreover have "0 < k \<Longrightarrow> after_attempts dec env (a + 1) (k - 1) st1 = after_attempts dec env a k st"
          using run by (cases k) auto
        moreover have "0 < k" if "k = n" using that more by simp
        ultimately show ?thesis using k sl run more
          by (intro exI [of _ "Suc k"]) (auto split: option.splits)
      qed
    qed
  qed
qed simp

text \<open>C29: the cold start at boot ends after at most the configured number of attempts: it reports
  success exactly when the last attempt it made succeeded, cancellation when the context was done, and
  otherwise the error of the last of all attempts; it sleeps less often than it tries, half a second
  first and twice as long each time (in the 64 bits of a duration).\<close>

theorem cold_start_retries_boundedly:
  assumes "ColdStartWithRetry dec env cancelled (NewSyncer c, app) = (r, slept, st')"
  shows "\<exists>k. int k \<le> ColdStartAttempts (syncer_withDefaults c) \<and> st' = after_attempts dec env 1 k (NewSyncer c, app) \<and>
    int (length slept) < ColdStartAttempts (syncer_withDefaults c) \<and>
    slept = map (\<lambda>i. i64 (2 ^ i * (seconds 1 div 2))) [0..<length slept] \<and>
    (case r of
       None \<Rightarrow> 0 < k \<and> fst (ColdStart dec (env k) (after_attempts dec env 1 (k - 1) (NewSyncer c, app))) = None
     | Some err \<Rightarrow> (err = ContextDone \<and> cancelled (k + 1)) \<or>
         (int k = ColdStartAttempts (syncer_withDefaults c) \<and>
          fst (ColdStart dec (env k) (after_attempts dec env 1 (k - 1) (NewSyncer c, app))) = Some err))"
proof -
  have n: "0 < ColdStartAttempts (syncer_withDefaults c)" by (simp add: syncer_withDefaults_def Let_def)
  with assms cold_attempts_result [of dec env cancelled 1 "nat (ColdStartAttempts (syncer_withDefaults c))" None "seconds 1 div 2" "(NewSyncer c, app)" r slept st']
  obtain k where "k \<le> nat (ColdStartAttempts (syncer_withDefaults c))" "st' = after_attempts dec env 1 k (NewSyncer c, app)"
    "slept = map (\<lambda>i. i64 (2 ^ i * (seconds 1 div 2))) [0..<length slept]" "length slept < nat (ColdStartAttempts (syncer_withDefaults c))"
    "case r of
       None \<Rightarrow> 0 < k \<and> fst (ColdStart dec (env (1 + k - 1)) (after_attempts dec env 1 (k - 1) (NewSyncer c, app))) = None
     | Some err \<Rightarrow> (err = ContextDone \<and> k < nat (ColdStartAttempts (syncer_withDefaults c)) \<and> cancelled (1 + k)) \<or>
         (k = nat (ColdStartAttempts (syncer_withDefaults c)) \<and>
          fst (ColdStart dec (env (1 + k - 1)) (after_attempts dec env 1 (k - 1) (NewSyncer c, app))) = Some err)"
    using in_i64I [of "seconds 1 div 2"] by (auto simp: ColdStartWithRetry_def NewSyncer_def seconds_def)
  with n show ?thesis by (intro exI [of _ k]) (auto split: option.splits)
qed

theorem cold_start_retries_boundedly_witness:
  "length (fst (snd (ColdStartWithRetry demo_dec (\<lambda>a. failing_cold) (\<lambda>a. False) (NewSyncer demo_config, init_app)))) < 5"
proof -
  obtain r slept st' where run: "ColdStartWithRetry demo_dec (\<lambda>a. failing_cold) (\<lambda>a. False) (NewSyncer demo_config, init_app) = (r, slept, st')"
    by (metis prod.collapse)
  from cold_start_retries_boundedly [OF this] have "int (length slept) < 5"
    by (auto simp: syncer_withDefaults_def demo_config_def Let_def)
  with run show ?thesis by simp
qed

end
