(* ===== verification/Engine_Orders.thy ===== *)
theory Engine_Orders
  imports Engine_Frontier
begin

text \<open>
  The answer of \<^verbatim>\<open>internal/raptor/engine.go\<close> does not depend on the order in which Go ranges over
  a map: not over the marked stations, the queued routes or the improved stations of a round, and
  not on how the maps of the two snapshots are laid out. Routes are scanned and walk sources
  relaxed in sorted order, and the boarding position of a route is a minimum.
\<close>

section \<open>The queue of a round\<close>

definition enqueue_map :: "route_buffer \<Rightarrow> route_stop \<Rightarrow> (int \<Rightarrow> int option) \<Rightarrow> int \<Rightarrow> int option" where
  "enqueue_map buf rs q =
     (if RouteIdx rs < 0 \<or> RouteIdx rs \<ge> int (length (Routes buf)) \<or> StopPos rs < 0 then q
      else q(RouteIdx rs \<mapsto> (case q (RouteIdx rs) of None \<Rightarrow> StopPos rs | Some pos \<Rightarrow> min pos (StopPos rs))))"

lemma map_of_enqueue_stop: "map_of (enqueue_stop buf rs q) = enqueue_map buf rs (map_of q)"
  by (auto simp: enqueue_stop_def enqueue_map_def gomap_simps min_def fun_eq_iff split: option.splits)

lemma gm_ok_enqueue_stop: "gm_ok q \<Longrightarrow> gm_ok (enqueue_stop buf rs q)"
  by (auto simp: enqueue_stop_def)

lemma enqueue_map_commute: "enqueue_map buf a \<circ> enqueue_map buf b = enqueue_map buf b \<circ> enqueue_map buf a"
  by (auto simp: enqueue_map_def fun_eq_iff min.commute min.assoc min.left_commute split: option.splits)

lemma fold_enqueue:
  "gm_ok q \<Longrightarrow> gm_ok (fold (enqueue_stop buf) rss q) \<and>
     map_of (fold (enqueue_stop buf) rss q) = fold (enqueue_map buf) rss (map_of q)"
  by (induction rss arbitrary: q) (auto simp: map_of_enqueue_stop gm_ok_enqueue_stop)

lemma fold_fold_concat: "fold (\<lambda>x. fold f (g x)) xs acc = fold f (concat (map g xs)) acc"
  by (induction xs arbitrary: acc) auto

lemma build_queue_map:
  "gm_ok (build_queue E k marked) \<and>
   map_of (build_queue E k marked) =
     fold (enqueue_map (routes E)) (concat (map (\<lambda>st. gm_get (StopToRoutes (routes E)) st []) (iter_marked (orders E) k marked))) Map.empty"
  unfolding build_queue_def fold_fold_concat using fold_enqueue [of "[]"] by simp

lemma keys_mset: "gm_ok q \<Longrightarrow> gm_ok q' \<Longrightarrow> map_of q = map_of q' \<Longrightarrow> mset (map fst q) = mset (map fst q')"
  unfolding gm_ok_def by (metis dom_map_of_conv_image_fst set_eq_iff_mset_eq_distinct set_map)

section \<open>Environments that read alike\<close>

definition reads_alike :: "search_env \<Rightarrow> search_env \<Rightarrow> bool" where
  "reads_alike E E' \<longleftrightarrow>
     params E = params E' \<and> rounds E = rounds E' \<and> xferSec E = xferSec E' \<and> dest E = dest E' \<and>
     allowed E = allowed E' \<and> map_of (signals E) = map_of (signals E') \<and>
     Routes (routes E) = Routes (routes E') \<and> StopTimes (routes E) = StopTimes (routes E') \<and>
     RouteFIFO (routes E) = RouteFIFO (routes E') \<and>
     (\<forall>st. gm_get (StopToRoutes (routes E)) st [] = gm_get (StopToRoutes (routes E')) st []) \<and>
     (\<forall>st. gm_get (Footpaths (routes E)) st [] = gm_get (Footpaths (routes E')) st [])"

lemma alike_simps:
  assumes "reads_alike E E'"
  shows "params E = params E'" "rounds E = rounds E'" "xferSec E = xferSec E'" "dest E = dest E'" "allowed E = allowed E'"
  "map_of (signals E) = map_of (signals E')" "Routes (routes E) = Routes (routes E')"
  "StopTimes (routes E) = StopTimes (routes E')" "RouteFIFO (routes E) = RouteFIFO (routes E')"
  "gm_get (StopToRoutes (routes E)) st [] = gm_get (StopToRoutes (routes E')) st []"
  "gm_get (Footpaths (routes E)) st [] = gm_get (Footpaths (routes E')) st []"
  using assms by (simp_all add: reads_alike_def)

lemma filters_alike:
  assumes "reads_alike E E'"
  shows "tripUsable E = tripUsable E'" "improves E = improves E'" "ready_at E = ready_at E'"
  using assms
  by (simp_all add: fun_eq_iff tripUsable_def canBoard_def improves_def ready_at_def alike_simps [OF assms]
      split: option.splits)

lemma forward_scan_alike:
  assumes "reads_alike E E'"
  shows "forward_scan E trips pos mb xs = forward_scan E' trips pos mb xs"
  by (induction xs) (simp_all add: filters_alike(1) [OF assms] Let_def)

lemma scans_alike:
  assumes "reads_alike E E'"
  shows "scanRoute E = scanRoute E'"
proof -
  note f = filters_alike [OF assms]
  have fs: "forward_scan E = forward_scan E'" by (intro ext) (rule forward_scan_alike [OF assms])
  have et: "earliestTrip E = earliestTrip E'" unfolding earliestTrip_def [abs_def] fs ..
  have al: "alight E = alight E'" unfolding alight_def [abs_def] f ..
  have st: "scan_stop E = scan_stop E'" unfolding scan_stop_def [abs_def] f et al ..
  have "scan_trip_stop E = scan_trip_stop E'" unfolding scan_trip_stop_def [abs_def] f al ..
  then have tr: "scanTrip E = scanTrip E'" unfolding scanTrip_def [abs_def] f by (rule ssubst) (rule refl)
  have fi: "IsFIFO (routes E) = IsFIFO (routes E')"
    unfolding IsFIFO_def [abs_def] alike_simps(9) [OF assms] ..
  show ?thesis unfolding scanRoute_def [abs_def] alike_simps(7,8) [OF assms] st tr fi ..
qed

lemma relaxFootpaths_alike:
  assumes "reads_alike E E'"
  shows "relaxFootpaths E = relaxFootpaths E'"
proof -
  have sn: "snapshot_source E = snapshot_source E'"
    unfolding snapshot_source_def [abs_def] alike_simps(11) [OF assms] ..
  have we: "walk_edge_step E = walk_edge_step E'"
    unfolding walk_edge_step_def [abs_def] filters_alike [OF assms] ..
  show ?thesis unfolding relaxFootpaths_def [abs_def] alike_simps(11) [OF assms] sn we ..
qed

lemma mset_concat_map: "mset xs = mset ys \<Longrightarrow> mset (concat (map f xs)) = mset (concat (map f ys))"
proof -
  assume "mset xs = mset ys"
  then have "mset (map (mset \<circ> f) xs) = mset (map (mset \<circ> f) ys)" by simp
  then have "sum_list (map (mset \<circ> f) xs) = sum_list (map (mset \<circ> f) ys)" by (metis sum_mset_sum_list)
  then show ?thesis by (simp add: mset_concat comp_def)
qed

lemma build_queue_alike:
  assumes "reads_alike E E'" "orders_ok (orders E)" "orders_ok (orders E')"
  shows "map_of (build_queue E k marked) = map_of (build_queue E' k marked)"
proof -
  let ?rs = "\<lambda>st. gm_get (StopToRoutes (routes E)) st []"
  have "mset (iter_marked (orders E) k marked) = mset (iter_marked (orders E') k marked)"
    using assms(2,3) by (simp add: orders_ok_def)
  then have "fold (enqueue_map (routes E)) (concat (map ?rs (iter_marked (orders E) k marked))) =
      fold (enqueue_map (routes E)) (concat (map ?rs (iter_marked (orders E') k marked)))"
    by (intro fold_multiset_equiv enqueue_map_commute mset_concat_map)
  moreover have "enqueue_map (routes E) = enqueue_map (routes E')"
    by (simp add: fun_eq_iff enqueue_map_def alike_simps [OF assms(1)])
  ultimately show ?thesis
    using build_queue_map [of E k marked] build_queue_map [of E' k marked] by (simp add: alike_simps [OF assms(1)])
qed

lemma sort_orders: "mset xs = mset ys \<Longrightarrow> sort xs = sort (ys :: 'a::linorder list)"
  by (metis mset_sort properties_for_sort sorted_sort)

lemma search_round_alike:
  assumes "reads_alike E E'" "orders_ok (orders E)" "orders_ok (orders E')"
  shows "search_round E k (s, marked) = search_round E' k (s, marked)"
proof -
  let ?q = "build_queue E k marked" and ?q' = "build_queue E' k marked"
  have q: "map_of ?q = map_of ?q'" by (rule build_queue_alike [OF assms])
  then have "mset (map fst ?q) = mset (map fst ?q')"
    by (intro keys_mset) (use build_queue_map in blast)+
  then have "sort (iter_queue (orders E) k (map fst ?q)) = sort (iter_queue (orders E') k (map fst ?q'))"
    using assms(2,3) by (intro sort_orders) (simp add: orders_ok_def)
  moreover have "gm_get ?q = gm_get ?q'" by (simp add: fun_eq_iff gm_get_def q)
  moreover have "sort (iter_improved (orders E) k imp) = sort (iter_improved (orders E') k imp)" for imp
    using assms(2,3) by (intro sort_orders) (simp add: orders_ok_def)
  ultimately show ?thesis
    by (simp add: search_round_def Let_def scans_alike [OF assms(1)] relaxFootpaths_alike [OF assms(1)])
qed

lemma search_rounds_alike:
  assumes "reads_alike E E'" "orders_ok (orders E)" "orders_ok (orders E')"
  shows "search_rounds cancelled E n k w = search_rounds cancelled E' n k w"
proof (induction n arbitrary: k w)
  case (Suc n)
  have "search_round E k w = search_round E' k w"
    using search_round_alike [OF assms] by (cases w) simp
  with Suc show ?case by (simp add: Let_def)
qed simp

lemma build_legs_alike:
  "reads_alike E E' \<Longrightarrow> build_legs E s V legs cur r pk pd = build_legs E' s V legs cur r pk pd"
proof (induction E s V legs cur r pk pd rule: build_legs.induct)
  case (1 E s V legs cur r pk pd)
  note eq = alike_simps(1,2) [OF "1.prems"]
  show ?case
    using "1.IH" [OF _ _ _ _ refl _ "1.prems"]
    by (subst (1 2) build_legs.simps) (simp add: eq Let_def split: option.splits)
qed

lemma extract_paths_alike:
  assumes "reads_alike E E'"
  shows "extract_paths E s topK = extract_paths E' s topK"
proof -
  note eq = alike_simps(1-4) [OF assms]
  have mp: "make_path E = make_path E'" unfolding make_path_def [abs_def] eq ..
  have bl: "build_legs E = build_legs E'" by (simp add: fun_eq_iff build_legs_alike [OF assms])
  have bp: "buildPath E = buildPath E'" unfolding buildPath_def [abs_def] eq mp bl ..
  have ex: "extract_step E = extract_step E'" unfolding extract_step_def [abs_def] eq bp ..
  show ?thesis unfolding extract_paths_def candidates_def eq ex ..
qed

lemma search_alike:
  assumes "reads_alike (search_env_of p buf sig ords) (search_env_of p buf' sig' ords')" "orders_ok ords" "orders_ok ords'"
  shows "RaptorSearch cancelled ords (Some buf) sig p topK = RaptorSearch cancelled ords' (Some buf') sig' p topK"
proof -
  let ?E = "search_env_of p buf sig ords" and ?E' = "search_env_of p buf' sig' ords'"
  have "search_labels cancelled ?E = search_labels cancelled ?E'"
    using search_rounds_alike [OF assms(1)] relaxFootpaths_alike [OF assms(1)] assms
    by (simp add: search_labels_def reads_alike_def)
  moreover have "Routes buf = Routes buf'" using assms(1) by (simp add: reads_alike_def)
  ultimately show ?thesis
    using extract_paths_alike [OF assms(1)] by (simp add: RaptorSearch_def Let_def cong: option.case_cong)
qed

section \<open>Properties\<close>

text \<open>C19: searches over the same routes, trips, seat signals and footpaths give the same answer
  whatever the layout of the maps that hold them and whatever order Go ranges over them in.\<close>

theorem search_independent_of_map_order:
  assumes "orders_ok ords" "orders_ok ords'"
    and "gm_ok (StopToRoutes buf)" "gm_ok (Footpaths buf)" "gm_ok sig"
    and "mset (StopToRoutes buf) = mset stops" "mset (Footpaths buf) = mset paths" "mset sig = mset sig'"
  shows "RaptorSearch cancelled ords (Some buf) sig p topK =
    RaptorSearch cancelled ords' (Some (buf\<lparr>StopToRoutes := stops, Footpaths := paths, TripIndex := idx\<rparr>)) sig' p topK"
proof -
  let ?buf' = "buf\<lparr>StopToRoutes := stops, Footpaths := paths, TripIndex := idx\<rparr>"
  let ?E = "search_env_of p buf sig ords" and ?E' = "search_env_of p ?buf' sig' ords'"
  have "map_of (StopToRoutes buf) = map_of stops" "map_of (Footpaths buf) = map_of paths" "map_of sig = map_of sig'"
    using assms(3-8) by (blast intro: map_of_mset_eq)+
  then have "reads_alike ?E ?E'" by (simp add: reads_alike_def gm_get_def)
  from search_alike [OF this assms(1,2)] show ?thesis .
qed

theorem search_independent_of_map_order_witness:
  "RaptorSearch (\<lambda>k. False) \<lparr>iter_marked = \<lambda>k. id, iter_queue = \<lambda>k. rev, iter_improved = \<lambda>k. rev\<rparr>
     (Some (sample_buffer\<lparr>StopToRoutes := rev (StopToRoutes sample_buffer), Footpaths := rev (Footpaths sample_buffer), TripIndex := []\<rparr>))
     [] sample_params 5 = [sample_path]"
proof -
  have "orders_ok \<lparr>iter_marked = \<lambda>k. id, iter_queue = \<lambda>k. rev, iter_improved = \<lambda>k. rev\<rparr>"
    "gm_ok (StopToRoutes sample_buffer)" "gm_ok (Footpaths sample_buffer)"
    by (simp_all add: orders_ok_def gm_ok_def sample_buffer_def)
  then show ?thesis
    using search_independent_of_map_order [OF sample_ok(2), of _ sample_buffer "[]"
      "rev (StopToRoutes sample_buffer)" "rev (Footpaths sample_buffer)" "[]" "\<lambda>k. False" sample_params 5 "[]"]
      sample_search by simp
qed

end
