(* ===== verification/Whole_System.thy ===== *)
theory Whole_System
  imports Http_Api Seat_Gate Syncer_Properties Engine_Orders Engine_Complete
begin

text \<open>
  Properties that span components: what a search response means over the schedules the loader
  publishes, the validator the server builds and the configuration that was accepted; and how a
  change a provider reports travels through the gate, the stream and the refresh loop into the
  signals a search reads.
\<close>

section \<open>The sample network as it is loaded\<close>

definition sample_rows :: "schedule_row query" where
  "sample_rows =
     (let row = (\<lambda>rid trip sq sid t. Some \<lparr>row_RouteID = rid, row_TripID = trip, row_Date = ''2026-08-27'', row_StopSeq = sq,
        row_StationID = sid, row_Arrival = t, row_Departure = t\<rparr>)
      in Rows [row ''R1'' ''T1'' 1 ''A'' 100, row ''R1'' ''T1'' 2 ''B'' 200,
               row ''R2'' ''T2'' 1 ''D'' 310, row ''R2'' ''T2'' 2 ''E'' 400] True)"

definition sample_footpath_rows :: "footpath_row query" where
  "sample_footpath_rows = Rows [Some \<lparr>fr_StationID = ''B'', fr_NeighbourID = ''D'', fr_WalkSeconds = 60\<rparr>] True"

definition sample_state :: schedule_state where
  "sample_state = reload_step id DefaultLoadOptions sample_rows sample_footpath_rows init_schedule"

lemma sample_state_reachable: "schedule_reachable id sample_state"
  unfolding sample_state_def by (intro schedule_reachable.intros)

lemma sample_closure: "closeFootpaths [(''B'', [Footpath ''D'' 60])] DefaultLoadOptions = [(''B'', [Footpath ''D'' 60])]"
  by code_simp


lemma sample_live: "live sample_state = sample_buffer"
  by (simp add: sample_state_def sample_rows_def sample_footpath_rows_def reload_step_def ReloadRouteArrays_def publish_staging_def init_schedule_def
      manifestChanged_def open_trip_def add_stop_def gm_get_def add_new_def build_routes_def add_route_def newRouteBuffer_def
      valid_trips_def stop_times_of_def trip_order_def index_trips_def index_stops_def computeFIFO_def Let_def
      manifestHash_not_Nil loadFootpaths_def sample_closure sample_buffer_def sample_trip1_def sample_trip2_def)

section \<open>From request to response\<close>

lemma response_sound:
  assumes "schedule_reachable sha256 st" "rq_live rq = live st" "orders_ok (rq_orders rq)"
    and "cfg v = validator_config_of cf" "config_problems cf = []"
    and "handleSearch cf q rq v = (SearchOK b, v')"
  shows "\<exists>p. parseSearch cf q = Inr p \<and>
    list_all (\<lambda>j. path_well_formed j p \<and> list_all (leg_real (search_env_of p (live st) (rq_signals rq) (rq_orders rq))) (Legs j)) (paths b) \<and>
    sorted_wrt trades_off (paths b) \<and> int (length (paths b)) \<le> SearchResults cf \<and> cfg v' = cfg v \<and>
    (StrictSeatMode cf \<longrightarrow>
       list_all (path_confirmed (rq_mget rq) (rq_unmarshal rq)
         (asked_of (rq_iter rq) v (RaptorSearch (rq_cancelled rq) (rq_orders rq) (Some (live st)) (rq_signals rq) p (SearchCandidates cf)))
         (SeatClass p) (Passengers p)) (paths b))"
proof -
  from handleSearch_OK [OF assms(6)] obtain p where p: "parseSearch cf q = Inr p"
    and val: "Validate (rq_mget rq) (rq_unmarshal rq) (rq_iter rq) (rq_now rq) (rq_later rq)
       (RaptorSearch (rq_cancelled rq) (rq_orders rq) (Some (live st)) (rq_signals rq) p (SearchCandidates cf))
       (SeatClass p) (Passengers p) v = (paths b, v')"
    using assms(2) by metis
  let ?cs = "RaptorSearch (rq_cancelled rq) (rq_orders rq) (Some (live st)) (rq_signals rq) p (SearchCandidates cf)"
  have results: "MaxResults (cfg v) = SearchResults cf" "1 \<le> SearchResults cf" "Strict (cfg v) = StrictSeatMode cf"
    using assms(4,5) by (simp_all add: validator_config_of_def config_problems_Nil)
  from Validate_filters [of "rq_mget rq" "rq_unmarshal rq" "rq_iter rq" "rq_now rq" "rq_later rq" ?cs "SeatClass p" "Passengers p" v]
  obtain P where paths: "paths b = take (nat (SearchResults cf)) (filter P ?cs)"
    using val results by auto
  have sub: "set (paths b) \<subseteq> set ?cs" using paths by (auto dest: in_set_takeD)
  have "journey_sound (search_env_of p (live st) (rq_signals rq) (rq_orders rq)) j" if "j \<in> set (paths b)" for j
    using journeys_sound [OF published_flags_ok [OF assms(1)] assms(3)] sub that by blast
  then have "list_all (\<lambda>j. path_well_formed j p \<and> list_all (leg_real (search_env_of p (live st) (rq_signals rq) (rq_orders rq))) (Legs j)) (paths b)"
    by (auto simp: list_all_iff journey_sound_def search_env_of_def)
  moreover have "sorted_wrt trades_off (paths b)"
    unfolding paths by (rule sorted_wrt_filter_take [OF answer_sorted [THEN conjunct1]])
  moreover have "int (length (paths b)) \<le> SearchResults cf" using results(2) by (simp add: paths)
  moreover have "list_all (path_confirmed (rq_mget rq) (rq_unmarshal rq) (asked_of (rq_iter rq) v ?cs) (SeatClass p) (Passengers p)) (paths b)"
    if "StrictSeatMode cf"
    using strict_confirmed [of v "rq_mget rq" "rq_unmarshal rq" "rq_iter rq" ?cs "SeatClass p" "Passengers p" "rq_now rq" "rq_later rq"] that results(3) val by simp
  moreover have "cfg v' = cfg v"
    using Validate_cfg [of "rq_mget rq" "rq_unmarshal rq" "rq_iter rq" "rq_now rq" "rq_later rq" ?cs "SeatClass p" "Passengers p" v] val by simp
  ultimately show ?thesis using p by blast
qed

text \<open>C1: end to end: over any schedule the loader has published, every journey of a search response
  is a real one for the parsed request - it joins up from the origin to the destination, not before the
  requested time, over rides and walks of the schedule - they come best arrival first, at most as
  many as configured, and in strict mode Redis has confirmed the seats of each.\<close>

theorem search_response_sound:
  assumes "schedule_reachable sha256 st" "rq_live rq = live st" "orders_ok (rq_orders rq)"
    and "cfg v = validator_config_of cf" "config_problems cf = []"
    and "handleSearch cf q rq v = (SearchOK b, v')"
  shows "\<exists>p. parseSearch cf q = Inr p \<and>
    list_all (\<lambda>j. path_well_formed j p \<and> list_all (leg_real (search_env_of p (live st) (rq_signals rq) (rq_orders rq))) (Legs j)) (paths b) \<and>
    sorted_wrt trades_off (paths b) \<and> int (length (paths b)) \<le> SearchResults cf \<and> cfg v' = cfg v \<and>
    (StrictSeatMode cf \<longrightarrow>
       list_all (path_confirmed (rq_mget rq) (rq_unmarshal rq)
         (asked_of (rq_iter rq) v (RaptorSearch (rq_cancelled rq) (rq_orders rq) (Some (live st)) (rq_signals rq) p (SearchCandidates cf)))
         (SeatClass p) (Passengers p)) (paths b))"
  by (rule response_sound [OF assms])

definition sample_request :: request_env where
  "sample_request = \<lparr>rq_checked = sample_buffer, rq_live = sample_buffer, rq_signals = [], rq_cancelled = (\<lambda>k. False),
     rq_orders = sample_orders, rq_mget = (\<lambda>j ks. Some (map (\<lambda>k. RedisText ''{SL:7}'') ks)),
     rq_unmarshal = (\<lambda>s. Some [(''SL'', 7)]), rq_iter = id, rq_now = 0, rq_later = 0, rq_end = 0\<rparr>"

lemma sample_validate:
  "fst (Validate (rq_mget sample_request) (rq_unmarshal sample_request) id 0 0 [sample_path] ''SL'' 1 (snd (NewServer sample_config True))) = [sample_path]"
  by (simp add: Validate_def NewServer_def NewValidator_def validator_config_of_def sample_config_fields sample_request_def
      sample_path_def seat_keys_def needs_seat_def WalkRouteID_def add_new_def Allow_def New_def chunks.simps
      read_chunk_def read_value_def leg_key_def SeatMapKey_def gm_get_def Let_def)

lemma sample_response:
  "\<exists>b v'. handleSearch sample_config sample_query sample_request (snd (NewServer sample_config True)) = (SearchOK b, v') \<and> paths b = [sample_path]"
proof -
  have "stationKnown sample_buffer ''A''" "stationKnown sample_buffer ''E''"
    by (simp_all add: stationKnown_def sample_buffer_def)
  moreover have "Origin sample_params = ''A''" "Destination sample_params = ''E''" "SeatClass sample_params = ''SL''" "Passengers sample_params = 1"
    by (simp_all add: sample_params_def)
  moreover have "rq_checked sample_request = sample_buffer" "rq_live sample_request = sample_buffer" "rq_signals sample_request = []"
    "rq_cancelled sample_request = (\<lambda>k. False)" "rq_orders sample_request = sample_orders" "rq_iter sample_request = id"
    "rq_now sample_request = 0" "rq_later sample_request = 0"
    by (simp_all add: sample_request_def)
  ultimately show ?thesis
    using sample_validate
    by (auto simp: handleSearch_def sample_parse sample_config_fields sample_search Let_def split: prod.splits)
qed

theorem search_response_sound_witness:
  "\<exists>b v'. handleSearch sample_config sample_query sample_request (snd (NewServer sample_config True)) = (SearchOK b, v') \<and>
     paths b = [sample_path] \<and> sorted_wrt trades_off (paths b) \<and> path_well_formed sample_path sample_params"
proof -
  from sample_response obtain b v' where
    r: "handleSearch sample_config sample_query sample_request (snd (NewServer sample_config True)) = (SearchOK b, v')" "paths b = [sample_path]"
    by blast
  have "rq_live sample_request = live sample_state" "orders_ok (rq_orders sample_request)"
    by (simp_all add: sample_request_def sample_live sample_ok)
  from search_response_sound [OF sample_state_reachable this validator_of_config sample_config_fields(9) r(1)]
  have "path_well_formed sample_path sample_params" by (auto simp: sample_config_fields sample_parse r(2))
  with r show ?thesis by auto
qed

section \<open>From the provider to the signals\<close>

text \<open>A change travels through the whole pipeline: when the gate announces new seats of a trip, the
  entry it appends is read back as that trip, and an iteration of the refresh loop over a batch
  that holds the entry publishes exactly these seats for it.\<close>

theorem announced_seats_reach_the_signals:
  assumes "redis_laws R" "luaGate R sha256 marshal ts ScriptRan t d seats r = (Some 1, r')" "t \<noteq> []" "ValidDate d"
    and "unmarshal dec (marshal seats) = Some seats" "marshal seats \<noteq> []"
    and "good_batch (redis_lookup R r') s e msgs" "msg \<in> set msgs"
    and "msg_trip msg = map_of (snd (last (entries R DirtyStreamKey r'))) ''trip''"
    and "0 < sc_MGetChunk (sy_cfg s)" "gm_ok (liveSignal app)"
  shows "\<exists>s' app' b'. refresh_step dec e ((s, app), b) = Running ((s', app'), b') \<and> cursor s' = msg_ID (last msgs) \<and>
    map_option (\<lambda>sig. (ByClass sig, SnapshotTs sig)) (map_of (liveSignal app') (TripKey t d)) = Some (seats, parseFloat dec ts)"
proof -
  from gate_state [OF assms(1,2)] have g: "GET R (SeatMapKey t d) r' = Some (marshal seats)" "GET R (SeatTSKey t d) r' = Some ts"
    "\<exists>es eid. entries R DirtyStreamKey r' = es @ [(eid, [(''trip'', SeatTripDate t d), (''changed_at'', ts)])]"
    by auto
  then have "msg_trip msg = Some (SeatTripDate t d)" using assms(9) by auto
  moreover have "ParseSeatTripDate (SeatTripDate t d) = Some (TripKey t d)"
    using ParseSeatTripDate_append [OF ValidDate_no_colon [OF assms(4)], of t] assms(3,4) by (simp add: SeatTripDate_def)
  ultimately have dirty: "TripKey t d \<in> dirty_trips msgs" using assms(8) by (auto simp: dirty_trips_def)
  have seats: "redis_seats dec (redis_lookup R r') (TripKey t d) = Some (seats, parseFloat dec ts)"
    using g(1,2) assms(5,6) by (simp add: redis_seats_def redis_lookup_def)
  from good_batch_step [OF assms(7,10,11)] dirty obtain app' b' where
    "refresh_step dec e ((s, app), b) = Running ((setCursor (msg_ID (last msgs)) s, app'), b')"
    "agrees dec (redis_lookup R r') (liveSignal app') (TripKey t d)" by blast
  with seats show ?thesis
    by (intro exI [of _ "setCursor (msg_ID (last msgs)) s"] exI [of _ app'] exI [of _ b']) (auto simp: agrees_def setCursor_def)
qed

definition sample_dec :: decoders where
  "sample_dec = \<lparr>unmarshal = (\<lambda>s. Some [(''SL'', 3)]), parseFloat = (\<lambda>s. 7)\<rparr>"

theorem announced_seats_reach_the_signals_witness:
  "\<exists>r' s' app' b'. luaGate mem_redis id (\<lambda>m. ''{SL:3}'') ''7.0'' ScriptRan ''T1'' ''2026-08-27'' [(''SL'', 3)] empty_mem = (Some 1, r') \<and>
     refresh_step sample_dec ((demo_env [\<lparr>msg_ID = ''5-0'', msg_trip = Some ''T1:2026-08-27''\<rparr>])
       \<lparr>re_pipe := (\<lambda>j mk tk. Some (map (redis_lookup mem_redis r') mk, map (redis_lookup mem_redis r') tk))\<rparr>)
       ((NewSyncer demo_config, init_app), 1) = Running ((s', app'), b') \<and>
     map_option ByClass (map_of (liveSignal app') (TripKey ''T1'' ''2026-08-27'')) = Some [(''SL'', 3)]"
proof -
  let ?msg = "\<lparr>msg_ID = ''5-0'', msg_trip = Some ''T1:2026-08-27''\<rparr>"
  have "fst (luaGate mem_redis id (\<lambda>m. ''{SL:3}'') ''7.0'' ScriptRan ''T1'' ''2026-08-27'' [(''SL'', 3)] empty_mem) = Some 1"
    by (simp add: luaGate_def seat_gate_def mem_redis_def empty_mem_def Let_def)
  then obtain r' where gate: "luaGate mem_redis id (\<lambda>m. ''{SL:3}'') ''7.0'' ScriptRan ''T1'' ''2026-08-27'' [(''SL'', 3)] empty_mem = (Some 1, r')"
    by (metis prod.collapse)
  let ?e = "(demo_env [?msg])\<lparr>re_pipe := (\<lambda>j mk tk. Some (map (redis_lookup mem_redis r') mk, map (redis_lookup mem_redis r') tk))\<rparr>"
  have "ValidDate ''2026-08-27''" by code_simp
  moreover have "good_batch (redis_lookup mem_redis r') (NewSyncer demo_config) ?e [?msg]"
    by (simp add: good_batch_def demo_env_def faithful_def no_departures lagged_def NewSyncer_def)
  moreover have "msg_trip ?msg = map_of (snd (last (entries mem_redis DirtyStreamKey r'))) ''trip''"
    using gate_state [OF mem_redis_laws gate] by (auto simp: SeatTripDate_def)
  moreover have "unmarshal sample_dec ''{SL:3}'' = Some [(''SL'', 3)]" by (simp add: sample_dec_def)
  moreover have "0 < sc_MGetChunk (sy_cfg (NewSyncer demo_config))" "gm_ok (liveSignal init_app)"
    by (simp_all add: demo_chunk init_app_def)
  ultimately obtain s' app' b' where run: "refresh_step sample_dec ?e ((NewSyncer demo_config, init_app), 1) = Running ((s', app'), b')"
    "map_option (\<lambda>sig. (ByClass sig, SnapshotTs sig)) (map_of (liveSignal app') (TripKey ''T1'' ''2026-08-27'')) = Some ([(''SL'', 3)], parseFloat sample_dec ''7.0'')"
    using announced_seats_reach_the_signals [OF mem_redis_laws gate, where dec = sample_dec and e = ?e and msgs = "[?msg]" and msg = ?msg
        and s = "NewSyncer demo_config" and app = init_app and b = 1] by auto
  from run(2) have "map_option ByClass (map_of (liveSignal app') (TripKey ''T1'' ''2026-08-27'')) = Some [(''SL'', 3)]" by auto
  with gate run(1) show ?thesis by blast
qed

end
