(* ===== verification/Whole_Search.thy ===== *)
theory Whole_Search
  imports Whole_System Engine_Answer
begin

text \<open>
  Optimality from the request to the response. What \<open>search_finds_best\<close> asks of the snapshot is
  reduced to what is left open by the loader: the walks compose when the closure was not cut, and a published
  buffer is well formed. A response that lost no candidate to the seats begins with the earliest arrival.
\<close>

section \<open>Walks that were not cut\<close>

text \<open>No two walks together exceed the bound, and no station has as many as the cap.\<close>

definition walks_uncut :: "load_options \<Rightarrow> walk_graph \<Rightarrow> bool" where
  "walks_uncut opts ws \<longleftrightarrow>
     (\<forall>st. int (length (gm_get ws st [])) < MaxFootpathsPerStation (withDefaults opts)) \<and>
     (\<forall>st. \<forall>fp \<in> set (gm_get ws st []). \<forall>fp' \<in> set (gm_get ws (NeighbourStop fp) []).
        WalkSeconds fp + WalkSeconds fp' \<le> MaxWalkSeconds (withDefaults opts))"

lemma uncut_walks_compose:
  assumes "graph_ok direct" "MaxWalkSeconds (withDefaults opts) < 2 ^ 62" "Footpaths buf = closeFootpaths direct opts"
    and "walks_uncut opts (Footpaths buf)"
  shows "walks_compose buf"
  unfolding walks_compose_def
proof (intro allI ballI)
  fix st fp fp'
  assume fp: "fp \<in> set (gm_get (Footpaths buf) st [])" "fp' \<in> set (gm_get (Footpaths buf) (NeighbourStop fp) [])"
  show "NeighbourStop fp' = st \<or> (\<exists>d \<in> set (gm_get (Footpaths buf) st []). NeighbourStop d = NeighbourStop fp' \<and>
      WalkSeconds d \<le> WalkSeconds fp + WalkSeconds fp')"
  proof (cases "NeighbourStop fp' = st")
    case False
    have "\<exists>d''. Footpath (NeighbourStop fp') d'' \<in> set (gm_get (closeFootpaths direct opts) st []) \<and>
        d'' \<le> WalkSeconds fp + WalkSeconds fp'"
      by (rule closeFootpaths_transitive [OF assms(1,2), of "NeighbourStop fp"])
        (use fp False assms(3,4) in \<open>auto simp: walks_uncut_def\<close>)
    then obtain d'' where "Footpath (NeighbourStop fp') d'' \<in> set (gm_get (Footpaths buf) st [])"
      "d'' \<le> WalkSeconds fp + WalkSeconds fp'" using assms(3) by auto
    then show ?thesis by (intro disjI2 bexI [of _ "Footpath (NeighbourStop fp') d''"]) auto
  qed simp
qed

section \<open>From request to response\<close>

text \<open>No two vehicles of a route measured as not overtaking leave a stop together.\<close>

definition departures_apart :: "route_buffer \<Rightarrow> bool" where
  "departures_apart buf \<longleftrightarrow>
     (\<forall>ri < length (Routes buf). IsFIFO buf (int ri) \<longrightarrow> leave_apart (StopTimes buf ! ri))"

lemma request_network_ok:
  assumes "schedule_reachable sha256 st" "orders_ok ords" "parseSearch cf q = Inr p"
    and "buffer_timed (live st)" "walks_compose (live st)" "departures_apart (live st)"
  shows "network_ok (search_env_of p (live st) sig ords)"
proof -
  have "0 \<le> TransferBuffer p" "TransferBuffer p \<le> 21600"
    using parseSearch_Inr(5) [OF assms(3)] by (auto simp: TransferBuffer_def DefaultMinTransferSeconds_def)
  then show ?thesis
    using schedule_reachable_wf [OF assms(1)] assms(2,4-6) parseSearch_Inr(2) [OF assms(3)]
    by (simp add: network_ok_def search_timed_def params_timed_def departures_apart_def maxDepartureUnix_def)
qed

lemma take_filter_all: "length (take n (filter P xs)) = length xs \<Longrightarrow> take n (filter P xs) = xs"
proof -
  assume "length (take n (filter P xs)) = length xs"
  with length_filter_le [of P xs] have "length (filter P xs) = length xs" "length xs \<le> n"
    by (simp_all add: min_def split: if_splits)
  moreover from this have "filter P xs = xs" by (metis filter_True length_filter_less less_irrefl)
  ultimately show ?thesis by simp
qed

text \<open>A response that rejected no candidate is the answer of the search.\<close>

lemma response_is_answer:
  assumes "handleSearch cf q rq v = (SearchOK b, v')" "parseSearch cf q = Inr p" "rejected_by_seats b = 0"
  shows "paths b = RaptorSearch (rq_cancelled rq) (rq_orders rq) (Some (rq_live rq)) (rq_signals rq) p (SearchCandidates cf)"
proof -
  let ?cs = "RaptorSearch (rq_cancelled rq) (rq_orders rq) (Some (rq_live rq)) (rq_signals rq) p (SearchCandidates cf)"
  from handleSearch_OK [OF assms(1)] assms(2)
  have val: "Validate (rq_mget rq) (rq_unmarshal rq) (rq_iter rq) (rq_now rq) (rq_later rq) ?cs (SeatClass p) (Passengers p) v = (paths b, v')"
    and count: "int (length (paths b)) = int (length ?cs)"
    using assms(3) by (metis Inr_inject, metis Inr_inject eq_iff_diff_eq_0)
  from Validate_filters [of "rq_mget rq" "rq_unmarshal rq" "rq_iter rq" "rq_now rq" "rq_later rq" ?cs "SeatClass p" "Passengers p" v]
  obtain P where "paths b = (if MaxResults (cfg v) > 0 then take (nat (MaxResults (cfg v))) (filter P ?cs) else filter P ?cs)"
    using val by auto
  then obtain n where "paths b = take n (filter P ?cs)" by (metis take_all order_refl)
  with count show ?thesis using take_filter_all [of n P ?cs] by simp
qed

lemma response_best:
  assumes "schedule_reachable sha256 st" "rq_live rq = live st" "orders_ok (rq_orders rq)" "rq_cancelled rq = (\<lambda>k. False)"
    and "handleSearch cf q rq v = (SearchOK b, v')" "rejected_by_seats b = 0" "parseSearch cf q = Inr p"
    and "buffer_timed (live st)" "walks_compose (live st)" "departures_apart (live st)" "plain_names (live st)" "Routes (live st) \<noteq> []"
    and "unhurried_to (search_env_of p (live st) (rq_signals rq) (rq_orders rq)) k (Destination p) t walked" "int k \<le> Rounds p"
  shows "paths b \<noteq> [] \<and> path_ArrivalUnix (hd (paths b)) \<le> t"
proof -
  from parseSearch_Inr(1) [OF assms(7)] have "Origin p \<noteq> []" "Destination p \<noteq> []" "Origin p \<noteq> Destination p" by auto
  from answer_in_time [OF request_network_ok [OF assms(1,3,7-10)] assms(11,12) this assms(13,14)]
  show ?thesis unfolding response_is_answer [OF assms(5,7,6)] assms(2,4) by (simp add: Let_def)
qed

text \<open>C6: end to end, over a published schedule with any transfer time: where walks compose, no two vehicles of a FIFO route leave a
  stop together, no trip arrives before it left an earlier stop, IDs are not empty and hold no separator of the fingerprint and times
  lie far from the ends of \<open>int64\<close>, a response of an uncancelled request that counts no candidate as rejected, so that none was
  cut off either, is not empty, and its first journey arrives no later than any unhurried journey of the reference within the rounds
  requested, that is, any that allows the transfer time before every vehicle but the first; nothing that was asked of Redis or of the
  breaker can make it slower.\<close>

theorem response_in_time:
  assumes "schedule_reachable sha256 st" "rq_live rq = live st" "orders_ok (rq_orders rq)" "rq_cancelled rq = (\<lambda>k. False)"
    and "handleSearch cf q rq v = (SearchOK b, v')" "rejected_by_seats b = 0" "parseSearch cf q = Inr p"
    and "buffer_timed (live st)" "walks_compose (live st)" "departures_apart (live st)" "plain_names (live st)" "Routes (live st) \<noteq> []"
    and "unhurried_to (search_env_of p (live st) (rq_signals rq) (rq_orders rq)) k (Destination p) t walked" "int k \<le> Rounds p"
  shows "paths b \<noteq> [] \<and> path_ArrivalUnix (hd (paths b)) \<le> t"
  by (rule response_best [OF assms])

text \<open>Without transfer time, these are all journeys of the reference.\<close>

theorem response_arrives_first:
  assumes "schedule_reachable sha256 st" "rq_live rq = live st" "orders_ok (rq_orders rq)" "rq_cancelled rq = (\<lambda>k. False)"
    and "handleSearch cf q rq v = (SearchOK b, v')" "rejected_by_seats b = 0" "parseSearch cf q = Inr p" "TransferBuffer p = 0"
    and "buffer_timed (live st)" "walks_compose (live st)" "departures_apart (live st)" "plain_names (live st)" "Routes (live st) \<noteq> []"
    and "journey_to (search_env_of p (live st) (rq_signals rq) (rq_orders rq)) k (Destination p) t walked" "int k \<le> Rounds p"
  shows "paths b \<noteq> [] \<and> path_ArrivalUnix (hd (paths b)) \<le> t"
  using response_best [OF assms(1-7,9-13) journey_is_unhurried [OF assms(14)] assms(15)] assms(8) by simp

theorem response_arrives_first_witness:
  "\<exists>b v'. handleSearch sample_config sample_query sample_request (snd (NewServer sample_config True)) = (SearchOK b, v') \<and>
     path_ArrivalUnix (hd (paths b)) \<le> 400"
proof -
  from sample_response obtain b v' where
    r: "handleSearch sample_config sample_query sample_request (snd (NewServer sample_config True)) = (SearchOK b, v')" "paths b = [sample_path]"
    by blast
  have rq: "rq_live sample_request = live sample_state" "orders_ok (rq_orders sample_request)" "rq_cancelled sample_request = (\<lambda>k. False)"
    by (simp_all add: sample_request_def sample_live sample_ok)
  have "rejected_by_seats b = 0"
    using handleSearch_OK [OF r(1)] r(2) by (auto simp: sample_parse sample_request_def sample_search sample_config_fields)
  moreover have "TransferBuffer sample_params = 0" "Destination sample_params = ''E''" "Rounds sample_params = 2"
    by (simp_all add: sample_params_def TransferBuffer_def DefaultMinTransferSeconds_def Rounds_def MaxAllowedRounds_def)
  moreover have "buffer_timed (live sample_state)" "walks_compose (live sample_state)" "departures_apart (live sample_state)"
    "plain_names (live sample_state)" "Routes (live sample_state) \<noteq> []"
    using sample_timed(1) sample_searchable by (simp_all add: sample_live departures_apart_def searchable_def network_ok_def sample_env_eq, simp add: sample_buffer_def)
  moreover have "journey_to (search_env_of sample_params (live sample_state) (rq_signals sample_request) (rq_orders sample_request)) 2 ''E'' 400 False"
    using sample_journey by (simp add: sample_live sample_env_def sample_request_def)
  ultimately have "path_ArrivalUnix (hd (paths b)) \<le> 400"
    using response_arrives_first [OF sample_state_reachable rq r(1) _ sample_parse, of 2 400 False]
    by (simp add: sample_config_fields)
  with r(1) show ?thesis by blast
qed

section \<open>The sample network with a transfer time\<close>

text \<open>The labels are those without it, since the passenger walks to the second vehicle.\<close>

abbreviation slow_sample :: search_env where
  "slow_sample \<equiv> search_env_of slow_params sample_buffer [] sample_orders"

lemma slow_sample_eq:
  "slow_sample = \<lparr>params = slow_params, rounds = 2, xferSec = 40, dest = ''E'', routes = sample_buffer, signals = [],
     allowed = [''2026-08-26'', ''2026-08-27'', ''2026-08-28''], orders = sample_orders\<rparr>"
  by (simp add: slow_env sample_env_eq)

lemma slow_round0: "relaxFootpaths slow_sample 0 [''A''] (init_state slow_params, [''A'']) = (state0, [''A''])"
  unfolding slow_sample_eq
  by (simp add: slow_params_def sample_defs relaxFootpaths_def snapshot_source_def gm_get_def init_state_def state0_def cong: if_cong)

lemma slow_round1: "search_round slow_sample 1 (state0, [''A'']) = (state1, [''B'', ''D''])"
  unfolding slow_sample_eq by (simp add: slow_params_def run_defs)

lemma slow_round2: "search_round slow_sample 2 (state1, [''B'', ''D'']) = (state2, [''E''])"
  unfolding slow_sample_eq by (simp add: slow_params_def run_defs state2_def ride2_def)

lemma slow_labels: "search_labels (\<lambda>k. False) slow_sample = Some state2"
proof -
  have "rounds slow_sample = Suc (Suc 0)" "params slow_sample = slow_params" "Origin slow_params = ''A''"
    by (simp_all add: slow_sample_eq, simp add: slow_params_def sample_params_def)
  moreover note slow_round0 slow_round1 [unfolded One_nat_def] slow_round2 [unfolded numeral_2_eq_2]
  ultimately show ?thesis unfolding search_labels_def Let_def by (simp only: search_rounds.simps Let_def) simp
qed

lemma slow_build: "buildPath slow_sample state2 2 = Some sample_path"
proof -
  have j: "journal state2 2 ''E'' = Some ride2" "journal state2 1 ''D'' = Some walk1" "journal state2 1 ''B'' = Some ride1"
    by (simp_all add: state2_def state1_def)
  have entries: "je_from ride2 = ''D''" "je_fromRound ride2 = 1" "je_kind ride2 = LegTransit"
    "je_from walk1 = ''B''" "je_fromRound walk1 = 1" "je_kind walk1 = LegWalk"
    "je_from ride1 = ''A''" "je_fromRound ride1 = 0" "je_kind ride1 = LegTransit"
    by (simp_all add: ride1_def ride2_def walk1_def)
  have "build_legs slow_sample state2 [] [] ''E'' 2 None 0 =
      Some [entry_leg ride2 ''E'', entry_leg walk1 ''D'', entry_leg ride1 ''B'']"
    unfolding slow_sample_eq
    by (simp add: build_legs.simps slow_params_def sample_params_def j [unfolded One_nat_def] Let_def chain_entry_def entries)
  then show ?thesis
    unfolding slow_sample_eq
    by (simp add: buildPath_def slow_params_def sample_params_def Let_def make_path_def count_legs_def entry_leg_def
        ride1_def ride2_def walk1_def ValidatePath_def sample_path_def WalkRouteID_def i64_def)
qed

lemma slow_search: "RaptorSearch (\<lambda>k. False) sample_orders (Some sample_buffer) [] slow_params 5 = [sample_path]"
proof -
  have "tau state2 0 ''E'' = None" "tau state2 1 ''E'' = None" "tau state2 2 ''E'' = Some 400" "rounds slow_sample = 2"
      "dest slow_sample = ''E''"
    by (simp_all add: state2_def state1_def state0_def slow_sample_eq)
  then have "candidates slow_sample state2 = [sample_path]"
    by (simp add: candidates_def extract_step_def slow_build [unfolded numeral_2_eq_2] numeral_2_eq_2 infinity_def max_int64_def)
  then have "extract_paths slow_sample state2 5 = [sample_path]"
    by (simp add: extract_paths_def deduplicatePaths_def paretoFilter_def sample_path_def max_int32_def Let_def)
  moreover have "length (Routes sample_buffer) \<noteq> 0" "Origin slow_params \<noteq> []" "Destination slow_params \<noteq> []"
    "Origin slow_params \<noteq> Destination slow_params"
    by (simp_all add: sample_buffer_def slow_params_def sample_params_def)
  ultimately show ?thesis using slow_labels by (simp add: RaptorSearch_def Let_def)
qed

definition slow_query :: http_query where
  "slow_query = sample_query\<lparr>QueryInt := (\<lambda>k d. if k = ''min_transfer'' then 40 else QueryInt sample_query k d)\<rparr>"

lemma slow_parse: "parseSearch sample_config slow_query = Inr slow_params"
proof -
  have "show_nat 50 = ''50''" by code_simp
  with ParseInt64_show_nat [of 50] have "ParseInt64 ''50'' = (50, True)" by simp
  moreover have "ValidDate ''2026-08-27''" by code_simp
  ultimately show ?thesis
    by (simp add: parseSearch_def slow_query_def slow_params_def sample_query_def sample_params_def trim_space_def is_space_def Let_def
        maxDepartureUnix_def MaxPassengers_def MaxAllowedRounds_def sample_config_fields)
qed

lemma slow_response:
  "\<exists>b v'. handleSearch sample_config slow_query sample_request (snd (NewServer sample_config True)) = (SearchOK b, v') \<and>
     rejected_by_seats b = 0"
proof -
  have "stationKnown sample_buffer ''A''" "stationKnown sample_buffer ''E''"
    by (simp_all add: stationKnown_def sample_buffer_def)
  moreover have "Origin slow_params = ''A''" "Destination slow_params = ''E''" "SeatClass slow_params = ''SL''" "Passengers slow_params = 1"
    by (simp_all add: slow_params_def sample_params_def)
  moreover have "rq_checked sample_request = sample_buffer" "rq_live sample_request = sample_buffer" "rq_signals sample_request = []"
    "rq_cancelled sample_request = (\<lambda>k. False)" "rq_orders sample_request = sample_orders" "rq_iter sample_request = id"
    "rq_now sample_request = 0" "rq_later sample_request = 0"
    by (simp_all add: sample_request_def)
  ultimately show ?thesis
    using sample_validate
    by (auto simp: handleSearch_def slow_parse sample_config_fields slow_search Let_def split: prod.splits)
qed

theorem response_in_time_witness:
  "\<exists>b v'. handleSearch sample_config slow_query sample_request (snd (NewServer sample_config True)) = (SearchOK b, v') \<and>
     paths b \<noteq> [] \<and> path_ArrivalUnix (hd (paths b)) \<le> 400"
proof -
  from slow_response obtain b v' where
    r: "handleSearch sample_config slow_query sample_request (snd (NewServer sample_config True)) = (SearchOK b, v')" "rejected_by_seats b = 0"
    by blast
  have rq: "rq_live sample_request = live sample_state" "orders_ok (rq_orders sample_request)" "rq_cancelled sample_request = (\<lambda>k. False)"
    by (simp_all add: sample_request_def sample_live sample_ok)
  have ends: "Destination slow_params = ''E''" "Rounds slow_params = 2"
    by (simp_all add: slow_params_def sample_params_def Rounds_def MaxAllowedRounds_def)
  have "buffer_timed (live sample_state)" "walks_compose (live sample_state)" "departures_apart (live sample_state)"
    "plain_names (live sample_state)" "Routes (live sample_state) \<noteq> []"
    using sample_timed(1) sample_searchable by (simp_all add: sample_live departures_apart_def searchable_def network_ok_def sample_env_eq, simp add: sample_buffer_def)
  moreover have "unhurried_to (search_env_of slow_params (live sample_state) (rq_signals sample_request) (rq_orders sample_request)) 2 (Destination slow_params) 400 False"
    using slow_journey by (simp add: sample_live sample_request_def ends)
  ultimately have "paths b \<noteq> [] \<and> path_ArrivalUnix (hd (paths b)) \<le> 400"
    using response_in_time [OF sample_state_reachable rq r(1,2) slow_parse] ends(2) by simp
  with r(1) show ?thesis by blast
qed

end
