(* ===== verification/Watcher.thy ===== *)
theory Watcher
  imports Loader
begin

text \<open>
  The schedule watcher of \<^verbatim>\<open>internal/schedule/watcher.go\<close>: the loop that reloads on a notification or
  a tick when \<^verbatim>\<open>schema_version\<close> has moved, and the goroutine that holds the LISTEN connection and
  coalesces notifications in a channel of capacity one. The two run concurrently; an execution is a
  list of events of either. What the database says at an event is its argument.
\<close>

section \<open>The reload loop\<close>

text \<open>\<open>lastTS\<close> is \<open>None\<close> for the zero time, \<open>pending\<close> is whether the channel holds a token.\<close>

record watcher =
  lastTS :: "int option"
  pending :: bool

text \<open>The database at one moment: \<open>updated_at\<close>, unless the query for it fails, and what the two
  queries of a reload answer.\<close>

record database =
  db_version :: "int option"
  db_schedule :: "schedule_row query"
  db_footpaths :: "footpath_row query"

definition ts_after :: "int \<Rightarrow> int option \<Rightarrow> bool" where
  "ts_after ts seen = (case seen of None \<Rightarrow> True | Some l \<Rightarrow> l < ts)"

definition watcher_reload :: "(string \<Rightarrow> string) \<Rightarrow> load_options \<Rightarrow> database \<Rightarrow> watcher \<times> schedule_state \<Rightarrow> watcher \<times> schedule_state" where
  "watcher_reload sha256 opts db ws =
     (let (w, st) = ws in
      case db_version db of
        None \<Rightarrow> (w, st)
      | Some ts \<Rightarrow>
          if \<not> ts_after ts (lastTS w) then (w, st)
          else (w\<lparr>lastTS := Some ts\<rparr>, reload_step sha256 opts (db_schedule db) (db_footpaths db) st))"

text \<open>\<open>Notification\<close> is the send of the listener, which a full channel drops; the other two are what
  the \<open>select\<close> of the loop receives. Receiving from the empty channel is not possible.\<close>

datatype watch_event = Notification | NotifyReceived | Ticked

fun watch_step :: "(string \<Rightarrow> string) \<Rightarrow> load_options \<Rightarrow> database \<times> watch_event \<Rightarrow> watcher \<times> schedule_state \<Rightarrow> watcher \<times> schedule_state" where
  "watch_step sha256 opts (db, Notification) (w, st) = (w\<lparr>pending := True\<rparr>, st)"
| "watch_step sha256 opts (db, NotifyReceived) (w, st) =
     (if pending w then watcher_reload sha256 opts db (w\<lparr>pending := False\<rparr>, st) else (w, st))"
| "watch_step sha256 opts (db, Ticked) (w, st) = watcher_reload sha256 opts db (w, st)"

definition WatcherLoop :: "(string \<Rightarrow> string) \<Rightarrow> load_options \<Rightarrow> (database \<times> watch_event) list \<Rightarrow> watcher \<times> schedule_state \<Rightarrow> watcher \<times> schedule_state" where
  "WatcherLoop sha256 opts evs ws = fold (watch_step sha256 opts) evs ws"

definition init_watcher :: watcher where
  "init_watcher = \<lparr>lastTS = None, pending = False\<rparr>"

definition watcher_interval :: "int \<Rightarrow> int" where
  "watcher_interval interval = (if interval \<le> 0 then 30 * 10 ^ 9 else interval)"

section \<open>The listener\<close>

text \<open>
  Where the goroutine is: about to acquire, with a connection about to \<open>LISTEN\<close>, waiting for
  notifications, or returned. \<open>held\<close> counts the connections it has not released.
\<close>

datatype listen_phase = Acquiring | Subscribing | Waiting | Returned

record listener =
  phase :: listen_phase
  held :: int

text \<open>A step: whether the call at this place fails, and what \<open>ctx.Err()\<close> says after it (at the loop
  condition before an acquisition). The result also says whether a token is sent.\<close>

definition listen_step :: "bool \<Rightarrow> bool \<Rightarrow> listener \<Rightarrow> listener \<times> bool" where
  "listen_step failed cancelled l =
     (case phase l of
        Acquiring \<Rightarrow>
          if failed then (if cancelled then (l\<lparr>phase := Returned\<rparr>, False) else (l, False))
          else (l\<lparr>phase := Subscribing, held := held l + 1\<rparr>, False)
      | Subscribing \<Rightarrow>
          if failed
          then (let l = l\<lparr>held := held l - 1\<rparr>
                in if cancelled then (l\<lparr>phase := Returned\<rparr>, False) else (l\<lparr>phase := Acquiring\<rparr>, False))
          else (l\<lparr>phase := Waiting\<rparr>, False)
      | Waiting \<Rightarrow>
          if cancelled then (l\<lparr>phase := Returned, held := held l - 1\<rparr>, False)
          else if failed then (l\<lparr>phase := Acquiring, held := held l - 1\<rparr>, False)
          else (l, True)
      | Returned \<Rightarrow> (l, False))"

definition listen_condition :: "bool \<Rightarrow> listener \<Rightarrow> listener" where
  "listen_condition cancelled l =
     (if phase l = Acquiring \<and> cancelled then l\<lparr>phase := Returned\<rparr> else l)"

inductive listener_reachable :: "listener \<Rightarrow> bool" where
  listener_start: "listener_reachable \<lparr>phase = Acquiring, held = 0\<rparr>"
| listener_step: "listener_reachable l \<Longrightarrow> listener_reachable (fst (listen_step failed cancelled l))"
| listener_cond: "listener_reachable l \<Longrightarrow> listener_reachable (listen_condition cancelled l)"

section \<open>Lemmas\<close>

text \<open>Whether some event of a list makes the loop look at the database.\<close>

fun looks :: "bool \<Rightarrow> watch_event list \<Rightarrow> bool" where
  "looks p [] = False"
| "looks p (Notification # evs) = looks True evs"
| "looks p (NotifyReceived # evs) = (p \<or> looks False evs)"
| "looks p (Ticked # evs) = True"

lemma WatcherLoop_simps:
  "WatcherLoop sha256 opts [] ws = ws"
  "WatcherLoop sha256 opts (e # evs) ws = WatcherLoop sha256 opts evs (watch_step sha256 opts e ws)"
  by (simp_all add: WatcherLoop_def)

lemma watch_step_same_version:
  assumes "db_version db = Some v" "lastTS w = Some v"
  shows "lastTS (fst (watch_step sha256 opts (db, ev) (w, st))) = Some v \<and> snd (watch_step sha256 opts (db, ev) (w, st)) = st"
  using assms by (cases ev) (auto simp: watcher_reload_def ts_after_def)

lemma watcher_settled:
  "list_all (\<lambda>(db, ev). db_version db = Some v) evs \<Longrightarrow> lastTS w = Some v \<Longrightarrow>
   lastTS (fst (WatcherLoop sha256 opts evs (w, st))) = Some v \<and> snd (WatcherLoop sha256 opts evs (w, st)) = st"
proof (induction evs arbitrary: w)
  case (Cons e evs)
  obtain db ev where e: "e = (db, ev)" by fastforce
  with Cons.prems have v: "db_version db = Some v" by simp
  obtain w' st' where step: "watch_step sha256 opts (db, ev) (w, st) = (w', st')" by fastforce
  from watch_step_same_version [OF v Cons.prems(2), of sha256 opts ev st] step have "lastTS w' = Some v" "st' = st" by simp_all
  with Cons e step show ?case by (simp add: WatcherLoop_simps)
qed (simp add: WatcherLoop_simps)

lemma watcher_looks:
  "db_version db = Some v \<Longrightarrow> ts_after v (lastTS w) \<Longrightarrow>
   snd (WatcherLoop sha256 opts (map (Pair db) evs) (w, st)) =
     (if looks (pending w) evs then reload_step sha256 opts (db_schedule db) (db_footpaths db) st else st)"
proof (induction evs arbitrary: w)
  case (Cons ev evs)
  have settled: "snd (WatcherLoop sha256 opts (map (Pair db) evs) (w', st')) = st'" if "lastTS w' = Some v" for w' st'
    using watcher_settled [of v "map (Pair db) evs" w' sha256 opts st'] that Cons.prems(1) by (simp add: list_all_iff)
  show ?case
  proof (cases ev)
    case Notification
    with Cons.IH [of "w\<lparr>pending := True\<rparr>"] Cons.prems show ?thesis by (simp add: WatcherLoop_simps)
  next
    case NotifyReceived
    show ?thesis
    proof (cases "pending w")
      case False
      with NotifyReceived Cons show ?thesis by (simp add: WatcherLoop_simps)
    qed (use NotifyReceived Cons.prems settled in \<open>simp add: WatcherLoop_simps watcher_reload_def\<close>)
  qed (use Cons.prems settled in \<open>simp add: WatcherLoop_simps watcher_reload_def\<close>)
qed (simp add: WatcherLoop_simps)

lemma watcher_keeps_reachable:
  "schedule_reachable sha256 st \<Longrightarrow> schedule_reachable sha256 (snd (WatcherLoop sha256 opts evs (w, st)))"
proof (induction evs arbitrary: w st)
  case (Cons e evs)
  obtain db ev w' st' where "e = (db, ev)" "watch_step sha256 opts (db, ev) (w, st) = (w', st')"
    by (metis surj_pair)
  moreover from this(2) have "schedule_reachable sha256 st'"
    using Cons.prems schedule_reload [OF Cons.prems]
    by (cases ev) (auto simp: watcher_reload_def split: option.splits if_splits)
  ultimately show ?case using Cons.IH by (simp add: WatcherLoop_simps)
qed (simp add: WatcherLoop_simps)

section \<open>Properties\<close>

text \<open>C23: when the version in the database is newer than the last one seen, the first look at it, a
  tick or the receipt of a notification, loads that version, once: however notifications are
  coalesced and however many ticks follow, the published schedule is the result of exactly one
  reload, and without any look it is the old one.\<close>

theorem watcher_loads_new_version_once:
  assumes "db_version db = Some v" "ts_after v (lastTS w)"
  shows "snd (WatcherLoop sha256 opts (map (Pair db) evs) (w, st)) =
    (if looks (pending w) evs then reload_step sha256 opts (db_schedule db) (db_footpaths db) st else st)"
  by (rule watcher_looks [OF assms])

definition demo_db :: database where
  "demo_db = \<lparr>db_version = Some 7,
     db_schedule = Rows [Some \<lparr>row_RouteID = ''R1'', row_TripID = ''T1'', row_Date = ''2026-08-27'', row_StopSeq = 1,
       row_StationID = ''A'', row_Arrival = 20, row_Departure = 20\<rparr>] True, db_footpaths = QueryFailed\<rparr>"

theorem watcher_loads_new_version_once_witness:
  "snd (WatcherLoop id DefaultLoadOptions (map (Pair demo_db) [Notification, Notification, NotifyReceived, NotifyReceived, Ticked]) (init_watcher, init_schedule)) =
     reload_step id DefaultLoadOptions (db_schedule demo_db) (db_footpaths demo_db) init_schedule"
  using watcher_loads_new_version_once [of demo_db 7 init_watcher id DefaultLoadOptions "[Notification, Notification, NotifyReceived, NotifyReceived, Ticked]" init_schedule]
  by (simp add: demo_db_def init_watcher_def ts_after_def)

text \<open>A reload that fails is not tried again: the version counts as seen although nothing was loaded,
  and as long as the database stays at that version no notification and no tick reloads it, even
  when the queries would succeed.\<close>

theorem failed_reload_is_not_retried:
  assumes "db_version db = Some v" "ts_after v (lastTS w)"
    and "ReloadRouteArrays sha256 opts (db_schedule db) (db_footpaths db) st = Inl err"
    and "list_all (\<lambda>(db', ev). db_version db' = Some v) evs"
  shows "snd (WatcherLoop sha256 opts ((db, Ticked) # evs) (w, st)) = st"
proof -
  have "watch_step sha256 opts (db, Ticked) (w, st) = (w\<lparr>lastTS := Some v\<rparr>, st)"
    using assms(1-3) by (simp add: watcher_reload_def reload_step_def)
  with watcher_settled [OF assms(4), of "w\<lparr>lastTS := Some v\<rparr>"] show ?thesis by (simp add: WatcherLoop_simps)
qed

theorem failed_reload_is_not_retried_witness:
  "snd (WatcherLoop id DefaultLoadOptions
     [(demo_db\<lparr>db_schedule := QueryFailed\<rparr>, Ticked), (demo_db, Ticked), (demo_db, Notification), (demo_db, NotifyReceived)] (init_watcher, init_schedule)) = init_schedule"
proof -
  have "ReloadRouteArrays id DefaultLoadOptions (db_schedule (demo_db\<lparr>db_schedule := QueryFailed\<rparr>)) (db_footpaths (demo_db\<lparr>db_schedule := QueryFailed\<rparr>)) init_schedule =
      Inl QuerySchedule" by (simp add: ReloadRouteArrays_def)
  from failed_reload_is_not_retried [OF _ _ this, of 7 init_watcher] show ?thesis
    by (simp add: demo_db_def init_watcher_def ts_after_def)
qed

text \<open>C32: the listener holds one connection exactly while it subscribes or waits, and none once it has
  returned, so the pool can be closed then; it sends a token only for a notification.\<close>

theorem listener_releases_connection:
  assumes "listener_reachable l"
  shows "held l = (if phase l \<in> {Subscribing, Waiting} then 1 else 0) \<and>
    (snd (listen_step failed cancelled l) \<longleftrightarrow> phase l = Waiting \<and> \<not> failed \<and> \<not> cancelled)"
  using assms
proof (induction rule: listener_reachable.induct)
  case (listener_step l failed cancelled)
  then show ?case by (cases "phase l") (auto simp: listen_step_def Let_def)
next
  case (listener_cond l cancelled)
  then show ?case by (cases "phase l") (auto simp: listen_condition_def listen_step_def Let_def)
qed (simp add: listen_step_def)

theorem listener_releases_connection_witness:
  "held (fst (listen_step True False (fst (listen_step False False \<lparr>phase = Acquiring, held = 0\<rparr>)))) = 0"
proof -
  have "listener_reachable (fst (listen_step True False (fst (listen_step False False \<lparr>phase = Acquiring, held = 0\<rparr>))))"
    by (intro listener_reachable.intros)
  from listener_releases_connection [OF this] show ?thesis by (simp add: listen_step_def)
qed

end
