(* ===== verification/Service.thy ===== *)
theory Service
  imports Whole_System Watcher
begin

text \<open>
  The running service: the watcher, the refresh loop and any number of search requests, interleaved.
  A request is not one step: \<open>handleSearch\<close> of \<^verbatim>\<open>internal/api/search.go\<close> reads the published schedule to check the
  stations, \<open>RaptorSearch\<close> of \<^verbatim>\<open>internal/raptor/engine.go\<close> reads the signals and then the schedule again;
  \<open>Validate\<close> of \<^verbatim>\<open>internal/raptor/validator.go\<close> asks the breaker, sends its MGETs one by one and reports to
  the breaker, and the response reads the breaker once more. All requests share one validator, and a reload, a
  refresh or a step of another request may fall between any two of these. What a request meets outside
  the process - Redis, the clock, map orders - is fixed when it arrives. Each request keeps, for
  the statements only, the schedules, signals and states of the validator that were current since it arrived.
\<close>

section \<open>A request in pieces\<close>

text \<open>Parsing and the check of the stations, and everything after the search.\<close>

definition check_stations :: "config \<Rightarrow> http_query \<Rightarrow> route_buffer \<Rightarrow> search_response + search_params" where
  "check_stations cf q buf =
     (case parseSearch cf q of
        Inl err \<Rightarrow> Inl (BadRequest err)
      | Inr p \<Rightarrow>
          if \<not> stationKnown buf (Origin p) then Inl (UnknownOrigin (Origin p))
          else if \<not> stationKnown buf (Destination p) then Inl (UnknownDestination (Destination p))
          else Inr p)"

definition candidates_of :: "config \<Rightarrow> search_params \<Rightarrow> request_env \<Rightarrow> path list" where
  "candidates_of cf p rq =
     RaptorSearch (rq_cancelled rq) (rq_orders rq) (Some (rq_live rq)) (rq_signals rq) p (SearchCandidates cf)"

text \<open>\<open>Validate\<close> up to its call of \<open>Allow\<close>, which decides at once or leaves the chunks to ask for; and what it
  does when an MGET failed and when all were answered.\<close>

definition begin_validation :: "(string list \<Rightarrow> string list) \<Rightarrow> int \<Rightarrow> path list \<Rightarrow> validator \<Rightarrow>
    (path list + string list list) \<times> validator" where
  "begin_validation iter now cs v =
     (if length cs = 0 then (Inl [], v)
      else if length (seat_keys cs) = 0 then (Inl (truncate_results v cs), v)
      else if \<not> has_rdb v then (Inl (unavailable v cs), v)
      else
        (let (admitted, b) = Allow now (cb v); v = v\<lparr>cb := b\<rparr> in
         if \<not> admitted then (Inl (unavailable v cs), v)
         else (Inr (chunks (nat (MGetChunk (cfg v))) (iter (seat_keys cs))), v)))"

definition fail_validation :: "int \<Rightarrow> path list \<Rightarrow> validator \<Rightarrow> path list \<times> validator" where
  "fail_validation later cs v = (let v = v\<lparr>cb := Failure later (cb v)\<rparr> in (unavailable v cs, v))"

definition pass_validation :: "seat_cache \<Rightarrow> string \<Rightarrow> int \<Rightarrow> path list \<Rightarrow> validator \<Rightarrow> path list \<times> validator" where
  "pass_validation cache cls n cs v =
     (let v = v\<lparr>cb := Success (cb v)\<rparr> in (survivors cache cls n (MaxResults (cfg v)) [] cs, v))"

text \<open>The body of the response, with the status of the validator read last.\<close>

definition respond :: "search_params \<Rightarrow> path list \<Rightarrow> path list \<Rightarrow> string \<Rightarrow> search_response" where
  "respond p cs final status =
     SearchOK \<lparr>paths = final, result_count = int (length final), candidate_count = int (length cs),
       rejected_by_seats = int (length cs) - int (length final), seat_validation = status,
       max_rounds = Rounds p, min_transfer_seconds = TransferBuffer p\<rparr>"

text \<open>The pieces, run back to back, are \<open>Validate\<close> and the handler.\<close>

lemma Validate_pieces:
  "Validate mget um iter now later cs cls n v =
     (case begin_validation iter now cs v of
        (Inl final, v) \<Rightarrow> (final, v)
      | (Inr chs, v) \<Rightarrow>
          (case fetch_chunks mget um 0 chs Map.empty of
             None \<Rightarrow> fail_validation later cs v
           | Some cache \<Rightarrow> pass_validation cache cls n cs v))"
  by (simp add: Validate_def begin_validation_def fail_validation_def pass_validation_def Let_def split: prod.splits option.splits)

lemma handleSearch_pieces:
  "handleSearch cf q rq v =
     (case check_stations cf q (rq_checked rq) of
        Inl r \<Rightarrow> (r, v)
      | Inr p \<Rightarrow>
          (let (final, v) = Validate (rq_mget rq) (rq_unmarshal rq) (rq_iter rq) (rq_now rq) (rq_later rq) (candidates_of cf p rq)
             (SeatClass p) (Passengers p) v
           in (respond p (candidates_of cf p rq) final (Status (rq_end rq) v), v)))"
  by (simp add: handleSearch_def check_stations_def respond_def candidates_of_def Let_def split: sum.splits prod.splits)

section \<open>The state\<close>

text \<open>Where a request is; the environment collects what it has read so far.\<close>

datatype stage = Arrived | Checked search_params | HasSignals search_params | Searched search_params "path list"
  | Fetching search_params "path list" nat "string list list" seat_cache
  | Validated search_params "path list" "path list"

record inflight =
  fl_query :: http_query
  fl_stage :: stage
  fl_env :: request_env
  seen_routes :: "route_buffer list"
  seen_signals :: "signal_buffer list"
  seen_validators :: "validator list"

record service =
  sv_schedule :: schedule_state
  sv_watcher :: watcher
  sv_syncer :: syncer
  sv_app :: app_state
  sv_backoff :: int
  sv_validator :: validator
  sv_inflight :: "inflight list"
  sv_answered :: "(inflight \<times> search_response) list"

definition observe :: "route_buffer \<Rightarrow> signal_buffer \<Rightarrow> validator \<Rightarrow> inflight \<Rightarrow> inflight" where
  "observe buf sig v fl = fl\<lparr>seen_routes := buf # seen_routes fl, seen_signals := sig # seen_signals fl,
     seen_validators := v # seen_validators fl\<rparr>"

text \<open>Every request in flight sees what is live after a step.\<close>

definition observed :: "service \<Rightarrow> service" where
  "observed S = S\<lparr>sv_inflight := map (observe (live (sv_schedule S)) (liveSignal (sv_app S)) (sv_validator S)) (sv_inflight S)\<rparr>"

section \<open>The steps\<close>

inductive service_step :: "(string \<Rightarrow> string) \<Rightarrow> load_options \<Rightarrow> decoders \<Rightarrow> config \<Rightarrow> service \<Rightarrow> service \<Rightarrow> bool"
  for sha256 opts dec cf where
  watch: "watch_step sha256 opts (db, ev) (sv_watcher S, sv_schedule S) = (w, st) \<Longrightarrow>
    service_step sha256 opts dec cf S (observed (S\<lparr>sv_watcher := w, sv_schedule := st\<rparr>))"
| refresh: "refresh_step dec e ((sv_syncer S, sv_app S), sv_backoff S) = Running ((s, app), b) \<Longrightarrow>
    service_step sha256 opts dec cf S (observed (S\<lparr>sv_syncer := s, sv_app := app, sv_backoff := b\<rparr>))"
| readiness: "service_step sha256 opts dec cf S (S\<lparr>sv_app := (if up then MarkReady (sv_app S) else MarkNotReady (sv_app S))\<rparr>)"
| arrive: "IsReady (sv_app S) \<Longrightarrow> fl = \<lparr>fl_query = q, fl_stage = Arrived, fl_env = rq, seen_routes = [live (sv_schedule S)],
      seen_signals = [liveSignal (sv_app S)], seen_validators = [sv_validator S]\<rparr> \<Longrightarrow>
    service_step sha256 opts dec cf S (S\<lparr>sv_inflight := sv_inflight S @ [fl]\<rparr>)"
| refuse: "sv_inflight S = xs @ fl # ys \<Longrightarrow> fl_stage fl = Arrived \<Longrightarrow> fl' = fl\<lparr>fl_env := (fl_env fl)\<lparr>rq_checked := live (sv_schedule S)\<rparr>\<rparr> \<Longrightarrow>
    check_stations cf (fl_query fl) (live (sv_schedule S)) = Inl r \<Longrightarrow>
    service_step sha256 opts dec cf S (S\<lparr>sv_inflight := xs @ ys, sv_answered := (fl', r) # sv_answered S\<rparr>)"
| check: "sv_inflight S = xs @ fl # ys \<Longrightarrow> fl_stage fl = Arrived \<Longrightarrow>
    check_stations cf (fl_query fl) (live (sv_schedule S)) = Inr p \<Longrightarrow>
    fl' = fl\<lparr>fl_stage := Checked p, fl_env := (fl_env fl)\<lparr>rq_checked := live (sv_schedule S)\<rparr>\<rparr> \<Longrightarrow>
    service_step sha256 opts dec cf S (S\<lparr>sv_inflight := xs @ fl' # ys\<rparr>)"
| read_signals: "sv_inflight S = xs @ fl # ys \<Longrightarrow> fl_stage fl = Checked p \<Longrightarrow>
    fl' = fl\<lparr>fl_stage := HasSignals p, fl_env := (fl_env fl)\<lparr>rq_signals := liveSignal (sv_app S)\<rparr>\<rparr> \<Longrightarrow>
    service_step sha256 opts dec cf S (S\<lparr>sv_inflight := xs @ fl' # ys\<rparr>)"
| search: "sv_inflight S = xs @ fl # ys \<Longrightarrow> fl_stage fl = HasSignals p \<Longrightarrow>
    rq = (fl_env fl)\<lparr>rq_live := live (sv_schedule S)\<rparr> \<Longrightarrow>
    fl' = fl\<lparr>fl_stage := Searched p (candidates_of cf p rq), fl_env := rq\<rparr> \<Longrightarrow>
    service_step sha256 opts dec cf S (S\<lparr>sv_inflight := xs @ fl' # ys\<rparr>)"
| validate: "sv_inflight S = xs @ fl # ys \<Longrightarrow> fl_stage fl = Searched p cs \<Longrightarrow>
    begin_validation (rq_iter (fl_env fl)) (rq_now (fl_env fl)) cs (sv_validator S) = (out, v) \<Longrightarrow>
    fl' = fl\<lparr>fl_stage := (case out of Inl final \<Rightarrow> Validated p cs final | Inr chs \<Rightarrow> Fetching p cs 0 chs Map.empty)\<rparr> \<Longrightarrow>
    service_step sha256 opts dec cf S (observed (S\<lparr>sv_validator := v, sv_inflight := xs @ fl' # ys\<rparr>))"
| fetch: "sv_inflight S = xs @ fl # ys \<Longrightarrow> fl_stage fl = Fetching p cs j (chunk # chs) cache \<Longrightarrow>
    rq_mget (fl_env fl) j chunk = Some vals \<Longrightarrow>
    fl' = fl\<lparr>fl_stage := Fetching p cs (j + 1) chs (read_chunk (rq_unmarshal (fl_env fl)) vals chunk cache)\<rparr> \<Longrightarrow>
    service_step sha256 opts dec cf S (S\<lparr>sv_inflight := xs @ fl' # ys\<rparr>)"
| fetch_failed: "sv_inflight S = xs @ fl # ys \<Longrightarrow> fl_stage fl = Fetching p cs j (chunk # chs) cache \<Longrightarrow>
    rq_mget (fl_env fl) j chunk = None \<Longrightarrow> fail_validation (rq_later (fl_env fl)) cs (sv_validator S) = (final, v) \<Longrightarrow>
    fl' = fl\<lparr>fl_stage := Validated p cs final\<rparr> \<Longrightarrow>
    service_step sha256 opts dec cf S (observed (S\<lparr>sv_validator := v, sv_inflight := xs @ fl' # ys\<rparr>))"
| fetched: "sv_inflight S = xs @ fl # ys \<Longrightarrow> fl_stage fl = Fetching p cs j [] cache \<Longrightarrow>
    pass_validation cache (SeatClass p) (Passengers p) cs (sv_validator S) = (final, v) \<Longrightarrow>
    fl' = fl\<lparr>fl_stage := Validated p cs final\<rparr> \<Longrightarrow>
    service_step sha256 opts dec cf S (observed (S\<lparr>sv_validator := v, sv_inflight := xs @ fl' # ys\<rparr>))"
| answer: "sv_inflight S = xs @ fl # ys \<Longrightarrow> fl_stage fl = Validated p cs final \<Longrightarrow>
    r = respond p cs final (Status (rq_end (fl_env fl)) (sv_validator S)) \<Longrightarrow>
    service_step sha256 opts dec cf S (S\<lparr>sv_inflight := xs @ ys, sv_answered := (fl, r) # sv_answered S\<rparr>)"

text \<open>After boot: a schedule has been loaded, the syncer and the validator are new, nothing is in flight.\<close>

inductive serving :: "(string \<Rightarrow> string) \<Rightarrow> load_options \<Rightarrow> decoders \<Rightarrow> config \<Rightarrow> bool \<Rightarrow> service \<Rightarrow> bool"
  for sha256 opts dec cf rdb where
  booted: "schedule_reachable sha256 (sv_schedule S) \<Longrightarrow> app_reachable (sv_app S) \<Longrightarrow> sv_validator S = snd (NewServer cf rdb) \<Longrightarrow>
    sv_inflight S = [] \<Longrightarrow> sv_answered S = [] \<Longrightarrow> serving sha256 opts dec cf rdb S"
| stepped: "serving sha256 opts dec cf rdb S \<Longrightarrow> service_step sha256 opts dec cf S S' \<Longrightarrow> serving sha256 opts dec cf rdb S'"

section \<open>The invariant\<close>

definition published_buffers :: "(string \<Rightarrow> string) \<Rightarrow> route_buffer set" where
  "published_buffers sha256 = live ` Collect (schedule_reachable sha256)"

text \<open>What \<open>Validate\<close> returns to a request when it finds the validator in the state \<open>v\<close>.\<close>

definition validated :: "request_env \<Rightarrow> search_params \<Rightarrow> path list \<Rightarrow> validator \<Rightarrow> path list" where
  "validated rq p cs v =
     fst (Validate (rq_mget rq) (rq_unmarshal rq) (rq_iter rq) (rq_now rq) (rq_later rq) cs (SeatClass p) (Passengers p) v)"

text \<open>The rest of a validation that is fetching comes to what \<open>Validate\<close> returns from the state it was admitted in.\<close>

definition admitted_in :: "request_env \<Rightarrow> search_params \<Rightarrow> path list \<Rightarrow> nat \<Rightarrow> string list list \<Rightarrow> seat_cache \<Rightarrow> validator \<Rightarrow> bool" where
  "admitted_in rq p cs j chs cache v \<longleftrightarrow>
     validated rq p cs v =
       (case fetch_chunks (rq_mget rq) (rq_unmarshal rq) j chs cache of
          None \<Rightarrow> unavailable v cs
        | Some c \<Rightarrow> survivors c (SeatClass p) (Passengers p) (MaxResults (cfg v)) [] cs)"

definition searched :: "config \<Rightarrow> inflight \<Rightarrow> search_params \<Rightarrow> path list \<Rightarrow> bool" where
  "searched cf fl p cs \<longleftrightarrow>
     check_stations cf (fl_query fl) (rq_checked (fl_env fl)) = Inr p \<and> rq_checked (fl_env fl) \<in> set (seen_routes fl) \<and>
     rq_signals (fl_env fl) \<in> set (seen_signals fl) \<and> rq_live (fl_env fl) \<in> set (seen_routes fl) \<and> cs = candidates_of cf p (fl_env fl)"

definition stage_inv :: "config \<Rightarrow> inflight \<Rightarrow> bool" where
  "stage_inv cf fl \<longleftrightarrow>
     (let checked = (\<lambda>p. check_stations cf (fl_query fl) (rq_checked (fl_env fl)) = Inr p \<and> rq_checked (fl_env fl) \<in> set (seen_routes fl))
      in case fl_stage fl of
           Arrived \<Rightarrow> True
         | Checked p \<Rightarrow> checked p
         | HasSignals p \<Rightarrow> checked p \<and> rq_signals (fl_env fl) \<in> set (seen_signals fl)
         | Searched p cs \<Rightarrow> searched cf fl p cs
         | Fetching p cs j chs cache \<Rightarrow> searched cf fl p cs \<and> (\<exists>v \<in> set (seen_validators fl). admitted_in (fl_env fl) p cs j chs cache v)
         | Validated p cs final \<Rightarrow> searched cf fl p cs \<and> (\<exists>v \<in> set (seen_validators fl). final = validated (fl_env fl) p cs v))"

definition request_inv :: "(string \<Rightarrow> string) \<Rightarrow> config \<Rightarrow> inflight \<Rightarrow> bool" where
  "request_inv sha256 cf fl \<longleftrightarrow>
     set (seen_routes fl) \<subseteq> published_buffers sha256 \<and> (\<forall>v \<in> set (seen_validators fl). cfg v = validator_config_of cf) \<and> stage_inv cf fl"

text \<open>What is recorded of an answer: its journeys are what \<open>Validate\<close> returns on what was current meanwhile,
  its status that of a state of the validator that was, perhaps later.\<close>

definition answer_inv :: "(string \<Rightarrow> string) \<Rightarrow> config \<Rightarrow> inflight \<Rightarrow> search_response \<Rightarrow> bool" where
  "answer_inv sha256 cf fl r \<longleftrightarrow>
     set (seen_routes fl) \<subseteq> published_buffers sha256 \<and> (\<forall>v \<in> set (seen_validators fl). cfg v = validator_config_of cf) \<and>
     (check_stations cf (fl_query fl) (rq_checked (fl_env fl)) = Inl r \<or>
      (\<exists>p cs. searched cf fl p cs \<and>
         (\<exists>v \<in> set (seen_validators fl). \<exists>w \<in> set (seen_validators fl).
            r = respond p cs (validated (fl_env fl) p cs v) (Status (rq_end (fl_env fl)) w))))"

definition service_inv :: "(string \<Rightarrow> string) \<Rightarrow> config \<Rightarrow> service \<Rightarrow> bool" where
  "service_inv sha256 cf S \<longleftrightarrow>
     schedule_reachable sha256 (sv_schedule S) \<and> app_reachable (sv_app S) \<and> cfg (sv_validator S) = validator_config_of cf \<and>
     (\<forall>fl \<in> set (sv_inflight S). request_inv sha256 cf fl \<and> live (sv_schedule S) \<in> set (seen_routes fl) \<and>
        liveSignal (sv_app S) \<in> set (seen_signals fl) \<and> sv_validator S \<in> set (seen_validators fl)) \<and>
     (\<forall>(fl, r) \<in> set (sv_answered S). answer_inv sha256 cf fl r)"

lemma live_published: "schedule_reachable sha256 st \<Longrightarrow> live st \<in> published_buffers sha256"
  by (auto simp: published_buffers_def)

lemma refresh_step_app:
  assumes "refresh_step dec e ((s, app), b) = Running ((s', app'), b')" "app_reachable app"
  shows "app_reachable app'"
proof -
  have swap: "app_reachable (SwapSignal now m app)" for now m
    using app_next [OF assms(2), of "OpSwap now m"] by simp
  have cold: "app_reachable app''" if "ColdStart dec c (s, app) = (err, s'', app'')" for c err s'' app''
    using that assms(2) swap by (auto simp: ColdStart_def Let_def split: option.splits sum.splits)
  have "app_reachable (snd (resync dec e (s, app)))"
    using assms(2) cold by (auto simp: resync_def Let_def split: prod.splits option.splits)
  with assms swap show ?thesis
    by (auto simp: refresh_step_def Let_def split: if_splits xread.splits prod.splits sum.splits fetch_error.splits)
qed

lemma searched_observe: "searched cf fl p cs \<Longrightarrow> searched cf (observe buf sig v fl) p cs"
  by (simp add: searched_def observe_def)

lemma request_inv_observe:
  assumes "request_inv sha256 cf fl" "buf \<in> published_buffers sha256" "cfg v = validator_config_of cf"
  shows "request_inv sha256 cf (observe buf sig v fl)"
  using assms searched_observe [of cf fl _ _ buf sig v]
  by (auto simp: request_inv_def stage_inv_def Let_def observe_def split: stage.splits)

lemma service_inv_observed:
  assumes "schedule_reachable sha256 (sv_schedule S)" "app_reachable (sv_app S)" "cfg (sv_validator S) = validator_config_of cf"
    and "\<And>fl. fl \<in> set (sv_inflight S) \<Longrightarrow> request_inv sha256 cf fl"
    and "\<And>fl r. (fl, r) \<in> set (sv_answered S) \<Longrightarrow> answer_inv sha256 cf fl r"
  shows "service_inv sha256 cf (observed S)"
  using assms live_published [OF assms(1)] request_inv_observe
  by (auto simp: service_inv_def observed_def observe_def)

lemma watch_step_reachable:
  assumes "watch_step sha256 opts (db, ev) (w, st) = (w', st')" "schedule_reachable sha256 st"
  shows "schedule_reachable sha256 st'"
  using watcher_keeps_reachable [OF assms(2), of opts "[(db, ev)]" w] assms(1) by (simp add: WatcherLoop_simps)

lemma unavailable_cfg: "cfg v = cfg v' \<Longrightarrow> unavailable v cs = unavailable v' cs"
  by (simp add: unavailable_def truncate_results_def)

lemma begin_validation_cfg: "begin_validation iter now cs v = (out, v') \<Longrightarrow> cfg v' = cfg v"
  by (auto simp: begin_validation_def Let_def split: if_splits prod.splits)

lemma begin_validation_inv:
  assumes "begin_validation (rq_iter rq) (rq_now rq) cs v = (out, v')"
  shows "case out of Inl final \<Rightarrow> final = validated rq p cs v | Inr chs \<Rightarrow> admitted_in rq p cs 0 chs Map.empty v"
  using assms begin_validation_cfg [OF assms] unavailable_cfg [of v v' cs] unavailable_cfg [of "v'\<lparr>cb := x\<rparr>" v cs for x]
  by (auto simp: validated_def admitted_in_def Validate_pieces fail_validation_def pass_validation_def split: sum.splits option.splits)

lemma admitted_in_step:
  "rq_mget rq j chunk = Some vals \<Longrightarrow> admitted_in rq p cs j (chunk # chs) cache v \<Longrightarrow>
     admitted_in rq p cs (j + 1) chs (read_chunk (rq_unmarshal rq) vals chunk cache) v"
  by (simp add: admitted_in_def)

lemma admitted_in_failed:
  "rq_mget rq j chunk = None \<Longrightarrow> admitted_in rq p cs j (chunk # chs) cache v \<Longrightarrow> cfg w = cfg v \<Longrightarrow>
     fst (fail_validation later cs w) = validated rq p cs v"
  using unavailable_cfg [of "w\<lparr>cb := Failure later (cb w)\<rparr>" v cs] by (simp add: admitted_in_def fail_validation_def)

lemma admitted_in_passed:
  "admitted_in rq p cs j [] cache v \<Longrightarrow> cfg w = cfg v \<Longrightarrow>
     fst (pass_validation cache (SeatClass p) (Passengers p) cs w) = validated rq p cs v"
  by (simp add: admitted_in_def pass_validation_def)

lemma service_inv_advance:
  assumes "service_inv sha256 cf S" "sv_inflight S = xs @ fl # ys"
    and "request_inv sha256 cf fl \<Longrightarrow> live (sv_schedule S) \<in> set (seen_routes fl) \<Longrightarrow>
      liveSignal (sv_app S) \<in> set (seen_signals fl) \<Longrightarrow> request_inv sha256 cf fl'"
    and "seen_routes fl' = seen_routes fl" "seen_signals fl' = seen_signals fl" "seen_validators fl' = seen_validators fl"
  shows "service_inv sha256 cf (S\<lparr>sv_inflight := xs @ fl' # ys\<rparr>)"
  using assms by (auto simp: service_inv_def)

lemma service_inv_validator:
  assumes "service_inv sha256 cf S" "sv_inflight S = xs @ fl # ys" "cfg v = cfg (sv_validator S)"
    and "request_inv sha256 cf fl \<Longrightarrow> sv_validator S \<in> set (seen_validators fl) \<Longrightarrow> request_inv sha256 cf fl'"
  shows "service_inv sha256 cf (observed (S\<lparr>sv_validator := v, sv_inflight := xs @ fl' # ys\<rparr>))"
  by (rule service_inv_observed) (use assms in \<open>auto simp: service_inv_def\<close>)

lemma service_inv_answered:
  assumes "service_inv sha256 cf S" "sv_inflight S = xs @ fl # ys" "answer_inv sha256 cf fl' r"
  shows "service_inv sha256 cf (S\<lparr>sv_inflight := xs @ ys, sv_answered := (fl', r) # sv_answered S\<rparr>)"
  using assms by (auto simp: service_inv_def)

lemma service_step_inv:
  assumes "service_step sha256 opts dec cf S S'" "service_inv sha256 cf S"
  shows "service_inv sha256 cf S'"
  using assms(1)
proof cases
  case (watch db ev w st)
  show ?thesis unfolding watch(1)
    by (rule service_inv_observed) (use assms(2) watch_step_reachable [OF watch(2)] in \<open>auto simp: service_inv_def\<close>)
next
  case (refresh e s app b)
  show ?thesis unfolding refresh(1)
    by (rule service_inv_observed) (use assms(2) refresh_step_app [OF refresh(2)] in \<open>auto simp: service_inv_def\<close>)
next
  case (readiness up)
  have "app_reachable (sv_app S)" using assms(2) by (simp add: service_inv_def)
  from app_next [OF this, of OpReady] app_next [OF this, of OpNotReady] show ?thesis
    unfolding readiness(1) using assms(2) by (auto simp: service_inv_def MarkReady_def MarkNotReady_def)
next
  case (arrive fl q rq)
  have "live (sv_schedule S) \<in> published_buffers sha256" using assms(2) by (simp add: service_inv_def live_published)
  then show ?thesis unfolding arrive(1) using assms(2) arrive(3) by (auto simp: service_inv_def request_inv_def stage_inv_def)
next
  case (refuse xs fl ys fl' r)
  have "request_inv sha256 cf fl" using assms(2) refuse(2) by (auto simp: service_inv_def)
  then have "answer_inv sha256 cf fl' r" using refuse(4,5) by (simp add: answer_inv_def request_inv_def)
  then show ?thesis unfolding refuse(1) by (rule service_inv_answered [OF assms(2) refuse(2)])
next
  case (check xs fl ys p fl')
  show ?thesis unfolding check(1)
    by (rule service_inv_advance [OF assms(2) check(2)]) (use check in \<open>auto simp: request_inv_def stage_inv_def\<close>)
next
  case (read_signals xs fl ys p fl')
  show ?thesis unfolding read_signals(1)
    by (rule service_inv_advance [OF assms(2) read_signals(2)]) (use read_signals in \<open>auto simp: request_inv_def stage_inv_def\<close>)
next
  case (search xs fl ys p rq fl')
  show ?thesis unfolding search(1)
    by (rule service_inv_advance [OF assms(2) search(2)]) (use search in \<open>auto simp: request_inv_def stage_inv_def searched_def Let_def\<close>)
next
  case (validate xs fl ys p cs out v fl')
  show ?thesis unfolding validate(1)
    by (rule service_inv_validator [OF assms(2) validate(2) begin_validation_cfg [OF validate(4)]])
      (use validate(3,5) begin_validation_inv [OF validate(4), of p] in
        \<open>auto simp: request_inv_def stage_inv_def searched_def split: sum.splits\<close>)
next
  case (fetch xs fl ys p cs j chunk chs cache vals fl')
  show ?thesis unfolding fetch(1)
    by (rule service_inv_advance [OF assms(2) fetch(2)])
      (use fetch(3,5) admitted_in_step [OF fetch(4)] in
        \<open>auto simp: request_inv_def stage_inv_def searched_def intro!: bexI\<close>)
next
  case (fetch_failed xs fl ys p cs j chunk chs cache final v fl')
  have "cfg v = cfg (sv_validator S)" "final = fst (fail_validation (rq_later (fl_env fl)) cs (sv_validator S))"
    using fetch_failed(5) by (auto simp: fail_validation_def Let_def)
  then show ?thesis unfolding fetch_failed(1)
    by (intro service_inv_validator [OF assms(2) fetch_failed(2)])
      (use assms(2) fetch_failed(3,6) admitted_in_failed [OF fetch_failed(4)] in
        \<open>auto simp: service_inv_def request_inv_def stage_inv_def searched_def\<close>)
next
  case (fetched xs fl ys p cs j cache final v fl')
  have "cfg v = cfg (sv_validator S)" "final = fst (pass_validation cache (SeatClass p) (Passengers p) cs (sv_validator S))"
    using fetched(4) by (auto simp: pass_validation_def Let_def)
  then show ?thesis unfolding fetched(1)
    by (intro service_inv_validator [OF assms(2) fetched(2)])
      (use assms(2) fetched(3,5) admitted_in_passed in \<open>auto simp: service_inv_def request_inv_def stage_inv_def searched_def\<close>)
next
  case (answer xs fl ys p cs final r)
  have "request_inv sha256 cf fl" "sv_validator S \<in> set (seen_validators fl)"
    using assms(2) answer(2) by (auto simp: service_inv_def)
  then have "answer_inv sha256 cf fl r"
    using answer(3,4) unfolding answer_inv_def request_inv_def stage_inv_def by (simp add: Let_def) blast
  then show ?thesis unfolding answer(1) by (rule service_inv_answered [OF assms(2) answer(2)])
qed

lemma booted_inv:
  assumes "schedule_reachable sha256 (sv_schedule S)" "app_reachable (sv_app S)" "sv_validator S = snd (NewServer cf rdb)"
    and "sv_inflight S = []" "sv_answered S = []" "config_problems cf = []"
  shows "service_inv sha256 cf S"
  using assms validator_of_config [of cf rdb] by (simp add: service_inv_def config_problems_Nil)

lemma serving_inv: "serving sha256 opts dec cf rdb S \<Longrightarrow> config_problems cf = [] \<Longrightarrow> service_inv sha256 cf S"
  by (induction rule: serving.induct) (auto intro: booted_inv service_step_inv)

lemma check_stations_OK: "check_stations cf q buf = Inl r \<Longrightarrow> r \<noteq> SearchOK b"
  by (auto simp: check_stations_def split: sum.splits if_splits)

lemma validated_handled:
  assumes "searched cf fl p cs"
  shows "\<exists>b' v'. handleSearch cf (fl_query fl) (fl_env fl) v = (SearchOK b', v') \<and> paths b' = validated (fl_env fl) p cs v"
  using assms by (auto simp: searched_def handleSearch_pieces validated_def respond_def split: prod.splits)

section \<open>Properties\<close>


text \<open>A request over the sample schedule with a notification between two of its steps.\<close>

definition sample_service :: service where
  "sample_service =
     \<lparr>sv_schedule = sample_state, sv_watcher = init_watcher, sv_syncer = NewSyncer demo_config, sv_app = MarkReady init_app,
      sv_backoff = 1, sv_validator = snd (NewServer sample_config True), sv_inflight = [], sv_answered = []\<rparr>"

definition sample_fl :: "stage \<Rightarrow> inflight" where
  "sample_fl stg = \<lparr>fl_query = sample_query, fl_stage = stg, fl_env = sample_request, seen_routes = [sample_buffer], seen_signals = [[]],
     seen_validators = [snd (NewServer sample_config True)]\<rparr>"

lemma sample_pieces:
  "check_stations sample_config sample_query sample_buffer = Inr sample_params"
  "candidates_of sample_config sample_params sample_request = [sample_path]"
proof -
  have "stationKnown sample_buffer (Origin sample_params)" "stationKnown sample_buffer (Destination sample_params)"
    by (simp_all add: stationKnown_def sample_buffer_def sample_params_def)
  then show "check_stations sample_config sample_query sample_buffer = Inr sample_params"
    by (simp add: check_stations_def sample_parse)
  show "candidates_of sample_config sample_params sample_request = [sample_path]"
    by (simp add: candidates_of_def sample_request_def sample_search sample_config_fields)
qed

text \<open>Its validation is admitted, sends one MGET and confirms the journey.\<close>

abbreviation sample_validator :: validator where
  "sample_validator \<equiv> snd (NewServer sample_config True)"

lemma sample_begins: "\<exists>chunk. begin_validation id 0 [sample_path] sample_validator = (Inr [chunk], sample_validator)"
  by (simp add: begin_validation_def NewServer_def NewValidator_def validator_config_of_def sample_config_fields
      sample_path_def seat_keys_def needs_seat_def WalkRouteID_def add_new_def Allow_def New_def chunks.simps
      leg_key_def SeatMapKey_def Let_def)

lemma sample_validated: "validated sample_request sample_params [sample_path] sample_validator = [sample_path]"
proof -
  have "SeatClass sample_params = ''SL''" "Passengers sample_params = 1" "rq_iter sample_request = id"
    "rq_now sample_request = 0" "rq_later sample_request = 0"
    by (simp_all add: sample_params_def sample_request_def)
  with sample_validate show ?thesis by (simp add: validated_def)
qed

lemma sample_served:
  "\<exists>S fl b. serving id DefaultLoadOptions sample_dec sample_config True S \<and> (fl, SearchOK b) \<in> set (sv_answered S) \<and>
     fl_env fl = sample_request \<and> paths b = [sample_path]"
proof -
  let ?step = "service_step id DefaultLoadOptions sample_dec sample_config"
  let ?seen = "\<lambda>n stg. sample_fl stg\<lparr>seen_routes := replicate n sample_buffer, seen_signals := replicate n [], seen_validators := replicate n sample_validator\<rparr>"
  let ?S1 = "sample_service\<lparr>sv_inflight := [sample_fl Arrived]\<rparr>"
  let ?S2 = "sample_service\<lparr>sv_inflight := [sample_fl (Checked sample_params)]\<rparr>"
  let ?S3 = "sample_service\<lparr>sv_watcher := init_watcher\<lparr>pending := True\<rparr>, sv_inflight := [?seen 2 (Checked sample_params)]\<rparr>"
  let ?S4 = "?S3\<lparr>sv_inflight := [?seen 2 (HasSignals sample_params)]\<rparr>"
  let ?S5 = "?S3\<lparr>sv_inflight := [?seen 2 (Searched sample_params [sample_path])]\<rparr>"
  have two: "replicate 2 x = [x, x]" "replicate 3 x = [x, x, x]" for x :: 'a by (simp_all add: numeral_eq_Suc)
  have live: "live sample_state = sample_buffer" "liveSignal (MarkReady init_app) = []"
    by (simp_all add: sample_live MarkReady_def init_app_def)
  have rq: "sample_request\<lparr>rq_checked := sample_buffer\<rparr> = sample_request" "sample_request\<lparr>rq_live := sample_buffer\<rparr> = sample_request"
    "sample_request\<lparr>rq_signals := []\<rparr> = sample_request" by (simp_all add: sample_request_def)
  have booted: "serving id DefaultLoadOptions sample_dec sample_config True sample_service"
    using app_next [OF app_init, of OpReady] by (intro booted) (simp_all add: sample_service_def sample_state_reachable)
  have 1: "?step sample_service ?S1"
    using arrive [of sample_service "sample_fl Arrived" sample_query sample_request]
    by (simp add: sample_service_def sample_fl_def live) (simp add: MarkReady_def IsReady_def)
  have 2: "?step ?S1 ?S2"
    using check [of ?S1 "[]" "sample_fl Arrived" "[]" sample_config sample_params "sample_fl (Checked sample_params)"]
    by (simp add: sample_service_def sample_fl_def live rq sample_pieces(1))
  have 3: "?step ?S2 ?S3"
    using watch [of id DefaultLoadOptions undefined Notification ?S2]
    by (simp add: sample_service_def sample_fl_def live observed_def observe_def two)
  have 4: "?step ?S3 ?S4"
    using read_signals [of ?S3 "[]" "?seen 2 (Checked sample_params)" "[]" sample_params "?seen 2 (HasSignals sample_params)"]
    by (simp add: sample_service_def sample_fl_def live rq)
  have 5: "?step ?S4 ?S5"
    using search [of ?S4 "[]" "?seen 2 (HasSignals sample_params)" "[]" sample_params sample_request "?seen 2 (Searched sample_params [sample_path])" sample_config]
    by (simp add: sample_service_def sample_fl_def live rq sample_pieces(2))
  from sample_begins obtain chunk where "begin_validation id 0 [sample_path] sample_validator = (Inr [chunk], sample_validator)" by blast
  then have bgn: "begin_validation (rq_iter sample_request) (rq_now sample_request) [sample_path] sample_validator = (Inr [chunk], sample_validator)"
    by (simp add: sample_request_def)
  obtain vals where vals: "rq_mget sample_request 0 chunk = Some vals" by (simp add: sample_request_def)
  define cache where "cache = read_chunk (rq_unmarshal sample_request) vals chunk Map.empty"
  obtain final v where pass: "pass_validation cache (SeatClass sample_params) (Passengers sample_params) [sample_path] sample_validator = (final, v)"
    by (metis prod.collapse)
  have "final = [sample_path]"
    using begin_validation_inv [OF bgn, of sample_params] pass admitted_in_step [OF vals]
      admitted_in_passed [of sample_request sample_params "[sample_path]" "0 + 1" cache sample_validator sample_validator]
    by (simp add: sample_validated cache_def)
  let ?S6 = "?S3\<lparr>sv_inflight := [?seen 3 (Fetching sample_params [sample_path] 0 [chunk] Map.empty)]\<rparr>"
  let ?S7 = "?S3\<lparr>sv_inflight := [?seen 3 (Fetching sample_params [sample_path] (0 + 1) [] cache)]\<rparr>"
  let ?fl = "observe sample_buffer [] v (?seen 3 (Validated sample_params [sample_path] final))"
  let ?S8 = "?S3\<lparr>sv_validator := v, sv_inflight := [?fl]\<rparr>"
  have 6: "?step ?S5 ?S6"
    using validate [of ?S5 "[]" "?seen 2 (Searched sample_params [sample_path])" "[]" sample_params "[sample_path]" "Inr [chunk]" sample_validator _
        id DefaultLoadOptions sample_dec sample_config, OF _ _ _ refl] bgn
    by (simp add: sample_service_def sample_fl_def live observed_def observe_def two)
  have 7: "?step ?S6 ?S7"
    using fetch [of ?S6 "[]" "?seen 3 (Fetching sample_params [sample_path] 0 [chunk] Map.empty)" "[]" sample_params "[sample_path]" 0 chunk "[]" Map.empty vals _
        id DefaultLoadOptions sample_dec sample_config, OF _ _ _ refl] vals
    by (simp add: sample_service_def sample_fl_def cache_def)
  have 8: "?step ?S7 ?S8"
    using fetched [of ?S7 "[]" "?seen 3 (Fetching sample_params [sample_path] (0 + 1) [] cache)" "[]" sample_params "[sample_path]" "0 + 1" cache final v _
        id DefaultLoadOptions sample_dec sample_config, OF _ _ _ refl] pass
    by (simp add: sample_service_def sample_fl_def live observed_def observe_def)
  let ?r = "respond sample_params [sample_path] final (Status (rq_end sample_request) v)"
  let ?S9 = "?S8\<lparr>sv_inflight := [], sv_answered := [(?fl, ?r)]\<rparr>"
  have 9: "?step ?S8 ?S9"
    using answer [of ?S8 "[]" ?fl "[]" sample_params "[sample_path]" final _ id DefaultLoadOptions sample_dec sample_config, OF _ _ refl]
    by (simp add: sample_service_def sample_fl_def observe_def)
  have "serving id DefaultLoadOptions sample_dec sample_config True ?S9"
    by (rule stepped [OF stepped [OF stepped [OF stepped [OF stepped [OF stepped [OF stepped [OF stepped [OF stepped [OF booted 1] 2] 3] 4] 5] 6] 7] 8] 9])
  then show ?thesis
    by (intro exI [of _ ?S9] exI [of _ ?fl]) (auto simp: sample_fl_def observe_def respond_def \<open>final = [sample_path]\<close>)
qed


end
