(* ===== verification/Seat_Pipeline.thy ===== *)
theory Seat_Pipeline
  imports Seat_Gate Syncer_Properties
begin

text \<open>
  The seats from the workers to the signals, with both sides running: any number of poll workers send the script
  of \<^verbatim>\<open>luagate.go\<close> to Redis while \<^verbatim>\<open>RefreshLoop\<close> of \<^verbatim>\<open>refresher.go\<close> reads the stream, the
  oldest entry and the seats, each command at a moment of its own. The statements keep a history of all entries ever added,
  because the stream is trimmed.
\<close>

text \<open>An entry names a trip and date.\<close>

definition names_trip :: "stream_entry \<Rightarrow> trip_key \<Rightarrow> bool" where
  "names_trip x k \<longleftrightarrow> map_of (snd x) ''trip'' = Some (SeatTripDate (TripID k) (Date k))"

definition newest_reply :: "stream_entry list \<Rightarrow> string option" where
  "newest_reply es = (if es = [] then None else Some (fst (last es)))"

section \<open>The workers\<close>

text \<open>
  Redis with the history. IDs grow and are never 0-0; what the stream holds is an end of the history, and a
  stream that had entries has some left.
\<close>

definition history_ok :: "stream_entry list \<Rightarrow> bool" where
  "history_ok hist \<longleftrightarrow> sorted_wrt (\<lambda>x y. id_of x < id_of y) hist \<and> (\<forall>x \<in> set hist. (0, 0) < id_of x)"

definition stream_ok :: "'r redis_ops \<Rightarrow> 'r \<times> stream_entry list \<Rightarrow> bool" where
  "stream_ok R w \<longleftrightarrow>
     history_ok (snd w) \<and> (\<exists>trimmed. snd w = trimmed @ entries R DirtyStreamKey (fst w)) \<and>
     (entries R DirtyStreamKey (fst w) = [] \<longrightarrow> snd w = [])"

text \<open>A worker runs the script, whose reply may be lost, or some command touches neither seats nor stream.\<close>

inductive worker_step :: "'r redis_ops \<Rightarrow> (string \<Rightarrow> string) \<Rightarrow> (seat_map \<Rightarrow> string) \<Rightarrow>
    'r \<times> stream_entry list \<Rightarrow> 'r \<times> stream_entry list \<Rightarrow> bool"
  for R sha256 marshal where
  gate: "luaGate R sha256 marshal ts run t d seats r = (res, r') \<Longrightarrow> t \<noteq> [] \<Longrightarrow> ValidDate d \<Longrightarrow>
    new = (if run = ScriptNotRun \<or> GET R (SeatHashKey t d) r = Some (canonicalHash sha256 seats) then []
           else [last (entries R DirtyStreamKey r')]) \<Longrightarrow> history_ok (hist @ new) \<Longrightarrow>
    worker_step R sha256 marshal (r, hist) (r', hist @ new)"
| other: "\<forall>t d. GET R (SeatMapKey t d) r' = GET R (SeatMapKey t d) r \<Longrightarrow>
    entries R DirtyStreamKey r' = entries R DirtyStreamKey r \<Longrightarrow> worker_step R sha256 marshal (r, hist) (r', hist)"

abbreviation workers where "workers R sha256 marshal \<equiv> (worker_step R sha256 marshal)\<^sup>*\<^sup>*"

text \<open>Trips as the gate writes them.\<close>

definition trip_ok :: "trip_key \<Rightarrow> bool" where
  "trip_ok k \<longleftrightarrow> TripID k \<noteq> [] \<and> ValidDate (Date k)"

text \<open>How much has been trimmed; what happens between two moments: the history grows, trimming proceeds, and every trip
  whose seats differ is named by a new entry.\<close>

definition trimmed :: "'r redis_ops \<Rightarrow> 'r \<times> stream_entry list \<Rightarrow> nat" where
  "trimmed R w = length (snd w) - length (entries R DirtyStreamKey (fst w))"

definition announced :: "'r redis_ops \<Rightarrow> 'r \<times> stream_entry list \<Rightarrow> 'r \<times> stream_entry list \<Rightarrow> bool" where
  "announced R w w' \<longleftrightarrow>
     trimmed R w \<le> trimmed R w' \<and>
     (\<exists>new. snd w' = snd w @ new \<and>
        (\<forall>k. trip_ok k \<longrightarrow> GET R (SeatMapKey (TripID k) (Date k)) (fst w') = GET R (SeatMapKey (TripID k) (Date k)) (fst w) \<or>
           (\<exists>x \<in> set new. names_trip x k)))"

lemma announced_trans: "announced R a b \<Longrightarrow> announced R b c \<Longrightarrow> announced R a c"
proof -
  assume ab: "announced R a b" and bc: "announced R b c"
  from ab obtain new where new: "snd b = snd a @ new" "\<And>k. trip_ok k \<Longrightarrow>
      GET R (SeatMapKey (TripID k) (Date k)) (fst b) = GET R (SeatMapKey (TripID k) (Date k)) (fst a) \<or> (\<exists>x \<in> set new. names_trip x k)"
    by (auto simp: announced_def)
  from bc obtain new' where new': "snd c = snd b @ new'" "\<And>k. trip_ok k \<Longrightarrow>
      GET R (SeatMapKey (TripID k) (Date k)) (fst c) = GET R (SeatMapKey (TripID k) (Date k)) (fst b) \<or> (\<exists>x \<in> set new'. names_trip x k)"
    by (auto simp: announced_def)
  show ?thesis
    unfolding announced_def
  proof (intro conjI exI [of _ "new @ new'"] allI impI)
    show "trimmed R a \<le> trimmed R c" using ab bc by (simp add: announced_def)
    fix k assume k: "trip_ok k"
    from new(2) [OF k] new'(2) [OF k] show "GET R (SeatMapKey (TripID k) (Date k)) (fst c) = GET R (SeatMapKey (TripID k) (Date k)) (fst a) \<or>
      (\<exists>x \<in> set (new @ new'). names_trip x k)" by auto
  qed (simp add: new(1) new'(1))
qed

lemma seat_map_key_inject: "trip_ok k \<Longrightarrow> ValidDate d \<Longrightarrow> SeatMapKey (TripID k) (Date k) = SeatMapKey t d \<longleftrightarrow> k = TripKey t d"
  using seat_keys_injective [of "Date k" d "TripID k" t] by (cases k) (auto simp: trip_ok_def)

lemma seat_map_key_others:
  "SeatMapKey t d \<noteq> SeatHashKey t' d'" "SeatMapKey t d \<noteq> SeatTSKey t' d'" "SeatMapKey t d \<noteq> DirtyStreamKey"
  by (simp_all add: SeatMapKey_def SeatHashKey_def SeatTSKey_def DirtyStreamKey_def)

text \<open>The script on the seats of all trips and on the stream.\<close>

lemma luaGate_stream:
  assumes "redis_laws R" "luaGate R sha256 marshal ts run t d seats r = (res, r')"
  shows "if run = ScriptNotRun \<or> GET R (SeatHashKey t d) r = Some (canonicalHash sha256 seats)
    then entries R DirtyStreamKey r' = entries R DirtyStreamKey r \<and> (\<forall>t' d'. GET R (SeatMapKey t' d') r' = GET R (SeatMapKey t' d') r)
    else (\<exists>n eid. n \<le> length (entries R DirtyStreamKey r) \<and>
        entries R DirtyStreamKey r' = drop n (entries R DirtyStreamKey r) @ [(eid, [(''trip'', SeatTripDate t d), (''changed_at'', ts)])]) \<and>
      (\<forall>t' d'. SeatMapKey t' d' \<noteq> SeatMapKey t d \<longrightarrow> GET R (SeatMapKey t' d') r' = GET R (SeatMapKey t' d') r)"
proof -
  note laws = GET_SET [OF assms(1)] GET_XADD [OF assms(1)] entries_SET [OF assms(1)]
  note keys = gate_keys_differ [of t d] gate_keys_differ [of t d, symmetric] seat_map_key_others
  have "\<exists>n eid. n \<le> length (entries R DirtyStreamKey r) \<and>
      entries R DirtyStreamKey (XADD R DirtyStreamKey f (SET R (SeatHashKey t d) h (SET R (SeatMapKey t d) j r))) =
        drop n (entries R DirtyStreamKey r) @ [(eid, f)]" for f h j
    using entries_XADD [OF assms(1), of DirtyStreamKey "SET R (SeatHashKey t d) h (SET R (SeatMapKey t d) j r)" f]
    by (simp add: laws keys)
  then show ?thesis
    using assms(2) by (cases run) (auto simp: luaGate_def seat_gate_def laws keys Let_def)
qed

lemma worker_step_announced:
  assumes "redis_laws R" "worker_step R sha256 marshal w w'" "stream_ok R w"
  shows "stream_ok R w' \<and> announced R w w'"
  using assms(2)
proof cases
  case (gate ts run t d seats r res r' new hist)
  from assms(3) gate(1) obtain D where D: "hist = D @ entries R DirtyStreamKey r" by (auto simp: stream_ok_def)
  note st = luaGate_stream [OF assms(1) gate(3)]
  show ?thesis
  proof (cases "run = ScriptNotRun \<or> GET R (SeatHashKey t d) r = Some (canonicalHash sha256 seats)")
    case True
    with st gate(6) have "new = []" "entries R DirtyStreamKey r' = entries R DirtyStreamKey r"
      "\<And>t' d'. GET R (SeatMapKey t' d') r' = GET R (SeatMapKey t' d') r" by auto
    with assms(3) gate(1,2) show ?thesis by (simp add: stream_ok_def announced_def trimmed_def)
  next
    case False
    with st obtain n eid where n: "n \<le> length (entries R DirtyStreamKey r)"
      and es: "entries R DirtyStreamKey r' = drop n (entries R DirtyStreamKey r) @ [(eid, [(''trip'', SeatTripDate t d), (''changed_at'', ts)])]"
      and others: "\<And>t' d'. SeatMapKey t' d' \<noteq> SeatMapKey t d \<Longrightarrow> GET R (SeatMapKey t' d') r' = GET R (SeatMapKey t' d') r" by auto
    with False gate(6) have new: "new = [(eid, [(''trip'', SeatTripDate t d), (''changed_at'', ts)])]" by auto
    have "hist @ new = (D @ take n (entries R DirtyStreamKey r)) @ entries R DirtyStreamKey r'" by (simp add: D es new)
    then have "\<exists>D'. hist @ new = D' @ entries R DirtyStreamKey r'" by (rule exI)
    moreover have "entries R DirtyStreamKey r' \<noteq> []" by (simp add: es)
    ultimately have "stream_ok R w'" unfolding stream_ok_def gate(2) using gate(7) by simp
    moreover have "GET R (SeatMapKey (TripID k) (Date k)) r' = GET R (SeatMapKey (TripID k) (Date k)) r \<or> (\<exists>x \<in> set new. names_trip x k)"
      if "trip_ok k" for k
      using others [of "TripID k" "Date k"] seat_map_key_inject [OF that gate(5), of t] by (auto simp: new names_trip_def)
    moreover have "trimmed R w \<le> trimmed R w'" using n by (simp add: trimmed_def gate(1,2) D es new)
    ultimately show ?thesis using gate(1,2) by (auto simp: announced_def)
  qed
next
  case (other r' r hist)
  with assms(3) show ?thesis by (simp add: stream_ok_def announced_def trimmed_def)
qed

lemma workers_announced:
  assumes "redis_laws R" "workers R sha256 marshal w w'" "stream_ok R w"
  shows "stream_ok R w' \<and> announced R w w'"
  using assms(2)
proof (induction rule: rtranclp_induct)
  case base
  then show ?case using assms(3) by (simp add: announced_def)
next
  case (step w1 w2)
  with worker_step_announced [OF assms(1) step(2)] show ?case by (blast intro: announced_trans)
qed

section \<open>Reading the seats\<close>

text \<open>The seats in a reply, as \<open>fetchSignals\<close> takes them.\<close>

definition seat_classes :: "decoders \<Rightarrow> redis_value \<Rightarrow> seat_map option" where
  "seat_classes dec v = (case v of RedisText raw \<Rightarrow> if raw = [] then None else unmarshal dec raw | _ \<Rightarrow> None)"

abbreviation seats_in :: "decoders \<Rightarrow> 'r redis_ops \<Rightarrow> 'r \<Rightarrow> trip_key \<Rightarrow> seat_map option" where
  "seats_in dec R r k \<equiv> seat_classes dec (map_val (redis_lookup R r) k)"

lemma signal_of_classes:
  "signal_of dec routes now zclock k mv tv = Inr sig \<Longrightarrow> map_option ByClass sig = seat_classes dec mv"
  by (auto simp: signal_of_def seat_classes_def Let_def split: redis_value.splits option.splits if_splits)

lemma fold_signals_success:
  "fold_signals h ks out = Inr out' \<Longrightarrow> gm_ok out \<Longrightarrow> distinct ks \<Longrightarrow>
   gm_ok out' \<and> (\<forall>k. k \<notin> set ks \<longrightarrow> map_of out' k = map_of out k) \<and>
   (\<forall>k \<in> set ks. \<exists>sig. h k = Inr sig \<and> map_of out' k = (if sig = None then map_of out k else sig))"
proof (induction h ks out rule: fold_signals.induct)
  case (2 h k ks out)
  then obtain sig where sig: "h k = Inr sig" by (auto split: sum.splits)
  show ?case
  proof (cases sig)
    case None
    with 2 sig show ?thesis by fastforce
  next
    case (Some x)
    with 2 sig have IH: "gm_ok out' \<and> (\<forall>k'. k' \<notin> set ks \<longrightarrow> map_of out' k' = map_of (gm_put k x out) k') \<and>
        (\<forall>k' \<in> set ks. \<exists>sig. h k' = Inr sig \<and> map_of out' k' = (if sig = None then map_of (gm_put k x out) k' else sig))"
      by (simp add: gm_ok_put)
    have put: "map_of (gm_put k x out) k' = (if k' = k then Some x else map_of out k')" for k' by (simp add: gomap_simps)
    from 2(5) have k: "k \<notin> set ks" by simp
    show ?thesis
    proof (intro conjI allI ballI impI)
      fix k' assume k': "k' \<in> set (k # ks)"
      show "\<exists>sig. h k' = Inr sig \<and> map_of out' k' = (if sig = None then map_of out k' else sig)"
      proof (cases "k' = k")
        case False
        with k' IH obtain sig' where "h k' = Inr sig'" "map_of out' k' = (if sig' = None then map_of (gm_put k x out) k' else sig')" by auto
        with False show ?thesis by (intro exI [of _ sig']) (simp add: put)
      qed (use IH k sig Some in \<open>simp add: put\<close>)
    qed (use IH k in \<open>simp_all add: put\<close>)
  qed
qed simp

text \<open>Each trip of a fetch has the seats of one of the moments at which the pipelines were answered.\<close>

definition replies_from :: "'r redis_ops \<Rightarrow> 'r set \<Rightarrow> pipeline \<Rightarrow> bool" where
  "replies_from R A pipe \<longleftrightarrow>
     (\<forall>j mk tk mv tv. pipe j mk tk = Some (mv, tv) \<longrightarrow>
        (\<exists>a \<in> A. \<exists>b \<in> A. mv = map (redis_lookup R a) mk \<and> tv = map (redis_lookup R b) tk))"

lemma fetch_chunks_seats:
  assumes "fetch_signal_chunks (signal_of dec routes now zclock) pipe j cs out = Inr out'" "replies_from R A pipe"
    and "gm_ok out" "distinct (concat cs)" "\<And>k. k \<in> set (concat cs) \<Longrightarrow> map_of out k = None"
  shows "gm_ok out' \<and> (\<forall>k. k \<notin> set (concat cs) \<longrightarrow> map_of out' k = map_of out k) \<and>
    (\<forall>k \<in> set (concat cs). \<exists>a \<in> A. map_option ByClass (map_of out' k) = seats_in dec R a k)"
  using assms(1,3-5)
proof (induction cs arbitrary: j out)
  case (Cons c cs)
  let ?sig = "signal_of dec routes now zclock"
  from Cons.prems(1) obtain mv tv mid where
    reply: "pipe j (map (\<lambda>k. SeatMapKey (TripID k) (Date k)) c) (map (\<lambda>k. SeatTSKey (TripID k) (Date k)) c) = Some (mv, tv)"
    and read: "read_signals ?sig mv tv 0 c out = Inr mid" and rest: "fetch_signal_chunks ?sig pipe (j + 1) cs mid = Inr out'"
    by (auto split: option.splits sum.splits)
  from assms(2) reply obtain a b where ab: "a \<in> A" "mv = map (redis_lookup R a) (map (\<lambda>k. SeatMapKey (TripID k) (Date k)) c)"
    "tv = map (redis_lookup R b) (map (\<lambda>k. SeatTSKey (TripID k) (Date k)) c)" unfolding replies_from_def by blast
  have "read_signals ?sig mv tv 0 c out = fold_signals (\<lambda>k. ?sig k (map_val (redis_lookup R a) k) (ts_val (redis_lookup R b) k)) c out"
    by (rule read_signals_fold) (simp add: ab val_at_def)
  with read have "fold_signals (\<lambda>k. ?sig k (map_val (redis_lookup R a) k) (ts_val (redis_lookup R b) k)) c out = Inr mid" by simp
  from fold_signals_success [OF this Cons.prems(2)] Cons.prems(3) have mid: "gm_ok mid"
    "\<And>k. k \<notin> set c \<Longrightarrow> map_of mid k = map_of out k"
    "\<And>k. k \<in> set c \<Longrightarrow> \<exists>sig. ?sig k (map_val (redis_lookup R a) k) (ts_val (redis_lookup R b) k) = Inr sig \<and>
        map_of mid k = (if sig = None then map_of out k else sig)" by auto
  have here: "map_option ByClass (map_of mid k) = seats_in dec R a k" if k: "k \<in> set c" for k
  proof -
    from mid(3) [OF k] obtain sig where sig: "?sig k (map_val (redis_lookup R a) k) (ts_val (redis_lookup R b) k) = Inr sig"
      "map_of mid k = (if sig = None then map_of out k else sig)" by blast
    from sig(2) Cons.prems(4) [of k] k have "map_of mid k = sig" by (auto split: if_splits)
    with signal_of_classes [OF sig(1)] show ?thesis by simp
  qed
  have disj: "k \<notin> set c" if "k \<in> set (concat cs)" for k using that Cons.prems(3) by auto
  have "map_of mid k = None" if "k \<in> set (concat cs)" for k
    using mid(2) [OF disj [OF that]] Cons.prems(4) [of k] that by simp
  with Cons.IH [OF rest mid(1)] Cons.prems(3) have IH: "gm_ok out'"
    "\<And>k. k \<notin> set (concat cs) \<Longrightarrow> map_of out' k = map_of mid k"
    "\<And>k. k \<in> set (concat cs) \<Longrightarrow> \<exists>a \<in> A. map_option ByClass (map_of out' k) = seats_in dec R a k" by auto
  show ?case
  proof (intro conjI allI ballI impI)
    fix k assume "k \<in> set (concat (c # cs))"
    then show "\<exists>a \<in> A. map_option ByClass (map_of out' k) = seats_in dec R a k"
      using IH(2) [of k] IH(3) [of k] here [of k] ab(1) disj [of k] by (cases "k \<in> set (concat cs)") auto
  qed (use IH mid(2) in auto)
qed simp

lemma fetchSignals_seats:
  assumes "fetchSignals dec pipe now zclock s routes trips = Inr out" "replies_from R A pipe" "distinct trips" "0 < sc_MGetChunk (sy_cfg s)"
  shows "gm_ok out \<and> (\<forall>k. k \<notin> set trips \<longrightarrow> map_of out k = None) \<and>
    (\<forall>k \<in> set trips. \<exists>a \<in> A. map_option ByClass (map_of out k) = seats_in dec R a k)"
proof (cases "trips = []")
  case False
  with assms(1) have "fetch_signal_chunks (signal_of dec routes now zclock) pipe 0 (chunks (nat (sc_MGetChunk (sy_cfg s))) trips) [] = Inr out"
    by (simp add: fetchSignals_def)
  from fetch_chunks_seats [OF this assms(2)] assms(3,4) show ?thesis by (simp add: concat_chunks)
qed (use assms(1) in \<open>simp add: fetchSignals_def\<close>)

section \<open>Both sides running\<close>

text \<open>
  The world of Redis is the pair of its state and the history. Between two moments \<open>p\<close> and \<open>q\<close> the workers go on;
  a cold start reads the head of the stream, ranges over a trip index, and then reads the seats; an iteration
  reads the stream, unless that fails, at \<open>a\<close>, then its oldest entry, unless that fails, at \<open>b\<close>, and then the seats of the batch
  or those of a cold start.
\<close>

abbreviation moments :: "'r redis_ops \<Rightarrow> (string \<Rightarrow> string) \<Rightarrow> (seat_map \<Rightarrow> string) \<Rightarrow>
    'r \<times> stream_entry list \<Rightarrow> 'r \<times> stream_entry list \<Rightarrow> ('r \<times> stream_entry list) set" where
  "moments R sha256 marshal p q \<equiv> {w. workers R sha256 marshal p w \<and> workers R sha256 marshal w q}"

definition cold_reads :: "'r redis_ops \<Rightarrow> (string \<Rightarrow> string) \<Rightarrow> (seat_map \<Rightarrow> string) \<Rightarrow>
    'r \<times> stream_entry list \<Rightarrow> 'r \<times> stream_entry list \<Rightarrow> cold_env \<Rightarrow> bool" where
  "cold_reads R sha256 marshal p q ce \<longleftrightarrow>
     gm_ok (TripIndex (ce_routes ce)) \<and> (\<forall>keys. mset (ce_iter ce keys) = mset keys) \<and>
     (\<exists>h \<in> moments R sha256 marshal p q.
        (ce_head ce = None \<or> ce_head ce = Some (newest_reply (entries R DirtyStreamKey (fst h)))) \<and>
        replies_from R (fst ` moments R sha256 marshal h q) (ce_pipe ce))"

definition loop_reads :: "'r redis_ops \<Rightarrow> (string \<Rightarrow> string) \<Rightarrow> (seat_map \<Rightarrow> string) \<Rightarrow> syncer \<Rightarrow> 'r \<times> stream_entry list \<Rightarrow>
    'r \<times> stream_entry list \<Rightarrow> 'r \<times> stream_entry list \<Rightarrow> 'r \<times> stream_entry list \<Rightarrow> refresh_env \<Rightarrow> bool" where
  "loop_reads R sha256 marshal s p a b q e \<longleftrightarrow>
     a \<in> moments R sha256 marshal p q \<and> b \<in> moments R sha256 marshal a q \<and>
     (re_xread e = XReadFailed \<or>
      re_xread e = xread_reply (cursor s) (StreamBatch (sy_cfg s)) (entries R DirtyStreamKey (fst a))) \<and>
     (re_oldest e = None \<or> re_oldest e = Some (oldest_reply (entries R DirtyStreamKey (fst b)))) \<and>
     replies_from R (fst ` moments R sha256 marshal b q) (re_pipe e) \<and>
     cold_reads R sha256 marshal b q (re_cold e)"

text \<open>Where the cursor stands: at the beginning, or at an entry.\<close>

definition cursor_ok :: "string \<Rightarrow> stream_entry list \<Rightarrow> bool" where
  "cursor_ok cur hist \<longleftrightarrow> cur = ''0'' \<or> cur \<in> fst ` set hist"

text \<open>
  \<open>missed\<close> is a ghost: that entries may have been passed over. It is set at the start; by a cold start whose snapshot
  fails after it has moved the cursor (\<open>failed_cold_start_skips_entries\<close>); by a batch that is applied although an unread
  entry had been trimmed and the check for lag could not see it, because XRANGE failed or the cursor is at the beginning, where
  \<open>lagged\<close> does not look; by trimming while the cursor is at the beginning; and by a cold start over a schedule that
  lacks some trip of \<open>K\<close>. Every other successful cold start, at boot or in a resync, clears it.
\<close>

record 'r seat_system =
  redis_world :: "'r \<times> stream_entry list"
  the_syncer :: syncer
  the_app :: app_state
  the_backoff :: int
  missed :: bool

definition cold_missed :: "decoders \<Rightarrow> trip_key set \<Rightarrow> cold_env \<Rightarrow> syncer \<Rightarrow> app_state \<Rightarrow> bool \<Rightarrow> bool" where
  "cold_missed dec K ce s app m \<longleftrightarrow>
     (case ColdStart dec ce (s, app) of
        (None, s', app') \<Rightarrow> \<not> K \<subseteq> set (gm_keys (TripIndex (ce_routes ce)))
      | (Some err, s', app') \<Rightarrow> m \<or> cursor s' \<noteq> cursor s)"

definition blind :: "'r redis_ops \<Rightarrow> refresh_env \<Rightarrow> syncer \<Rightarrow> 'r \<times> stream_entry list \<Rightarrow> bool" where
  "blind R e s a \<longleftrightarrow>
     (re_oldest e = None \<or> cursor s = ''0'') \<and>
     (\<exists>x \<in> set (snd a). newer (cursor s) x \<and> x \<notin> set (entries R DirtyStreamKey (fst a)))"

definition loop_missed :: "'r redis_ops \<Rightarrow> decoders \<Rightarrow> trip_key set \<Rightarrow> refresh_env \<Rightarrow> 'r \<times> stream_entry list \<Rightarrow>
    syncer \<Rightarrow> app_state \<Rightarrow> syncer \<Rightarrow> bool \<Rightarrow> bool" where
  "loop_missed R dec K e a s app s' m \<longleftrightarrow>
     (case re_xread e of
        XReadMsgs msgs \<Rightarrow>
          if msgs = [] then m
          else if lagged (re_oldest e) s
          then (if resyncWait (re_wait_now e) s > 0 \<and> re_cancelled e AfterWait then m else cold_missed dec K (re_cold e) s app m)
          else m \<or> cursor s' \<noteq> cursor s \<and> blind R e s a
      | _ \<Rightarrow> m)"

definition lost :: "'r redis_ops \<Rightarrow> syncer \<Rightarrow> 'r \<times> stream_entry list \<Rightarrow> bool" where
  "lost R s w \<longleftrightarrow> cursor s = ''0'' \<and> trimmed R w \<noteq> 0"

text \<open>The runs: a new syncer, then cold starts, workers and iterations of the loop in any order, whatever they come to.\<close>

inductive seat_run :: "'r redis_ops \<Rightarrow> (string \<Rightarrow> string) \<Rightarrow> (seat_map \<Rightarrow> string) \<Rightarrow> decoders \<Rightarrow> trip_key set \<Rightarrow> 'r seat_system \<Rightarrow> bool"
  for R sha256 marshal dec K where
  started: "stream_ok R w \<Longrightarrow> liveSignal app = [] \<Longrightarrow>
    seat_run R sha256 marshal dec K \<lparr>redis_world = w, the_syncer = NewSyncer c, the_app = app, the_backoff = seconds 1, missed = True\<rparr>"
| cold_started: "seat_run R sha256 marshal dec K S \<Longrightarrow> cold_reads R sha256 marshal (redis_world S) q ce \<Longrightarrow>
    ColdStart dec ce (the_syncer S, the_app S) = (err, s, app) \<Longrightarrow>
    seat_run R sha256 marshal dec K (S\<lparr>redis_world := q, the_syncer := s, the_app := app,
      missed := cold_missed dec K ce (the_syncer S) (the_app S) (missed S) \<or> lost R s q\<rparr>)"
| worked: "seat_run R sha256 marshal dec K S \<Longrightarrow> workers R sha256 marshal (redis_world S) q \<Longrightarrow>
    seat_run R sha256 marshal dec K (S\<lparr>redis_world := q, missed := missed S \<or> lost R (the_syncer S) q\<rparr>)"
| iterated: "seat_run R sha256 marshal dec K S \<Longrightarrow> loop_reads R sha256 marshal (the_syncer S) (redis_world S) a b q e \<Longrightarrow>
    refresh_step dec e ((the_syncer S, the_app S), the_backoff S) = Running ((s, app), bo) \<Longrightarrow>
    seat_run R sha256 marshal dec K \<lparr>redis_world = q, the_syncer = s, the_app = app, the_backoff = bo,
      missed = loop_missed R dec K e a (the_syncer S) (the_app S) s (missed S) \<or> lost R s q\<rparr>"

section \<open>The invariant\<close>

text \<open>The signals have the seats that Redis has, or an unread entry names the trip.\<close>

definition covered :: "'r redis_ops \<Rightarrow> decoders \<Rightarrow> 'r \<times> stream_entry list \<Rightarrow> string \<Rightarrow> signal_buffer \<Rightarrow> trip_key \<Rightarrow> bool" where
  "covered R dec w cur live k \<longleftrightarrow>
     seats_in dec R (fst w) k = None \<or> seats_in dec R (fst w) k = map_option ByClass (map_of live k) \<or>
     (\<exists>x \<in> set (snd w). newer cur x \<and> names_trip x k)"

definition seat_base :: "'r redis_ops \<Rightarrow> 'r \<times> stream_entry list \<Rightarrow> syncer \<Rightarrow> app_state \<Rightarrow> bool" where
  "seat_base R w s app \<longleftrightarrow>
     stream_ok R w \<and> cursor_ok (cursor s) (snd w) \<and> (\<exists>c. sy_cfg s = syncer_withDefaults c) \<and> gm_ok (liveSignal app)"

definition all_covered :: "'r redis_ops \<Rightarrow> decoders \<Rightarrow> trip_key set \<Rightarrow> 'r \<times> stream_entry list \<Rightarrow> syncer \<Rightarrow> app_state \<Rightarrow> bool" where
  "all_covered R dec K w s app \<longleftrightarrow> (\<forall>k \<in> K. covered R dec w (cursor s) (liveSignal app) k)"

lemma withDefaults_positive: "0 < sc_MGetChunk (syncer_withDefaults c)" "0 < StreamBatch (syncer_withDefaults c)"
  by (simp_all add: syncer_withDefaults_def Let_def)

text \<open>A later entry is newer than where the cursor stands.\<close>

lemma later_newer:
  assumes "history_ok (hist @ new)" "x \<in> set new" "cursor_ok cur hist"
  shows "newer cur x"
  using assms by (auto simp: history_ok_def cursor_ok_def newer_def sorted_wrt_append splitStreamID_0)

lemma cursor_ok_append: "cursor_ok cur hist \<Longrightarrow> cursor_ok cur (hist @ new)"
  by (auto simp: cursor_ok_def)

text \<open>Seats read at a moment are those of a later one, or an entry after the moment names the trip.\<close>

lemma seats_read_earlier:
  assumes "announced R a q" "stream_ok R q" "trip_ok k" "cursor_ok cur (snd a)"
    and "seats_in dec R (fst a) k \<in> {None, map_option ByClass (map_of live k)}"
  shows "covered R dec q cur live k"
proof -
  from assms(1) obtain new where new: "snd q = snd a @ new" "GET R (SeatMapKey (TripID k) (Date k)) (fst q) = GET R (SeatMapKey (TripID k) (Date k)) (fst a) \<or>
      (\<exists>x \<in> set new. names_trip x k)" using assms(3) unfolding announced_def by blast
  from new(2) show ?thesis
  proof
    assume "GET R (SeatMapKey (TripID k) (Date k)) (fst q) = GET R (SeatMapKey (TripID k) (Date k)) (fst a)"
    then have "seats_in dec R (fst q) k = seats_in dec R (fst a) k" by (simp add: redis_lookup_def)
    with assms(5) show ?thesis by (auto simp: covered_def)
  next
    assume "\<exists>x \<in> set new. names_trip x k"
    moreover have "newer cur x" if "x \<in> set new" for x
      using assms(2,4) that by (auto simp: stream_ok_def new(1) intro: later_newer)
    ultimately show ?thesis by (auto simp: covered_def new(1))
  qed
qed

lemma covered_later:
  assumes "announced R w q" "stream_ok R q" "trip_ok k" "cursor_ok cur (snd w)" "covered R dec w cur live k"
  shows "covered R dec q cur live k"
proof (cases "\<exists>x \<in> set (snd w). newer cur x \<and> names_trip x k")
  case True
  with assms(1) show ?thesis by (auto simp: announced_def covered_def)
next
  case False
  with assms(5) have "seats_in dec R (fst w) k \<in> {None, map_option ByClass (map_of live k)}" by (auto simp: covered_def)
  with assms(1-4) show ?thesis by (rule seats_read_earlier)
qed

lemma seat_base_later: "seat_base R w s app \<Longrightarrow> announced R w q \<Longrightarrow> stream_ok R q \<Longrightarrow> seat_base R q s app"
  by (auto simp: seat_base_def announced_def cursor_ok_append)

lemma all_covered_later:
  assumes "seat_base R w s app" "all_covered R dec K w s app" "announced R w q" "stream_ok R q" "\<forall>k \<in> K. trip_ok k"
  shows "all_covered R dec K q s app"
  using assms covered_later [OF assms(3,4)] by (auto simp: all_covered_def seat_base_def)

section \<open>Cold starts and iterations\<close>

lemma momentsD:
  assumes "redis_laws R" "stream_ok R p" "w \<in> moments R sha256 marshal p q"
  shows "stream_ok R w" "announced R p w" "stream_ok R q" "announced R w q"
proof -
  from assms(3) have ws: "workers R sha256 marshal p w" "workers R sha256 marshal w q" by simp_all
  from workers_announced [OF assms(1) ws(1) assms(2)] show w: "stream_ok R w" "announced R p w" by simp_all
  from workers_announced [OF assms(1) ws(2) w(1)] show "stream_ok R q" "announced R w q" by simp_all
qed

lemma announced_cursor: "announced R p w \<Longrightarrow> cursor_ok cur (snd p) \<Longrightarrow> cursor_ok cur (snd w)"
  by (auto simp: announced_def cursor_ok_append)

text \<open>A cold start, whatever it comes to, leaves the cursor at an entry or where it was.\<close>

lemma cold_start_base:
  assumes "redis_laws R" "seat_base R p s app" "cold_reads R sha256 marshal p q ce" "ColdStart dec ce (s, app) = (err, s', app')"
  shows "seat_base R q s' app'"
proof -
  from assms(2) have p: "stream_ok R p" "cursor_ok (cursor s) (snd p)" by (simp_all add: seat_base_def)
  from assms(3) obtain h where h: "h \<in> moments R sha256 marshal p q"
    "ce_head ce = None \<or> ce_head ce = Some (newest_reply (entries R DirtyStreamKey (fst h)))" unfolding cold_reads_def by blast
  note hD = momentsD [OF assms(1) p(1) h(1)]
  have same: "seat_base R q s app" by (rule seat_base_later [OF assms(2) announced_trans [OF hD(2,4)] hD(3)])
  show ?thesis
  proof (cases "ce_head ce")
    case None
    with assms(4) same show ?thesis by (auto simp: ColdStart_def)
  next
    case (Some head)
    let ?es = "entries R DirtyStreamKey (fst h)"
    define s1 where "s1 = (case newest_reply ?es of None \<Rightarrow> s | Some eid \<Rightarrow> setCursor eid s)"
    have "set ?es \<subseteq> set (snd h)" using hD(1) by (auto simp: stream_ok_def)
    then have "fst (last ?es) \<in> fst ` set (snd h)" if "?es \<noteq> []" using last_in_set [OF that] by blast
    with announced_cursor [OF hD(2) p(2)] have "cursor_ok (cursor s1) (snd h)"
      by (cases "?es = []") (simp_all add: s1_def newest_reply_def setCursor_def cursor_ok_def)
    then have "cursor_ok (cursor s1) (snd q)" by (rule announced_cursor [OF hD(4)])
    moreover have "sy_cfg s1 = sy_cfg s" by (simp add: s1_def setCursor_def split: option.splits)
    ultimately have base: "seat_base R q s1 app" using same by (simp add: seat_base_def)
    show ?thesis
    proof (cases "fetchSignals dec (ce_pipe ce) (ce_now ce) (ce_zclock ce) s1 (ce_routes ce) (ce_iter ce (gm_keys (TripIndex (ce_routes ce))))")
      case (Inl x)
      with assms(4) Some h(2) base show ?thesis by (auto simp: ColdStart_def s1_def Let_def)
    next
      case (Inr staging)
      with assms(4) Some h(2) have "s' = markResynced (ce_resynced ce) s1" "app' = SwapSignal (ce_swapped ce) staging app"
        by (auto simp: ColdStart_def s1_def Let_def)
      with base fetchSignals_gm_ok [OF Inr] show ?thesis by (simp add: seat_base_def markResynced_def SwapSignal_eq)
    qed
  qed
qed

lemma cold_start_covers:
  assumes "redis_laws R" "seat_base R p s app" "cold_reads R sha256 marshal p q ce" "\<forall>k \<in> K. trip_ok k"
    and "K \<subseteq> set (gm_keys (TripIndex (ce_routes ce)))" "ColdStart dec ce (s, app) = (None, s', app')"
  shows "all_covered R dec K q s' app'"
proof -
  from assms(2) have p: "stream_ok R p" "cursor_ok (cursor s) (snd p)" "\<exists>c. sy_cfg s = syncer_withDefaults c" by (simp_all add: seat_base_def)
  from assms(3) obtain h where h: "h \<in> moments R sha256 marshal p q"
    "ce_head ce = None \<or> ce_head ce = Some (newest_reply (entries R DirtyStreamKey (fst h)))"
    "replies_from R (fst ` moments R sha256 marshal h q) (ce_pipe ce)" unfolding cold_reads_def by blast
  note hD = momentsD [OF assms(1) p(1) h(1)]
  let ?es = "entries R DirtyStreamKey (fst h)" and ?keys = "ce_iter ce (gm_keys (TripIndex (ce_routes ce)))"
  define s1 where "s1 = (case newest_reply ?es of None \<Rightarrow> s | Some eid \<Rightarrow> setCursor eid s)"
  have head: "ce_head ce = Some (newest_reply ?es)" using h(2) assms(6) by (auto simp: ColdStart_def)
  with assms(6) obtain staging where fetch: "fetchSignals dec (ce_pipe ce) (ce_now ce) (ce_zclock ce) s1 (ce_routes ce) ?keys = Inr staging"
    and s': "s' = markResynced (ce_resynced ce) s1" "app' = SwapSignal (ce_swapped ce) staging app"
    by (auto simp: ColdStart_def s1_def Let_def split: sum.splits)
  have cfg: "sy_cfg s1 = sy_cfg s" by (simp add: s1_def setCursor_def split: option.splits)
  have "set ?es \<subseteq> set (snd h)" using hD(1) by (auto simp: stream_ok_def)
  then have "fst (last ?es) \<in> fst ` set (snd h)" if "?es \<noteq> []" using last_in_set [OF that] by blast
  with announced_cursor [OF hD(2) p(2)] have cur: "cursor_ok (cursor s1) (snd h)"
    by (cases "?es = []") (simp_all add: s1_def newest_reply_def setCursor_def cursor_ok_def)
  from assms(3) have "mset ?keys = mset (gm_keys (TripIndex (ce_routes ce)))" "distinct (gm_keys (TripIndex (ce_routes ce)))"
    by (simp_all add: cold_reads_def gm_ok_def gm_keys_def)
  then have keys: "distinct ?keys" "K \<subseteq> set ?keys" by (metis mset_eq_imp_distinct_iff, metis assms(5) mset_eq_setD)
  have "0 < sc_MGetChunk (sy_cfg s1)" using p(3) withDefaults_positive by (auto simp: cfg)
  note seats = fetchSignals_seats [OF fetch h(3) keys(1) this]
  have "covered R dec q (cursor s') (liveSignal app') k" if k: "k \<in> K" for k
  proof -
    from keys(2) k have "k \<in> set ?keys" by blast
    with seats obtain w where w: "w \<in> moments R sha256 marshal h q"
      "map_option ByClass (map_of staging k) = seats_in dec R (fst w) k" by blast
    note wD = momentsD [OF assms(1) hD(1) w(1)]
    have "cursor_ok (cursor s') (snd w)" using announced_cursor [OF wD(2) cur] by (simp add: s' markResynced_def)
    moreover have "seats_in dec R (fst w) k \<in> {None, map_option ByClass (map_of (liveSignal app') k)}" by (simp add: s' w(2) SwapSignal_eq)
    ultimately show ?thesis using seats_read_earlier [OF wD(4) hD(3)] assms(4) k by blast
  qed
  then show ?thesis by (simp add: all_covered_def)
qed

text \<open>Without lag, the batch is what follows the cursor, whatever has been trimmed, unless the check was blind.\<close>

lemma unread_after_batch:
  assumes "stream_ok R a" "stream_ok R b" "announced R a b" "stream_ok R q" "announced R a q"
    and "re_oldest e = None \<or> re_oldest e = Some (oldest_reply (entries R DirtyStreamKey (fst b)))" "\<not> lagged (re_oldest e) s" "\<not> blind R e s a"
    and "es = take n (filter (newer (cursor s)) (entries R DirtyStreamKey (fst a)))" "es \<noteq> []"
    and "x \<in> set (snd q)" "newer (cursor s) x"
  shows "x \<in> set es \<or> newer (fst (last es)) x"
proof -
  let ?A = "entries R DirtyStreamKey (fst a)" and ?B = "entries R DirtyStreamKey (fst b)"
  from assms(5) obtain new where q: "snd q = snd a @ new" by (auto simp: announced_def)
  from assms(1) obtain D where D: "snd a = D @ ?A" by (auto simp: stream_ok_def)
  have sorted: "sorted_wrt (\<lambda>x y. id_of x < id_of y) (snd q)" using assms(4) by (simp add: stream_ok_def history_ok_def)
  have dropped: "\<not> newer (cursor s) y" if y: "y \<in> set D" for y
  proof (cases "re_oldest e = None \<or> cursor s = ''0''")
    case True
    show ?thesis
    proof
      assume "newer (cursor s) y"
      with True assms(8) y D have "y \<in> set ?A" unfolding blind_def by (metis Un_iff set_append)
      moreover have "sorted_wrt (\<lambda>x y. id_of x < id_of y) (D @ ?A)" using assms(1) by (simp add: stream_ok_def history_ok_def D)
      ultimately show False using y by (auto simp: sorted_wrt_append)
    qed
  next
    case False
    from assms(3) obtain new' where b: "snd b = snd a @ new'" "trimmed R a \<le> trimmed R b" by (auto simp: announced_def)
    from assms(2) obtain D' where D': "snd b = D' @ ?B" by (auto simp: stream_ok_def)
    have "length D \<le> length D'" using b(2) by (simp add: trimmed_def D D')
    moreover have "D = take (length D) (snd b)" by (simp add: b(1) D)
    ultimately have "D = take (length D) D'" by (simp add: D')
    with y have "y \<in> set D'" by (metis in_set_takeD)
    moreover from y D b(1) assms(2) obtain z zs where z: "?B = z # zs" by (cases ?B) (auto simp: stream_ok_def)
    moreover have "sorted_wrt (\<lambda>x y. id_of x < id_of y) (snd b)" using assms(2) by (simp add: stream_ok_def history_ok_def)
    ultimately have "id_of y < id_of z" by (simp add: D' sorted_wrt_append)
    moreover have "\<not> splitStreamID (cursor s) < id_of z"
      using assms(6,7) False by (auto simp: z oldest_reply_def lagged_def compare_less)
    ultimately show ?thesis by (simp add: newer_def)
  qed
  from assms(9) obtain rest where rest: "filter (newer (cursor s)) ?A = es @ rest" by (metis append_take_drop_id)
  have "set es \<subseteq> set (filter (newer (cursor s)) ?A)" unfolding rest by simp
  moreover have "set ?A \<subseteq> set (snd a)" by (subst D) simp
  ultimately have mem: "last es \<in> set (snd a)" using last_in_set [OF assms(10)] by auto
  from assms(11) q D consider "x \<in> set D" | "x \<in> set ?A" | "x \<in> set new" by auto
  then show ?thesis
  proof cases
    case 1
    with dropped assms(12) show ?thesis by blast
  next
    case 2
    with assms(12) have "x \<in> set (filter (newer (cursor s)) ?A)" by simp
    then have "x \<in> set es \<or> x \<in> set rest" unfolding rest by simp
    moreover have "sorted_wrt (\<lambda>x y. id_of x < id_of y) (es @ rest)"
      using sorted unfolding rest [symmetric] q D by (simp add: sorted_wrt_append sorted_wrt_filter)
    ultimately show ?thesis using assms(10) by (auto simp: sorted_wrt_append newer_def)
  next
    case 3
    with sorted mem show ?thesis by (auto simp: q sorted_wrt_append newer_def)
  qed
qed

lemma names_dirty:
  assumes "x \<in> set es" "names_trip x k" "trip_ok k"
  shows "k \<in> dirty_trips (map msg_of es)"
proof -
  have "ParseSeatTripDate (SeatTripDate (TripID k) (Date k)) = Some k"
    using ParseSeatTripDate_append [OF ValidDate_no_colon, of "Date k" "TripID k"] assms(3) by (simp add: SeatTripDate_def trip_ok_def)
  moreover have "msg_of x \<in> set (map msg_of es)" using assms(1) by simp
  ultimately show ?thesis using assms(2) unfolding dirty_trips_def names_trip_def
    by (intro CollectI bexI [of _ "msg_of x"] exI [of _ "SeatTripDate (TripID k) (Date k)"]) (simp_all add: msg_of_def)
qed

text \<open>An applied batch moves the cursor to an entry newer than where it was.\<close>

lemma batch_moves:
  assumes "redis_laws R" "seat_base R p s app" "a \<in> moments R sha256 marshal p q"
    and "xread_reply (cursor s) (StreamBatch (sy_cfg s)) (entries R DirtyStreamKey (fst a)) = XReadMsgs msgs" "s' = setCursor (msg_ID (last msgs)) s"
  shows "\<exists>es. es = take (nat (StreamBatch (sy_cfg s))) (filter (newer (cursor s)) (entries R DirtyStreamKey (fst a))) \<and>
    msgs = map msg_of es \<and> es \<noteq> [] \<and> cursor s' = fst (last es) \<and> cursor s' \<noteq> cursor s \<and> cursor_ok (cursor s') (snd a)"
proof -
  from assms(2) have p: "stream_ok R p" by (simp add: seat_base_def)
  note aD = momentsD [OF assms(1) p assms(3)]
  define es where "es = take (nat (StreamBatch (sy_cfg s))) (filter (newer (cursor s)) (entries R DirtyStreamKey (fst a)))"
  from assms(4) have msgs: "msgs = map msg_of es" "es \<noteq> []"
    by (auto simp: xread_reply_def es_def [symmetric] split: list.splits)
  have cur': "cursor s' = fst (last es)" using msgs by (simp add: assms(5) setCursor_def last_map msg_of_def)
  have sub: "set es \<subseteq> {x \<in> set (entries R DirtyStreamKey (fst a)). newer (cursor s) x}" unfolding es_def using set_take_subset by fastforce
  then have last: "last es \<in> set (entries R DirtyStreamKey (fst a))" "newer (cursor s) (last es)" using last_in_set [OF msgs(2)] by auto
  then have "last es \<in> set (snd a)" using aD(1) by (auto simp: stream_ok_def)
  then have "cursor_ok (cursor s') (snd a)" by (simp add: cur' cursor_ok_def)
  moreover have "cursor s' \<noteq> cursor s" using last(2) by (auto simp: newer_def cur')
  ultimately show ?thesis using msgs cur' es_def by blast
qed

lemma batch_covers:
  assumes "redis_laws R" "seat_base R p s app" "all_covered R dec K p s app" "\<forall>k \<in> K. trip_ok k"
    and a: "a \<in> moments R sha256 marshal p q" and b: "b \<in> moments R sha256 marshal a q"
    and "re_oldest e = None \<or> re_oldest e = Some (oldest_reply (entries R DirtyStreamKey (fst b)))" "\<not> lagged (re_oldest e) s" "\<not> blind R e s a"
    and "replies_from R (fst ` moments R sha256 marshal b q) (re_pipe e)"
    and "xread_reply (cursor s) (StreamBatch (sy_cfg s)) (entries R DirtyStreamKey (fst a)) = XReadMsgs msgs"
    and "s' = setCursor (msg_ID (last msgs)) s"
    and "if dirty_trips msgs = {} then app' = app
      else \<exists>dirty updates. set dirty = dirty_trips msgs \<and> distinct dirty \<and>
        fetchSignals dec (re_pipe e) (re_now e) (re_zclock e) s (re_routes e) dirty = Inr updates \<and>
        map_of (liveSignal app') = map_of (liveSignal app) ++ map_of updates"
  shows "all_covered R dec K q s' app'"
proof -
  from assms(2) have p: "stream_ok R p" "cursor_ok (cursor s) (snd p)" "\<exists>c. sy_cfg s = syncer_withDefaults c" by (simp_all add: seat_base_def)
  note aD = momentsD [OF assms(1) p(1) a]
  note bD = momentsD [OF assms(1) aD(1) b]
  from batch_moves [OF assms(1,2) a assms(11,12)] obtain es where
    es: "es = take (nat (StreamBatch (sy_cfg s))) (filter (newer (cursor s)) (entries R DirtyStreamKey (fst a)))"
    and msgs: "msgs = map msg_of es" "es \<noteq> []" and cur': "cursor s' = fst (last es)" and cur_a: "cursor_ok (cursor s') (snd a)" by blast
  note unread = unread_after_batch [OF aD(1) bD(1,2) aD(3,4) assms(7-9) es msgs(2)]
  have chunk: "0 < sc_MGetChunk (sy_cfg s)" using p(3) withDefaults_positive by auto
  have "all_covered R dec K q s app"
    by (rule all_covered_later [OF assms(2,3) announced_trans [OF aD(2,4)] aD(3) assms(4)])
  then have old: "covered R dec q (cursor s) (liveSignal app) k" if "k \<in> K" for k using that by (simp add: all_covered_def)
  have "covered R dec q (cursor s') (liveSignal app') k" if k: "k \<in> K" for k
  proof (cases "k \<in> dirty_trips msgs")
    case True
    with assms(13) obtain dirty updates where u: "set dirty = dirty_trips msgs" "distinct dirty"
      "fetchSignals dec (re_pipe e) (re_now e) (re_zclock e) s (re_routes e) dirty = Inr updates"
      "map_of (liveSignal app') = map_of (liveSignal app) ++ map_of updates" by (auto split: if_splits)
    from fetchSignals_seats [OF u(3) assms(10) u(2) chunk] u(1) True obtain w where w: "w \<in> moments R sha256 marshal b q"
      "map_option ByClass (map_of updates k) = seats_in dec R (fst w) k" by blast
    note wD = momentsD [OF assms(1) bD(1) w(1)]
    have "seats_in dec R (fst w) k \<in> {None, map_option ByClass (map_of (liveSignal app') k)}"
      unfolding w(2) [symmetric] u(4) by (cases "map_of updates k") simp_all
    moreover have "cursor_ok (cursor s') (snd w)" using announced_cursor [OF wD(2) announced_cursor [OF bD(2) cur_a]] .
    ultimately show ?thesis using seats_read_earlier [OF wD(4,3)] assms(4) k by blast
  next
    case False
    have live: "map_of (liveSignal app') k = map_of (liveSignal app) k"
    proof (cases "dirty_trips msgs = {}")
      case nonempty: False
      with assms(13) obtain dirty updates where u: "set dirty = dirty_trips msgs" "distinct dirty"
        "fetchSignals dec (re_pipe e) (re_now e) (re_zclock e) s (re_routes e) dirty = Inr updates"
        "map_of (liveSignal app') = map_of (liveSignal app) ++ map_of updates" by auto
      from fetchSignals_seats [OF u(3) assms(10) u(2) chunk] u(1) False have "map_of updates k = None" by auto
      with u(4) show ?thesis by (simp add: map_add_def)
    qed (use assms(13) in simp)
    show ?thesis
    proof (cases "\<exists>x \<in> set (snd q). newer (cursor s) x \<and> names_trip x k")
      case True
      then obtain x where x: "x \<in> set (snd q)" "newer (cursor s) x" "names_trip x k" by blast
      have "x \<notin> set es" using names_dirty [of x es k] x(3) False assms(4) k msgs(1) by blast
      with unread [OF x(1,2)] x show ?thesis by (auto simp: covered_def cur')
    next
      case False
      with old [OF k] show ?thesis by (auto simp: covered_def live)
    qed
  qed
  then show ?thesis by (simp add: all_covered_def)
qed

lemma refresh_keeps_gm_ok:
  assumes "refresh_step dec e ((s, app), b) = Running ((s', app'), b')" "\<not> lagged (re_oldest e) s" "gm_ok (liveSignal app)"
  shows "gm_ok (liveSignal app')"
  using assms merge_signals_map [OF assms(3) fetchSignals_gm_ok]
  by (auto simp: refresh_step_def Let_def SwapSignal_eq LiveSignal_def split: if_splits xread.splits prod.splits sum.splits fetch_error.splits)

lemma lagged_outcome:
  assumes "refresh_step dec e ((s, app), b) = Running ((s', app'), b')" "lagged (re_oldest e) s" "re_xread e = XReadMsgs msgs" "msgs \<noteq> []"
  shows "if resyncWait (re_wait_now e) s > 0 \<and> re_cancelled e AfterWait then s' = s \<and> app' = app
    else \<exists>err s1. ColdStart dec (re_cold e) (s, app) = (err, s1, app') \<and> cursor s' = cursor s1 \<and> sy_cfg s' = sy_cfg s1"
  using assms
  by (auto simp: refresh_step_def resync_def markResynced_def Let_def split: if_splits prod.splits option.splits)

lemma seat_base_cong: "cursor s' = cursor s \<Longrightarrow> sy_cfg s' = sy_cfg s \<Longrightarrow> seat_base R w s' app = seat_base R w s app"
  by (simp add: seat_base_def)

lemma all_covered_cong: "cursor s' = cursor s \<Longrightarrow> all_covered R dec K w s' app = all_covered R dec K w s app"
  by (simp add: all_covered_def)

lemma cold_start_run:
  assumes "redis_laws R" "seat_base R p s app" "\<not> m \<Longrightarrow> all_covered R dec K p s app" "\<forall>k \<in> K. trip_ok k"
    and "cold_reads R sha256 marshal p q ce" "ColdStart dec ce (s, app) = (err, s', app')" "\<not> cold_missed dec K ce s app m"
  shows "all_covered R dec K q s' app'"
proof (cases err)
  case None
  with assms(6,7) have "K \<subseteq> set (gm_keys (TripIndex (ce_routes ce)))" by (simp add: cold_missed_def)
  from cold_start_covers [OF assms(1,2,5,4) this] assms(6) None show ?thesis by blast
next
  case (Some x)
  with assms(6,7) have "\<not> m" and cur: "cursor s' = cursor s" by (auto simp: cold_missed_def)
  moreover have "app' = app" using assms(6) Some by (auto simp: ColdStart_def Let_def split: option.splits sum.splits)
  moreover have "stream_ok R p" using assms(2) by (simp add: seat_base_def)
  moreover from assms(5) obtain h where "h \<in> moments R sha256 marshal p q" unfolding cold_reads_def by blast
  ultimately show ?thesis
    using all_covered_later [OF assms(2) assms(3) announced_trans [OF momentsD(2) momentsD(4)] momentsD(3) assms(4)] assms(1)
      all_covered_cong [OF cur] by blast
qed

text \<open>An iteration keeps what the run knows, unless it passes entries over.\<close>

lemma iteration_run:
  assumes "redis_laws R" "seat_base R p s app" "\<not> m \<Longrightarrow> all_covered R dec K p s app" "\<forall>k \<in> K. trip_ok k"
    and "loop_reads R sha256 marshal s p a b q e" and step: "refresh_step dec e ((s, app), bo) = Running ((s', app'), bo')"
  shows "seat_base R q s' app' \<and> (loop_missed R dec K e a s app s' m \<or> all_covered R dec K q s' app')"
proof -
  from assms(2) have p: "stream_ok R p" "gm_ok (liveSignal app)" by (simp_all add: seat_base_def)
  from assms(5) have a: "a \<in> moments R sha256 marshal p q" and b: "b \<in> moments R sha256 marshal a q"
    and xread: "re_xread e = XReadFailed \<or> re_xread e = xread_reply (cursor s) (StreamBatch (sy_cfg s)) (entries R DirtyStreamKey (fst a))"
    and reads: "re_oldest e = None \<or> re_oldest e = Some (oldest_reply (entries R DirtyStreamKey (fst b)))"
      "replies_from R (fst ` moments R sha256 marshal b q) (re_pipe e)" "cold_reads R sha256 marshal b q (re_cold e)"
    unfolding loop_reads_def by blast+
  note aD = momentsD [OF assms(1) p(1) a]
  note bD = momentsD [OF assms(1) aD(1) b]
  have here: "seat_base R b s app" "\<not> m \<Longrightarrow> all_covered R dec K b s app"
    using seat_base_later [OF assms(2) announced_trans [OF aD(2) bD(2)] bD(1)]
      all_covered_later [OF assms(2,3) announced_trans [OF aD(2) bD(2)] bD(1) assms(4)] by blast+
  have same: "seat_base R q s app" "\<not> m \<Longrightarrow> all_covered R dec K q s app"
    using seat_base_later [OF here(1) bD(4,3)] all_covered_later [OF here bD(4,3) assms(4)] by blast+
  show ?thesis
  proof (cases "lagged (re_oldest e) s \<and> (\<exists>msgs. re_xread e = XReadMsgs msgs \<and> msgs \<noteq> [])")
    case True
    then obtain msgs where m: "lagged (re_oldest e) s" "re_xread e = XReadMsgs msgs" "msgs \<noteq> []" by blast
    show ?thesis
    proof (cases "resyncWait (re_wait_now e) s > 0 \<and> re_cancelled e AfterWait")
      case True
      with lagged_outcome [OF step m] same m show ?thesis by (auto simp: loop_missed_def)
    next
      case False
      with lagged_outcome [OF step m] obtain err s1 where cold: "ColdStart dec (re_cold e) (s, app) = (err, s1, app')"
        and s1: "cursor s' = cursor s1" "sy_cfg s' = sy_cfg s1" by auto
      from cold_start_base [OF assms(1) here(1) reads(3) cold] cold_start_run [OF assms(1) here assms(4) reads(3) cold]
      show ?thesis using False m by (auto simp: loop_missed_def seat_base_cong [OF s1] all_covered_cong [OF s1(1)])
    qed
  next
    case False
    show ?thesis
    proof (cases "s' = s \<and> app' = app")
      case True
      with same False show ?thesis
        by (cases "re_xread e") (auto simp: loop_missed_def)
    next
      case changed: False
      have "\<exists>msgs. re_xread e = XReadMsgs msgs \<and> msgs \<noteq> []"
        using step changed by (auto simp: refresh_step_def Let_def split: xread.splits if_splits)
      with False have unlagged: "\<not> lagged (re_oldest e) s" by blast
      from unlagged_outcome [OF step unlagged p(2)] changed obtain msgs where
        m: "re_xread e = XReadMsgs msgs" "msgs \<noteq> []" "s' = setCursor (msg_ID (last msgs)) s"
          "if dirty_trips msgs = {} then app' = app
           else \<exists>dirty updates. set dirty = dirty_trips msgs \<and> distinct dirty \<and>
             fetchSignals dec (re_pipe e) (re_now e) (re_zclock e) s (re_routes e) dirty = Inr updates \<and>
             map_of (liveSignal app') = map_of (liveSignal app) ++ map_of updates" by blast
      from xread m(1) have x: "xread_reply (cursor s) (StreamBatch (sy_cfg s)) (entries R DirtyStreamKey (fst a)) = XReadMsgs msgs" by simp
      from batch_moves [OF assms(1,2) a x m(3)] have cur: "cursor s' \<noteq> cursor s" "cursor_ok (cursor s') (snd a)" by blast+
      have "cursor_ok (cursor s') (snd q)" by (rule announced_cursor [OF aD(4) cur(2)])
      moreover have "sy_cfg s' = sy_cfg s" by (simp add: m(3) setCursor_def)
      ultimately have "seat_base R q s' app'"
        using same(1) refresh_keeps_gm_ok [OF step unlagged p(2)] by (simp add: seat_base_def)
      moreover have "all_covered R dec K q s' app'" if "\<not> m" "\<not> blind R e s a"
        by (rule batch_covers [OF assms(1,2) assms(3) [OF that(1)] assms(4) a b reads(1) unlagged that(2) reads(2) x m(3,4)])
      ultimately show ?thesis using m(1,2) unlagged cur(1) by (auto simp: loop_missed_def)
    qed
  qed
qed

lemma seat_run_inv:
  assumes "seat_run R sha256 marshal dec K S" "redis_laws R" "\<forall>k \<in> K. trip_ok k"
  shows "seat_base R (redis_world S) (the_syncer S) (the_app S) \<and>
    (missed S \<or> \<not> lost R (the_syncer S) (redis_world S) \<and> all_covered R dec K (redis_world S) (the_syncer S) (the_app S))"
  using assms(1)
proof induction
  case (started w app c)
  then show ?case by (auto simp: seat_base_def cursor_ok_def NewSyncer_def gm_ok_def)
next
  case (cold_started S q ce err s app)
  from cold_started(4) have S: "seat_base R (redis_world S) (the_syncer S) (the_app S)"
    "\<not> missed S \<Longrightarrow> all_covered R dec K (redis_world S) (the_syncer S) (the_app S)" by auto
  from cold_start_base [OF assms(2) S(1) cold_started(2,3)] cold_start_run [OF assms(2) S assms(3) cold_started(2,3)] show ?case by auto
next
  case (worked S q)
  then have S: "seat_base R (redis_world S) (the_syncer S) (the_app S)" by simp
  then have "stream_ok R (redis_world S)" by (simp add: seat_base_def)
  note w = workers_announced [OF assms(2) worked(2) this]
  have "seat_base R q (the_syncer S) (the_app S)" by (rule seat_base_later [OF S]) (use w in blast)+
  moreover have "all_covered R dec K q (the_syncer S) (the_app S)" if "all_covered R dec K (redis_world S) (the_syncer S) (the_app S)"
    by (rule all_covered_later [OF S that]) (use w assms(3) in blast)+
  ultimately show ?case using worked(3) by auto
next
  case (iterated S a b q e s app bo)
  from iterated(4) have S: "seat_base R (redis_world S) (the_syncer S) (the_app S)"
    "\<not> missed S \<Longrightarrow> all_covered R dec K (redis_world S) (the_syncer S) (the_app S)" by auto
  from iteration_run [OF assms(2) S assms(3) iterated(2,3)] show ?case by auto
qed

text \<open>Unless entries have been passed over, every change is in the signals, or named by an entry that is still there or whose loss
  will be noticed.\<close>

lemma change_covered:
  assumes "redis_laws R" "seat_run R sha256 marshal dec K S" "\<forall>k \<in> K. trip_ok k" "k \<in> K" "\<not> missed S"
  shows "(\<forall>seats. seats_in dec R (fst (redis_world S)) k = Some seats \<longrightarrow> map_option ByClass (map_of (liveSignal (the_app S)) k) = Some seats) \<or>
    (\<exists>x. newer (cursor (the_syncer S)) x \<and> names_trip x k \<and>
      (x \<in> set (entries R DirtyStreamKey (fst (redis_world S))) \<or>
       lagged (Some (oldest_reply (entries R DirtyStreamKey (fst (redis_world S))))) (the_syncer S)))"
proof -
  let ?w = "redis_world S" and ?cur = "cursor (the_syncer S)"
  let ?es = "entries R DirtyStreamKey (fst ?w)"
  from seat_run_inv [OF assms(2,1,3)] assms(4,5) have inv: "stream_ok R ?w" "covered R dec ?w ?cur (liveSignal (the_app S)) k"
    "?cur = ''0'' \<Longrightarrow> trimmed R ?w = 0"
    by (auto simp: seat_base_def all_covered_def lost_def)
  show ?thesis
  proof (cases "\<exists>x \<in> set (snd ?w). newer ?cur x \<and> names_trip x k")
    case True
    then obtain x where x: "x \<in> set (snd ?w)" "newer ?cur x" "names_trip x k" by blast
    from inv(1) obtain D where D: "snd ?w = D @ ?es" by (auto simp: stream_ok_def)
    have "lagged (Some (oldest_reply ?es)) (the_syncer S)" if "x \<notin> set ?es"
    proof -
      from x(1) D that have "x \<in> set D" by (metis Un_iff set_append)
      then have "?cur \<noteq> ''0''" using inv(3) D by (auto simp: trimmed_def)
      moreover from x(1) inv(1) obtain z zs where z: "?es = z # zs" by (cases ?es) (auto simp: stream_ok_def)
      moreover from this have "id_of x < id_of z" using inv(1) \<open>x \<in> set D\<close> unfolding stream_ok_def history_ok_def D by (auto simp: sorted_wrt_append)
      with x(2) have "splitStreamID ?cur < id_of z" by (auto simp: newer_def)
      ultimately show ?thesis by (simp add: lagged_def oldest_reply_def compare_less)
    qed
    with x(2,3) show ?thesis by blast
  next
    case False
    with inv(2) show ?thesis by (auto simp: covered_def)
  qed
qed

section \<open>Property\<close>

text \<open>C10: no change of seats is lost between the workers and the signals while \<open>missed\<close> is not set, however the gate's
  scripts, the loop's reads, cold starts and the trimming of the stream interleave and whichever of them fail: for each trip of \<open>K\<close>
  either the signals hold the seats that Redis holds, or an entry that the loop has not read names the trip, and this entry is
  still in the stream or the loop will notice that it lags. \<open>missed\<close> is set until the first cold start succeeds, and again when a snapshot fails
  after the cursor was moved, when a batch is applied although an unread entry was trimmed and XRANGE failed or the cursor is
  at the beginning, when entries are trimmed while it is there, and when a cold start meets a schedule without a trip of \<open>K\<close>; the next
  successful cold start over a schedule with all of \<open>K\<close> clears it.\<close>

theorem no_seat_change_is_lost:
  assumes "redis_laws R" "seat_run R sha256 marshal dec K S" "\<forall>k \<in> K. trip_ok k" "k \<in> K" "\<not> missed S"
  shows "(\<forall>seats. seats_in dec R (fst (redis_world S)) k = Some seats \<longrightarrow> map_option ByClass (map_of (liveSignal (the_app S)) k) = Some seats) \<or>
    (\<exists>x. newer (cursor (the_syncer S)) x \<and> names_trip x k \<and>
      (x \<in> set (entries R DirtyStreamKey (fst (redis_world S))) \<or>
       lagged (Some (oldest_reply (entries R DirtyStreamKey (fst (redis_world S))))) (the_syncer S)))"
  by (rule change_covered [OF assms])

text \<open>A run: a cold start on an empty Redis, a first poll, and the iteration that reads its entry.\<close>

definition demo_trip :: trip_key where
  "demo_trip = TripKey ''T1'' ''2026-08-27''"

definition polled :: mem where
  "polled = snd (luaGate mem_redis id (\<lambda>m. ''abc'') ''7'' ScriptRan ''T1'' ''2026-08-27'' [(''SL'', 3)] empty_mem)"

definition polled_entry :: stream_entry where
  "polled_entry = (stream_id 1 0, [(''trip'', SeatTripDate ''T1'' ''2026-08-27''), (''changed_at'', ''7'')])"

abbreviation pipe_at :: "mem \<Rightarrow> pipeline" where
  "pipe_at r \<equiv> \<lambda>j mk tk. Some (map (redis_lookup mem_redis r) mk, map (redis_lookup mem_redis r) tk)"

definition first_cold :: cold_env where
  "first_cold = \<lparr>ce_head = Some None, ce_routes = demo_buffer, ce_iter = id, ce_pipe = pipe_at empty_mem,
     ce_now = 0, ce_zclock = (\<lambda>k. 0), ce_swapped = 0, ce_resynced = 0\<rparr>"

definition second_env :: refresh_env where
  "second_env = (demo_env [msg_of polled_entry])\<lparr>re_oldest := Some (Some (stream_id 1 0)), re_pipe := pipe_at polled,
     re_cold := first_cold\<lparr>ce_head := None, ce_pipe := pipe_at polled\<rparr>\<rparr>"

lemma polled_facts:
  "entries mem_redis DirtyStreamKey empty_mem = []" "entries mem_redis DirtyStreamKey polled = [polled_entry]"
  "GET mem_redis (SeatMapKey ''T1'' ''2026-08-27'') polled = Some ''abc''" "GET mem_redis k empty_mem = None"
proof -
  show e: "entries mem_redis DirtyStreamKey empty_mem = []" "GET mem_redis k empty_mem = None" for k
    by (simp_all add: mem_redis_def empty_mem_def)
  obtain res where gate: "luaGate mem_redis id (\<lambda>m. ''abc'') ''7'' ScriptRan ''T1'' ''2026-08-27'' [(''SL'', 3)] empty_mem = (res, polled)"
    unfolding polled_def by (metis prod.collapse)
  moreover have "res = Some 1" using gate e(2) by (simp add: luaGate_def seat_gate_def Let_def)
  ultimately show "GET mem_redis (SeatMapKey ''T1'' ''2026-08-27'') polled = Some ''abc''" using gate_state [OF mem_redis_laws] by blast
  have "show_nat (Suc 0) @ ''-0'' = stream_id 1 0" by (simp add: stream_id_def show_nat_0)
  then show "entries mem_redis DirtyStreamKey polled = [polled_entry]"
    by (simp add: polled_def polled_entry_def luaGate_def seat_gate_def mem_redis_def empty_mem_def Let_def gate_keys_differ)
qed

abbreviation demo_workers where "demo_workers \<equiv> workers mem_redis id (\<lambda>m. ''abc'')"

lemma id_polled: "id_of polled_entry = (1, 0)"
  using splitStreamID_stream_id [of 1 0] by (simp add: polled_entry_def)

lemma demo_polled: "demo_workers (empty_mem, []) (polled, [polled_entry])"
proof -
  obtain res where gate: "luaGate mem_redis id (\<lambda>m. ''abc'') ''7'' ScriptRan ''T1'' ''2026-08-27'' [(''SL'', 3)] empty_mem = (res, polled)"
    unfolding polled_def by (metis prod.collapse)
  have "ValidDate ''2026-08-27''" by code_simp
  moreover have "history_ok ([] @ [polled_entry])" by (simp add: history_ok_def id_polled)
  ultimately have "worker_step mem_redis id (\<lambda>m. ''abc'') (empty_mem, []) (polled, [] @ [polled_entry])"
    using worker_step.gate [OF gate, of "[polled_entry]" "[]"] by (simp add: polled_facts)
  then show ?thesis by simp
qed

lemma pipe_at_replies: "r \<in> A \<Longrightarrow> replies_from mem_redis A (pipe_at r)"
  by (auto simp: replies_from_def)

lemma demo_cold_reads:
  "cold_reads mem_redis id (\<lambda>m. ''abc'') (empty_mem, []) (empty_mem, []) first_cold"
  "cold_reads mem_redis id (\<lambda>m. ''abc'') (polled, [polled_entry]) (polled, [polled_entry]) (re_cold second_env)"
proof -
  have keys: "gm_ok (TripIndex demo_buffer)"
    by (simp add: demo_buffer_def newRouteBuffer_def gm_ok_def)
  have pipe: "replies_from mem_redis (fst ` moments mem_redis id (\<lambda>m. ''abc'') w w) (pipe_at (fst w))" for w
    by (rule pipe_at_replies) force
  show "cold_reads mem_redis id (\<lambda>m. ''abc'') (empty_mem, []) (empty_mem, []) first_cold"
    unfolding cold_reads_def using keys pipe [of "(empty_mem, [])"]
    by (auto simp: first_cold_def newest_reply_def polled_facts intro!: exI [of _ empty_mem] exI [of _ "[]"])
  show "cold_reads mem_redis id (\<lambda>m. ''abc'') (polled, [polled_entry]) (polled, [polled_entry]) (re_cold second_env)"
    unfolding cold_reads_def using keys pipe [of "(polled, [polled_entry])"]
    by (auto simp: first_cold_def second_env_def intro!: exI [of _ polled] exI [of _ "[polled_entry]"])
qed

lemma demo_names: "dirty_trips [msg_of polled_entry] = {demo_trip}"
proof -
  have "ParseSeatTripDate (SeatTripDate ''T1'' ''2026-08-27'') = Some demo_trip" unfolding demo_trip_def by code_simp
  then show ?thesis by (auto simp: dirty_trips_def msg_of_def polled_entry_def)
qed

definition after_cold :: "syncer \<times> app_state" where
  "after_cold = snd (ColdStart demo_dec first_cold (NewSyncer demo_config, init_app))"

lemma demo_booted:
  "ColdStart demo_dec first_cold (NewSyncer demo_config, init_app) = (None, fst after_cold, snd after_cold)"
  "cursor (fst after_cold) = ''0''" "sy_cfg (fst after_cold) = syncer_withDefaults demo_config"
proof -
  have "sc_MGetChunk (sy_cfg (NewSyncer demo_config)) = 1" by (rule demo_chunk)
  then have "ColdStart demo_dec first_cold (NewSyncer demo_config, init_app) =
      (None, markResynced 0 (NewSyncer demo_config), SwapSignal 0 [] init_app)"
    by (simp add: ColdStart_def first_cold_def fetchSignals_def demo_buffer_def newRouteBuffer_def gm_keys_def chunks.simps
        redis_lookup_def polled_facts val_at_def signal_of_def Let_def)
  then show "ColdStart demo_dec first_cold (NewSyncer demo_config, init_app) = (None, fst after_cold, snd after_cold)"
    "cursor (fst after_cold) = ''0''" "sy_cfg (fst after_cold) = syncer_withDefaults demo_config"
    by (simp_all add: after_cold_def markResynced_def NewSyncer_def)
qed

lemma demo_iterated:
  assumes "sy_cfg s = syncer_withDefaults demo_config" "cursor s = ''0''"
  shows "\<exists>app' b'. refresh_step demo_dec second_env ((s, app), b) = Running ((setCursor (stream_id 1 0) s, app'), b')"
proof -
  obtain dirty where c: "collect_dirty (cursor s) [msg_of polled_entry] = (stream_id 1 0, dirty)" "set dirty = {demo_trip}"
    using collect_dirty_eq [where cur = "cursor s" and msgs = "[msg_of polled_entry]"] demo_names
    by (metis prod.collapse last.simps list.distinct(1) msg_of_def polled_entry_def fst_conv stream_msg.select_convs(1))
  have "faithful (re_pipe second_env) (redis_lookup mem_redis polled)" by (simp add: faithful_def second_env_def)
  moreover have "0 < sc_MGetChunk (sy_cfg s)" by (simp add: assms withDefaults_positive)
  ultimately obtain out where "fetchSignals demo_dec (re_pipe second_env) (re_now second_env) (re_zclock second_env) s (re_routes second_env) dirty = Inr out"
    using fetchSignals_faithful [of "re_pipe second_env" "redis_lookup mem_redis polled" s "re_routes second_env" dirty demo_dec
        "re_now second_env" "re_zclock second_env"] no_departures
    by (auto simp: second_env_def demo_env_def)
  then show ?thesis
    using c assms(2) by (auto simp: refresh_step_def second_env_def demo_env_def lagged_def Let_def)
qed

lemma demo_run:
  "\<exists>app b. seat_run mem_redis id (\<lambda>m. ''abc'') demo_dec {demo_trip}
     \<lparr>redis_world = (polled, [polled_entry]), the_syncer = setCursor (stream_id 1 0) (fst after_cold), the_app = app, the_backoff = b, missed = False\<rparr>"
proof -
  let ?run = "seat_run mem_redis id (\<lambda>m. ''abc'') demo_dec {demo_trip}" and ?w = "(polled, [polled_entry])"
  let ?S = "\<lparr>redis_world = (empty_mem, []), the_syncer = NewSyncer demo_config, the_app = init_app, the_backoff = seconds 1, missed = True\<rparr>"
  have "stream_ok mem_redis (empty_mem, [])" by (simp add: stream_ok_def history_ok_def polled_facts)
  then have "?run ?S" by (intro seat_run.started) (simp_all add: init_app_def)
  from seat_run.cold_started [OF this _ , of "(empty_mem, [])" first_cold] demo_cold_reads(1) demo_booted(1)
  have "?run (?S\<lparr>redis_world := (empty_mem, []), the_syncer := fst after_cold, the_app := snd after_cold,
      missed := cold_missed demo_dec {demo_trip} first_cold (NewSyncer demo_config) init_app True \<or> lost mem_redis (fst after_cold) (empty_mem, [])\<rparr>)"
    by simp
  moreover have "\<not> cold_missed demo_dec {demo_trip} first_cold (NewSyncer demo_config) init_app True"
    using demo_booted(1) by (simp add: cold_missed_def) (simp add: first_cold_def demo_buffer_def newRouteBuffer_def gm_keys_def demo_trip_def)
  moreover have "\<not> lost mem_redis s (empty_mem, [])" "\<not> lost mem_redis s ?w" for s by (simp_all add: lost_def trimmed_def polled_facts)
  ultimately have "?run \<lparr>redis_world = (empty_mem, []), the_syncer = fst after_cold, the_app = snd after_cold, the_backoff = seconds 1, missed = False\<rparr>"
    by simp
  from seat_run.worked [OF this, of ?w] demo_polled \<open>\<And>s. \<not> lost mem_redis s ?w\<close>
  have run: "?run \<lparr>redis_world = ?w, the_syncer = fst after_cold, the_app = snd after_cold, the_backoff = seconds 1, missed = False\<rparr>" by simp
  have now: "?w \<in> moments mem_redis id (\<lambda>m. ''abc'') ?w ?w" by simp
  have "nat (StreamBatch (syncer_withDefaults demo_config)) = Suc 499" by (simp add: syncer_withDefaults_def demo_config_def Let_def)
  then have "xread_reply (cursor (fst after_cold)) (StreamBatch (sy_cfg (fst after_cold))) [polled_entry] = XReadMsgs [msg_of polled_entry]"
    by (simp add: xread_reply_def demo_booted newer_def splitStreamID_0 id_polled)
  moreover have "replies_from mem_redis (fst ` moments mem_redis id (\<lambda>m. ''abc'') ?w ?w) (pipe_at polled)"
    by (rule pipe_at_replies) (use now in force)
  ultimately have reads: "loop_reads mem_redis id (\<lambda>m. ''abc'') (fst after_cold) ?w ?w ?w ?w second_env"
    unfolding loop_reads_def using demo_cold_reads(2) now
    by (simp add: polled_facts second_env_def demo_env_def oldest_reply_def polled_entry_def)
  obtain app b where step: "refresh_step demo_dec second_env ((fst after_cold, snd after_cold), seconds 1) =
      Running ((setCursor (stream_id 1 0) (fst after_cold), app), b)" using demo_iterated [OF demo_booted(3,2)] by blast
  have "\<not> lagged (re_oldest second_env) (fst after_cold)" by (simp add: lagged_def demo_booted(2) split: option.split)
  then have "\<not> loop_missed mem_redis demo_dec {demo_trip} second_env ?w (fst after_cold) (snd after_cold) s' False" for s'
    by (simp add: loop_missed_def second_env_def demo_env_def) (simp add: blind_def polled_facts)
  with seat_run.iterated [OF run, of ?w ?w ?w second_env] reads step \<open>\<And>s. \<not> lost mem_redis s ?w\<close>
  have "?run \<lparr>redis_world = ?w, the_syncer = setCursor (stream_id 1 0) (fst after_cold), the_app = app, the_backoff = b, missed = False\<rparr>"
    by simp
  then show ?thesis by blast
qed

lemma demo_facts: "trip_ok demo_trip" "seats_in demo_dec mem_redis polled demo_trip = Some [(''SL'', 3)]" "stream_id 1 0 \<noteq> ''0''"
proof -
  show "trip_ok demo_trip" unfolding trip_ok_def demo_trip_def by code_simp
  show "seats_in demo_dec mem_redis polled demo_trip = Some [(''SL'', 3)]"
    by (simp add: seat_classes_def redis_lookup_def demo_trip_def demo_dec_def polled_facts)
  show "stream_id 1 0 \<noteq> ''0''" using splitStreamID_stream_id [of 1 0] splitStreamID_0 by auto
qed

text \<open>The loop has read the stream and does not lag.\<close>

definition caught_up :: "'r redis_ops \<Rightarrow> 'r \<Rightarrow> syncer \<Rightarrow> bool" where
  "caught_up R r s \<longleftrightarrow>
     \<not> lagged (Some (oldest_reply (entries R DirtyStreamKey r))) s \<and>
     list_all (\<lambda>x. \<not> newer (cursor s) x) (entries R DirtyStreamKey r)"

lemma demo_caught_up: "caught_up mem_redis polled (setCursor (stream_id 1 0) s)"
  using demo_facts(3) by (simp add: caught_up_def polled_facts setCursor_def newer_def lagged_def oldest_reply_def compare_less polled_entry_def)

theorem no_seat_change_is_lost_witness:
  "\<exists>S. seat_run mem_redis id (\<lambda>m. ''abc'') demo_dec {demo_trip} S \<and> \<not> missed S \<and> cursor (the_syncer S) = stream_id 1 0 \<and>
     map_option ByClass (map_of (liveSignal (the_app S)) demo_trip) = Some [(''SL'', 3)]"
proof -
  from demo_run obtain app b where run: "seat_run mem_redis id (\<lambda>m. ''abc'') demo_dec {demo_trip}
     \<lparr>redis_world = (polled, [polled_entry]), the_syncer = setCursor (stream_id 1 0) (fst after_cold), the_app = app, the_backoff = b, missed = False\<rparr>" by blast
  moreover have "map_option ByClass (map_of (liveSignal app) demo_trip) = Some [(''SL'', 3)]"
    using no_seat_change_is_lost [OF mem_redis_laws run, of demo_trip] demo_facts(1,2) demo_caught_up [of "fst after_cold"]
    by (auto simp: caught_up_def list_all_iff)
  moreover define S where "S = \<lparr>redis_world = (polled, [polled_entry]), the_syncer = setCursor (stream_id 1 0) (fst after_cold), the_app = app, the_backoff = b, missed = False\<rparr>"
  ultimately have "seat_run mem_redis id (\<lambda>m. ''abc'') demo_dec {demo_trip} S \<and> \<not> missed S \<and> cursor (the_syncer S) = stream_id 1 0 \<and>
      map_option ByClass (map_of (liveSignal (the_app S)) demo_trip) = Some [(''SL'', 3)]" by (simp add: setCursor_def)
  then show ?thesis by (rule exI [of _ S])
qed

end
