(* ===== verification/Whole_Seats.thy ===== *)
theory Whole_Seats
  imports Seat_Pipeline
begin

text \<open>
  The seats end to end, from the provider to the signals: what a poll task of \<^verbatim>\<open>internal/seat/poller.go\<close> does is a
  run of the workers of \<open>Seat_Pipeline\<close>, and what it writes is what the signals hold once the refresh loop has read the stream.
\<close>

section \<open>A poll as a run of a worker\<close>

lemma lock_not_seat_keys: "SeatMapKey t d \<noteq> poll_lock p" "SeatHashKey t d \<noteq> poll_lock p" "DirtyStreamKey \<noteq> poll_lock p"
  using poll_lock_differs by metis+

lemma lock_is_worker_step:
  assumes "redis_laws R"
  shows "worker_step R sha256 marshal (r, hist) (snd (SETNX R (poll_lock p) v ttl r), hist)"
    and "worker_step R sha256 marshal (r, hist) (snd (DEL R (poll_lock p) r), hist)"
  using SETNX_keeps [OF assms] DEL_keeps [OF assms] entries_SETNX [OF assms] entries_DEL [OF assms]
  by (auto intro!: worker_step.other simp: lock_not_seat_keys)

text \<open>Whatever a poll comes to, its commands are the lock, perhaps the script, and perhaps the release of
  the lock; the history grows by the entry of the script, if it adds one.\<close>

lemma poll_is_worker_run:
  assumes "redis_laws R" "HandlePollTask R sha256 marshal decode fetchSeats run buf now ts payload r = (res, r')"
    and "\<And>p. decode payload = Some p \<Longrightarrow> ValidDate (Date p)"
    and "history_ok hist" "history_ok (hist @ [last (entries R DirtyStreamKey r')])"
  shows "\<exists>new \<in> {[], [last (entries R DirtyStreamKey r')]}. workers R sha256 marshal (r, hist) (r', hist @ new)"
proof -
  let ?W = "workers R sha256 marshal"
  have quiet: ?thesis if "?W (r, hist) (r', hist)" using that by (intro bexI [of _ "[]"]) simp_all
  show ?thesis
  proof (cases "r' = r")
    case True
    then show ?thesis by (intro quiet) simp
  next
    case False
    with assms(2) obtain p depUnix where p: "decode payload = Some p" "TripID p \<noteq> []" "Date p \<noteq> []"
      "GetTripDeparture buf (TripID p) (Date p) = Some depUnix" "depUnix \<noteq> 0"
      by (auto simp: HandlePollTask_def split: option.splits if_splits)
    obtain ok r1 where lk: "SETNX R (poll_lock p) ''1'' (Interval (ClassifyZone now depUnix)) r = (ok, r1)" by fastforce
    have locked: "?W (r, hist) (r1, hist)"
      using lock_is_worker_step(1) [OF assms(1), of sha256 marshal r hist p "''1''" "Interval (ClassifyZone now depUnix)"] lk by simp
    have freed: "?W (r2, h) (snd (DEL R (poll_lock p) r2), h)" for r2 h
      using lock_is_worker_step(2) [OF assms(1)] by blast
    show ?thesis
    proof (cases "ok = Some True")
      case False
      with assms(2) p lk have "r' = r1" by (auto simp: HandlePollTask_def Let_def split: option.splits if_splits)
      with locked show ?thesis by (intro quiet) simp
    next
      case True
      show ?thesis
      proof (cases "fetchSeats (TripID p) (Date p)")
        case None
        with assms(2) p lk True have "r' = snd (DEL R (poll_lock p) r1)" by (auto simp: HandlePollTask_def Let_def)
        with locked freed [of r1 hist] show ?thesis by (intro quiet) simp
      next
        case (Some seats)
        obtain changed r2 where gate: "luaGate R sha256 marshal ts run (TripID p) (Date p) seats r1 = (changed, r2)" by fastforce
        with assms(2) p lk True Some have r': "r' = (if changed = None then snd (DEL R (poll_lock p) r2) else r2)"
          by (auto simp: HandlePollTask_def Let_def split: option.splits)
        then have "entries R DirtyStreamKey r' = entries R DirtyStreamKey r2"
          using entries_DEL [OF assms(1)] lock_not_seat_keys(3) by simp
        moreover define new where "new = (if run = ScriptNotRun \<or> GET R (SeatHashKey (TripID p) (Date p)) r1 = Some (canonicalHash sha256 seats)
          then [] else [last (entries R DirtyStreamKey r2)])"
        ultimately have new: "new \<in> {[], [last (entries R DirtyStreamKey r')]}" "history_ok (hist @ new)" using assms(4,5) by auto
        have "worker_step R sha256 marshal (r1, hist) (r2, hist @ new)"
          by (rule worker_step.gate [OF gate p(2) assms(3) [OF p(1)] new_def new(2)])
        with locked have "?W (r, hist) (r2, hist @ new)" by (rule rtranclp.rtrancl_into_rtrancl)
        with freed [of r2 "hist @ new"] have "?W (r, hist) (r', hist @ new)" unfolding r' by auto
        with new(1) show ?thesis by blast
      qed
    qed
  qed
qed

text \<open>A poll that got the lock, the seats and the reply of the script has stored the seats, if the fingerprint
  there belonged to the seats there.\<close>

lemma poll_stores_seats:
  assumes "redis_laws R" "HandlePollTask R sha256 marshal decode fetchSeats ScriptRan buf now ts payload r = (res, r')"
    and "decode payload = Some p" "TripID p \<noteq> []" "Date p \<noteq> []" "TripDeparture buf p = Some dep" "dep \<noteq> 0"
    and "fst (SETNX R (poll_lock p) ''1'' (Interval (ClassifyZone now dep)) r) = Some True" "fetchSeats (TripID p) (Date p) = Some seats"
    and "GET R (SeatHashKey (TripID p) (Date p)) r = Some (canonicalHash sha256 seats) \<Longrightarrow>
      GET R (SeatMapKey (TripID p) (Date p)) r = Some (marshal seats)"
  shows "GET R (SeatMapKey (TripID p) (Date p)) r' = Some (marshal seats)"
proof -
  obtain r1 where lk: "SETNX R (poll_lock p) ''1'' (Interval (ClassifyZone now dep)) r = (Some True, r1)" using assms(8) by (metis prod.collapse)
  have same: "GET R (SeatMapKey t d) r1 = GET R (SeatMapKey t d) r" "GET R (SeatHashKey t d) r1 = GET R (SeatHashKey t d) r" for t d
    using SETNX_keeps [OF assms(1), of _ "poll_lock p" "''1''" "Interval (ClassifyZone now dep)" r] lk by (simp_all add: lock_not_seat_keys)
  have "GetTripDeparture buf (TripID p) (Date p) = Some dep" using assms(6) by (simp add: GetTripDeparture_def)
  with assms(2-5,7,9) lk have "snd (luaGate R sha256 marshal ts ScriptRan (TripID p) (Date p) seats r1) = r'"
    by (auto simp: HandlePollTask_def luaGate_def Let_def split: prod.splits)
  then show ?thesis
    using assms(10) same gate_keys_differ [of "TripID p" "Date p"] seat_map_key_others
    by (auto simp: luaGate_def seat_gate_def Let_def GET_SET [OF assms(1)] GET_XADD [OF assms(1)])
qed

section \<open>From the provider to the signals\<close>



section \<open>A stale signal of a trip that is polled\<close>

text \<open>A poll that brings the seats already there refreshes the time stamp in Redis and adds no entry, so a loop that has
  read the stream does nothing: the signal in memory, judged stale or not when it was fetched, stays as it is.\<close>

theorem unchanged_seats_keep_stale_signal:
  assumes "redis_laws R" "luaGate R sha256 marshal ts ScriptRan t d seats r = (res, r')"
    and "GET R (SeatHashKey t d) r = Some (canonicalHash sha256 seats)"
    and "xread_reply (cursor s) (StreamBatch (sy_cfg s)) (entries R DirtyStreamKey r) = XReadNil"
    and "re_xread e = xread_reply (cursor s) (StreamBatch (sy_cfg s)) (entries R DirtyStreamKey r')" "\<not> re_cancelled e AtTop"
  shows "GET R (SeatTSKey t d) r' = Some ts \<and> refresh_step dec e ((s, app), b) = Running ((s, app), b)"
proof -
  have "entries R DirtyStreamKey r' = entries R DirtyStreamKey r" using luaGate_stream [OF assms(1,2)] assms(3) by simp
  then have "re_xread e = XReadNil" using assms(4,5) by simp
  moreover have "GET R (SeatTSKey t d) r' = Some ts"
    using assms(2,3) by (auto simp: luaGate_def seat_gate_def Let_def GET_SET [OF assms(1)])
  ultimately show ?thesis using assms(6) by (simp add: refresh_step_def)
qed

end
