(* ===== verification/Reload_Guard.thy ===== *)
theory Reload_Guard
  imports Loader Engine_Orders
begin

text \<open>
  The guard of a reload at work: \<open>ReloadRouteArrays\<close> of \<^verbatim>\<open>internal/schedule/loader.go\<close> publishes what it has built only
  when \<open>manifestChanged\<close> of \<^verbatim>\<open>internal/schedule/buffer.go\<close> says so. The hash leaves out what the loader derives, both
  indexes, the FIFO flags and the copies of keys and stations; a schedule that has been built is
  determined by the part that is hashed, up to the layout of the footpath map, so two schedules
  with one hash input answer every search alike.
\<close>

section \<open>What the loader derives\<close>

definition stop_index :: "route_entry list \<Rightarrow> (string, route_stop list) gomap" where
  "stop_index rs = fold (\<lambda>ri. index_stops (int ri) (StopIDs (rs ! ri))) [0..<length rs] []"

definition trip_index :: "trip_stop_times list list \<Rightarrow> (trip_key, trip_location) gomap" where
  "trip_index tss = fold (\<lambda>ri. index_trips (int ri) (tss ! ri)) [0..<length tss] []"

definition derived :: "route_buffer \<Rightarrow> bool" where
  "derived b \<longleftrightarrow>
     length (StopTimes b) = length (Routes b) \<and> RouteFIFO b = map computeFIFO (StopTimes b) \<and>
     StopToRoutes b = stop_index (Routes b) \<and> TripIndex b = trip_index (StopTimes b)"

lemma index_snoc:
  "stop_index (rs @ [r]) = index_stops (int (length rs)) (StopIDs r) (stop_index rs)"
  "trip_index (tss @ [ts]) = index_trips (int (length tss)) ts (trip_index tss)"
proof -
  have "fold (\<lambda>ri. index_stops (int ri) (StopIDs ((rs @ [r]) ! ri))) [0..<length rs] [] = stop_index rs"
    unfolding stop_index_def by (rule fold_cong) (simp_all add: nth_append)
  then show "stop_index (rs @ [r]) = index_stops (int (length rs)) (StopIDs r) (stop_index rs)"
    by (simp add: stop_index_def)
  have "fold (\<lambda>ri. index_trips (int ri) ((tss @ [ts]) ! ri)) [0..<length tss] [] = trip_index tss"
    unfolding trip_index_def by (rule fold_cong) (simp_all add: nth_append)
  then show "trip_index (tss @ [ts]) = index_trips (int (length tss)) ts (trip_index tss)"
    by (simp add: trip_index_def)
qed

lemma add_route_derived: "derived b \<Longrightarrow> derived (add_route g rid b)"
  by (auto simp: derived_def add_route_def index_snoc Let_def)

lemma build_routes_derived: "derived (build_routes g)"
proof -
  have "derived b \<Longrightarrow> derived (fold (add_route g) rids b)" for rids b
    by (induction rids arbitrary: b) (simp_all add: add_route_derived)
  moreover have "derived newRouteBuffer" by (simp add: derived_def newRouteBuffer_def stop_index_def trip_index_def)
  ultimately show ?thesis by (simp add: build_routes_def)
qed

text \<open>A built buffer: well formed, with everything derived from routes and times.\<close>

definition built :: "route_buffer \<Rightarrow> bool" where
  "built b \<longleftrightarrow> buffer_wf b \<and> derived b"

lemma built_staging: "built ((build_routes g)\<lparr>Footpaths := closeFootpaths direct opts\<rparr>)"
  using buffer_wf_footpaths [OF build_routes_wf gm_ok_closeFootpaths] build_routes_derived [of g]
  by (simp add: built_def derived_def)

text \<open>The stored hash is that of the live schedule, unless it has been reset.\<close>

lemma schedule_reachable_built:
  "schedule_reachable sha256 st \<Longrightarrow> built (live st) \<and> (manifest st = [] \<or> manifest st = manifestHash sha256 (live st))"
proof (induction rule: schedule_reachable.induct)
  case schedule_init
  have "derived newRouteBuffer" by (simp add: derived_def newRouteBuffer_def stop_index_def trip_index_def)
  with newRouteBuffer_wf show ?case by (simp add: init_schedule_def built_def)
next
  case (schedule_reload st opts q fq)
  then show ?case
    using built_staging
    by (auto simp: reload_step_def ReloadRouteArrays_def publish_staging_def manifestChanged_def Let_def split: query.splits option.splits)
qed (simp add: ResetManifest_def)

section \<open>The hash input determines the schedule\<close>

text \<open>Equal but for the layout of the footpath map.\<close>

definition same_schedule :: "route_buffer \<Rightarrow> route_buffer \<Rightarrow> bool" where
  "same_schedule b1 b2 \<longleftrightarrow>
     b1\<lparr>Footpaths := []\<rparr> = b2\<lparr>Footpaths := []\<rparr> \<and> map_of (Footpaths b1) = map_of (Footpaths b2)"

lemma footpaths_of_view:
  assumes "gm_ok (Footpaths b1)" "gm_ok (Footpaths b2)" "snd (buffer_view b1) = snd (buffer_view b2)"
  shows "map_of (Footpaths b1) = map_of (Footpaths b2)"
proof (rule ext)
  fix k
  let ?v = "\<lambda>b. map (\<lambda>k. (k, gm_get (Footpaths b) k [])) (sort (map fst (Footpaths b)))"
  have view: "map_of (Footpaths b) k = map_of (?v b) k" for b
  proof (cases "k \<in> fst ` set (Footpaths b)")
    case True
    then obtain es where "map_of (Footpaths b) k = Some es" by (metis map_of_eq_None_iff option.exhaust)
    with True show ?thesis by (simp add: map_of_map_restrict restrict_map_def gm_get_def)
  next
    case False
    then have "map_of (Footpaths b) k = None" by (simp add: map_of_eq_None_iff)
    with False show ?thesis by (simp add: map_of_map_restrict restrict_map_def)
  qed
  from assms(3) have "?v b1 = ?v b2" by (simp add: buffer_view_def)
  then show "map_of (Footpaths b1) k = map_of (Footpaths b2) k" unfolding view by simp
qed

lemma routes_of_view:
  assumes "buffer_wf b1" "buffer_wf b2" "fst (buffer_view b1) = fst (buffer_view b2)"
  shows "Routes b1 = Routes b2 \<and> StopTimes b1 = StopTimes b2"
proof -
  have len: "length (StopTimes b1) = length (Routes b1)" "length (StopTimes b2) = length (Routes b2)"
    using assms(1,2) by (simp_all add: buffer_wf_def)
  have "length (fst (buffer_view b1)) = length (fst (buffer_view b2))" by (simp add: assms(3))
  then have n: "length (Routes b1) = length (Routes b2)" using len by (simp add: buffer_view_def)
  have at: "Routes b1 ! ri = Routes b2 ! ri \<and> StopTimes b1 ! ri = StopTimes b2 ! ri" if "ri < length (Routes b1)" for ri
  proof -
    let ?r1 = "Routes b1 ! ri" and ?r2 = "Routes b2 ! ri" and ?t1 = "StopTimes b1 ! ri" and ?t2 = "StopTimes b2 ! ri"
    have "fst (buffer_view b1) ! ri = fst (buffer_view b2) ! ri" by (simp add: assms(3))
    with that n len have v: "RouteID ?r1 = RouteID ?r2" "StopIDs ?r1 = StopIDs ?r2" "map trip_view ?t1 = map trip_view ?t2"
      by (simp_all add: buffer_view_def)
    have wf: "route_wf ?r1 ?t1" "route_wf ?r2 ?t2" using assms(1,2) that n by (simp_all add: buffer_wf_def)
    have tl: "length ?t1 = length ?t2" using v(3) by (metis length_map)
    have "?t1 = ?t2"
    proof (rule nth_equalityI [OF tl])
      fix i assume i: "i < length ?t1"
      then have "trip_view (?t1 ! i) = trip_view (?t2 ! i)" using v(3) tl by (metis nth_map)
      moreover have "StationIDs (?t1 ! i) = StationIDs (?t2 ! i)"
        using wf v(2) i tl by (auto simp: route_wf_def)
      ultimately show "?t1 ! i = ?t2 ! i" by (simp add: trip_view_def)
    qed
    moreover from this wf v have "?r1 = ?r2" by (simp add: route_wf_def)
    ultimately show ?thesis by simp
  qed
  then show ?thesis using n len by (auto intro!: nth_equalityI)
qed

lemma built_view:
  assumes "built b1" "built b2" "buffer_view b1 = buffer_view b2"
  shows "same_schedule b1 b2"
proof -
  have wf: "buffer_wf b1" "buffer_wf b2" using assms by (simp_all add: built_def)
  have "Routes b1 = Routes b2 \<and> StopTimes b1 = StopTimes b2"
    by (rule routes_of_view [OF wf]) (simp add: assms(3))
  moreover have "map_of (Footpaths b1) = map_of (Footpaths b2)"
    using wf by (intro footpaths_of_view) (simp_all add: buffer_wf_def assms(3))
  ultimately show ?thesis
    using assms(1,2) by (simp add: same_schedule_def built_def derived_def)
qed

lemma same_schedule_fields:
  assumes "same_schedule b1 b2"
  shows "Routes b1 = Routes b2" "StopTimes b1 = StopTimes b2" "RouteFIFO b1 = RouteFIFO b2"
    "StopToRoutes b1 = StopToRoutes b2" "TripIndex b1 = TripIndex b2" "map_of (Footpaths b1) = map_of (Footpaths b2)"
  using assms by (cases b1; cases b2; simp add: same_schedule_def)+

lemma same_schedule_search:
  assumes "same_schedule b1 b2" "orders_ok ords" "orders_ok ords'"
  shows "RaptorSearch cancelled ords (Some b1) sig p topK = RaptorSearch cancelled ords' (Some b2) sig p topK"
  by (rule search_alike [OF _ assms(2,3)])
    (simp add: reads_alike_def search_env_of_def gm_get_def same_schedule_fields [OF assms(1)])

section \<open>Properties\<close>

text \<open>C26: two published schedules with the same hash input are the same: routes with their stops and trip
  keys, all times and station IDs, both indexes, the FIFO flags and every station's walks; only the layout of the footpath
  map may differ, and every search answers alike on both. Slices and integers are such as Go can hold.\<close>

theorem manifest_bytes_determine_schedule:
  assumes "schedule_reachable sha256 st1" "schedule_reachable sha256' st2" "buffer_sized (live st1)" "buffer_sized (live st2)"
    and "manifest_bytes (live st1) = manifest_bytes (live st2)" "orders_ok ords" "orders_ok ords'"
  shows "(live st1)\<lparr>Footpaths := []\<rparr> = (live st2)\<lparr>Footpaths := []\<rparr> \<and> map_of (Footpaths (live st1)) = map_of (Footpaths (live st2)) \<and>
    RaptorSearch cancelled ords (Some (live st1)) sig p topK = RaptorSearch cancelled ords' (Some (live st2)) sig p topK"
proof -
  have "same_schedule (live st1) (live st2)"
    using schedule_reachable_built [OF assms(1)] schedule_reachable_built [OF assms(2)] manifest_bytes_view [OF assms(3-5)]
    by (intro built_view) simp_all
  with same_schedule_search [OF this assms(6,7)] show ?thesis by (simp add: same_schedule_def)
qed

text \<open>C25: a reload is skipped only when the schedule it built is the live one: then it leaves the state as
  it is, and whatever a request would have asked of the new schedule the live one answers alike, unless SHA-256, whose digest
  is never empty, collides on the two inputs.\<close>

theorem skipped_reload_changes_nothing:
  assumes "schedule_reachable sha256 st" "group_rows rows \<lparr>store = [], routeTrips = [], routeOrder = []\<rparr> = Some g"
    and "fresh = (build_routes g)\<lparr>Footpaths := closeFootpaths (fst (loadFootpaths fq)) opts\<rparr>"
    and "\<not> fst (manifestChanged (manifestHash sha256 fresh) (manifest st))"
    and "buffer_sized (live st)" "buffer_sized fresh" "\<And>x. sha256 x \<noteq> []"
    and "sha256 (manifest_bytes fresh) = sha256 (manifest_bytes (live st)) \<Longrightarrow> manifest_bytes fresh = manifest_bytes (live st)"
    and "orders_ok ords" "orders_ok ords'"
  shows "ReloadRouteArrays sha256 opts (Rows rows True) fq st = Inr st \<and>
    fresh\<lparr>Footpaths := []\<rparr> = (live st)\<lparr>Footpaths := []\<rparr> \<and> map_of (Footpaths fresh) = map_of (Footpaths (live st)) \<and>
    RaptorSearch cancelled ords (Some fresh) sig p topK = RaptorSearch cancelled ords' (Some (live st)) sig p topK \<and>
    TripDeparture fresh key = TripDeparture (live st) key"
proof -
  have skip: "manifest st = manifestHash sha256 fresh" using assms(4) by (simp add: manifestChanged_def split: if_splits)
  have "manifestHash sha256 fresh \<noteq> []" using assms(7) by (cases "sha256 (manifest_bytes fresh)") (auto simp: manifestHash_def hexBytes_def)
  with skip schedule_reachable_built [OF assms(1)] have live: "built (live st)" "manifestHash sha256 fresh = manifestHash sha256 (live st)"
    by auto
  from live(2) have "sha256 (manifest_bytes fresh) = sha256 (manifest_bytes (live st))"
    unfolding manifestHash_def by (rule hexBytes_inject)
  then have "buffer_view fresh = buffer_view (live st)"
    by (intro manifest_bytes_view [OF assms(6,5)]) (rule assms(8))
  then have same: "same_schedule fresh (live st)"
    using built_staging live(1) by (intro built_view) (simp_all add: assms(3))
  moreover have "ReloadRouteArrays sha256 opts (Rows rows True) fq st = Inr st"
    using skip by (simp add: ReloadRouteArrays_def publish_staging_def assms(2) assms(3) [symmetric] manifestChanged_def Let_def)
  moreover have "TripDeparture fresh key = TripDeparture (live st) key"
    unfolding TripDeparture_def same_schedule_fields [OF same] ..
  ultimately show ?thesis
    using same_schedule_search [OF same assms(9,10)] by (simp add: same_schedule_def)
qed

text \<open>A schedule with two trips, loaded and then loaded again with a footpath row that is dropped.\<close>

definition twice_rows :: "schedule_row option list" where
  "twice_rows =
     map (\<lambda>(trip, sid, t). Some \<lparr>row_RouteID = ''R1'', row_TripID = trip, row_Date = ''2026-08-27'', row_StopSeq = t,
        row_StationID = sid, row_Arrival = t, row_Departure = t\<rparr>)
       [(''T1'', ''A'', 20), (''T1'', ''B'', 30), (''T2'', ''A'', 10), (''T2'', ''B'', 15)]"

definition twice_fresh :: route_buffer where
  "twice_fresh =
     (let st = (\<lambda>trip a b. \<lparr>Key = TripKey trip ''2026-08-27'', Arrivals = [a, b], Departures = [a, b], StationIDs = [''A'', ''B'']\<rparr>);
          ts = [st ''T2'' 10 15, st ''T1'' 20 30]
      in \<lparr>Routes = [\<lparr>RouteID = ''R1'', StopIDs = [''A'', ''B''], TripKeys = map Key ts\<rparr>], StopTimes = [ts],
           TripIndex = index_trips 0 ts [], StopToRoutes = index_stops 0 [''A'', ''B''] [], Footpaths = [], RouteFIFO = [True]\<rparr>)"

definition tagged :: "string \<Rightarrow> string" where "tagged x = CHR ''#'' # x"

definition twice_grouping :: grouping where
  "twice_grouping =
     \<lparr>store = [\<lparr>tr_key = TripKey ''T1'' ''2026-08-27'', tr_routeID = ''R1'', tr_stops = [(''A'', 20, 20), (''B'', 30, 30)]\<rparr>,
         \<lparr>tr_key = TripKey ''T2'' ''2026-08-27'', tr_routeID = ''R1'', tr_stops = [(''A'', 10, 10), (''B'', 15, 15)]\<rparr>],
      routeTrips = [(''R1'', [0, 1])], routeOrder = [''R1'']\<rparr>"

lemma twice_group:
  "group_rows twice_rows \<lparr>store = [], routeTrips = [], routeOrder = []\<rparr> = Some twice_grouping"
  by (simp add: twice_rows_def twice_grouping_def open_trip_def add_stop_def gm_get_def add_new_def Let_def)

lemma twice_build: "build_routes twice_grouping = twice_fresh"
  by (simp add: twice_grouping_def twice_fresh_def gm_get_def build_routes_def add_route_def
      newRouteBuffer_def valid_trips_def stop_times_of_def trip_order_def computeFIFO_def Let_def)

definition self_walk :: "footpath_row query" where
  "self_walk = Rows [Some \<lparr>fr_StationID = ''A'', fr_NeighbourID = ''A'', fr_WalkSeconds = 60\<rparr>] True"

lemma twice_footpaths: "closeFootpaths (fst (loadFootpaths QueryFailed)) opts = []" "closeFootpaths (fst (loadFootpaths self_walk)) opts = []"
  by (simp_all add: self_walk_def loadFootpaths_def closeFootpaths_def Let_def)

definition once_loaded :: "(string \<Rightarrow> string) \<Rightarrow> schedule_state" where
  "once_loaded sha256 = reload_step sha256 DefaultLoadOptions (Rows twice_rows True) QueryFailed init_schedule"

lemma once_reachable: "schedule_reachable sha256 (once_loaded sha256)"
  unfolding once_loaded_def by (intro schedule_reachable.intros)

lemma fresh_footpaths: "twice_fresh\<lparr>Footpaths := []\<rparr> = twice_fresh"
  by (simp add: twice_fresh_def Let_def)

lemma once_loaded_state:
  assumes "\<And>x. sha256 x \<noteq> []"
  shows "live (once_loaded sha256) = twice_fresh" "manifest (once_loaded sha256) = manifestHash sha256 twice_fresh"
proof -
  have "[] \<noteq> manifestHash sha256 twice_fresh"
    using assms by (cases "sha256 (manifest_bytes twice_fresh)") (auto simp: manifestHash_def hexBytes_def)
  then show "live (once_loaded sha256) = twice_fresh" "manifest (once_loaded sha256) = manifestHash sha256 twice_fresh"
    by (simp_all add: once_loaded_def reload_step_def ReloadRouteArrays_def twice_group publish_staging_def twice_build
        twice_footpaths fresh_footpaths init_schedule_def manifestChanged_def)
qed

lemma twice_sized: "buffer_sized twice_fresh"
  by (simp add: buffer_sized_def buffer_view_def twice_fresh_def trip_view_def route_dom_def trip_dom_def sized_def in_i64_def Let_def)

definition some_orders :: map_orders where
  "some_orders = \<lparr>iter_marked = \<lambda>k. rev, iter_queue = \<lambda>k. id, iter_improved = \<lambda>k. rev\<rparr>"

definition other_orders :: map_orders where
  "other_orders = \<lparr>iter_marked = \<lambda>k. id, iter_queue = \<lambda>k. rev, iter_improved = \<lambda>k. id\<rparr>"

lemma twice_orders: "orders_ok some_orders" "orders_ok other_orders"
  by (simp_all add: some_orders_def other_orders_def orders_ok_def)

theorem manifest_bytes_determine_schedule_witness:
  "live (once_loaded tagged) = twice_fresh \<and>
   RaptorSearch (\<lambda>k. False) some_orders (Some (live (once_loaded tagged))) [] sample_params 5 =
   RaptorSearch (\<lambda>k. False) other_orders (Some (live ((once_loaded tagged)\<lparr>manifest := ResetManifest\<rparr>))) [] sample_params 5"
proof -
  have live: "live (once_loaded tagged) = twice_fresh" by (rule once_loaded_state) (simp add: tagged_def)
  have "schedule_reachable tagged ((once_loaded tagged)\<lparr>manifest := ResetManifest\<rparr>)"
    by (intro schedule_reachable.intros once_reachable)
  from manifest_bytes_determine_schedule [OF once_reachable [of tagged] this _ _ _ twice_orders, of "\<lambda>k. False" "[]" sample_params 5]
    live twice_sized show ?thesis by simp
qed

theorem skipped_reload_changes_nothing_witness:
  "ReloadRouteArrays tagged DefaultLoadOptions (Rows twice_rows True) self_walk (once_loaded tagged) = Inr (once_loaded tagged) \<and>
   RaptorSearch (\<lambda>k. False) some_orders (Some twice_fresh) [] sample_params 5 =
   RaptorSearch (\<lambda>k. False) other_orders (Some (live (once_loaded tagged))) [] sample_params 5"
proof -
  have tag: "tagged x \<noteq> []" for x by (simp add: tagged_def)
  have fresh: "twice_fresh = (build_routes twice_grouping)\<lparr>Footpaths := closeFootpaths (fst (loadFootpaths self_walk)) DefaultLoadOptions\<rparr>"
    by (simp add: twice_build twice_footpaths fresh_footpaths)
  have skip: "\<not> fst (manifestChanged (manifestHash tagged twice_fresh) (manifest (once_loaded tagged)))"
    by (simp add: once_loaded_state [OF tag] manifestChanged_def)
  from skipped_reload_changes_nothing [OF once_reachable twice_group fresh skip _ twice_sized tag _ twice_orders]
    once_loaded_state(1) [OF tag] twice_sized show ?thesis by simp
qed

end
