(* ===== verification/Spec2Isabelle.thy ===== *)
theory Spec2Isabelle
  imports Breaker Migrate Provider Boot Seeder Http_App Search_Limits Whole_Search Service Whole_Seats Reload_Guard
begin

text \<open>
  A verification library for axentra, a transit router written in Go.

  The program. A schedule lives in Postgres. \<^verbatim>\<open>internal/schedule\<close> loads it into one immutable route
  buffer (\<^verbatim>\<open>loader.go\<close>, \<^verbatim>\<open>buffer.go\<close>), replaces it when the schema version moves (\<^verbatim>\<open>watcher.go\<close>), accepts
  batches of trips (\<^verbatim>\<open>ingestion.go\<close>) and can fill the database with a demonstration network
  (\<^verbatim>\<open>seeder.go\<close>). \<^verbatim>\<open>internal/seat\<close> polls a provider for the free seats of every trip (\<^verbatim>\<open>zone.go\<close>,
  \<^verbatim>\<open>poller.go\<close>, \<^verbatim>\<open>provider.go\<close>), writes changes to Redis through a Lua gate that announces them on a stream
  (\<^verbatim>\<open>luagate.go\<close>), and follows that stream into the signal buffer in memory (\<^verbatim>\<open>refresher.go\<close>,
  \<^verbatim>\<open>internal/state/signal.go\<close>). A request (\<^verbatim>\<open>internal/api\<close>) is parsed, searched with RAPTOR over the
  two buffers (\<^verbatim>\<open>internal/raptor/engine.go\<close>), and its candidates are confirmed against Redis behind a circuit breaker
  (\<^verbatim>\<open>internal/raptor/validator.go\<close>, \<^verbatim>\<open>internal/breaker\<close>). \<^verbatim>\<open>cmd/axentra/main.go\<close> boots and stops all this with
  the settings of \<^verbatim>\<open>internal/config\<close> and the migrations of \<^verbatim>\<open>internal/migrate\<close>.

  How the theories follow the code.
    \<^item> \<open>Prelude\<close>, \<open>Strconv\<close>, \<open>Dates\<close>, \<open>Redis\<close>: Go's integers, maps and slices, \<^verbatim>\<open>sort.Search\<close>, number parsing,
      calendar dates, and the interface of Redis. An \<open>int64\<close> is an \<open>int\<close> with the wrap-around \<open>i64\<close> written
      out where a computation can leave its range; a map the code ranges over is an association
      list with distinct keys, in any order.
    \<^item> \<open>Domain_Types\<close> (\<^verbatim>\<open>model/types.go\<close>), \<open>Breaker\<close> (\<^verbatim>\<open>breaker.go\<close>), \<open>Signal_State\<close> (\<^verbatim>\<open>signal.go\<close>).
    \<^item> \<open>Route_Buffer\<close>, \<open>Walk_Queue\<close>, \<open>Walk_Closure\<close>, \<open>Content_Hash\<close>: \<^verbatim>\<open>buffer.go\<close>, namely the record and its statistics, the
      binary heap, the closure of the footpaths and the hash input. \<open>Loader\<close>, \<open>Watcher\<close>, \<open>Ingestion\<close> and \<open>Seeder\<close> are the other
      files of \<^verbatim>\<open>internal/schedule\<close>; \<open>Reload_Guard\<close> holds what the hash says of the schedules the loader builds.
    \<^item> \<open>Engine\<close> (\<^verbatim>\<open>engine.go\<close>), with its proofs in \<open>Engine_Steps\<close>, \<open>Engine_Sound\<close>, \<open>Engine_Frontier\<close>, \<open>Engine_Orders\<close>,
      \<open>Engine_Complete\<close>, \<open>Engine_Optimal\<close>, \<open>Engine_Rounds\<close> and \<open>Engine_Answer\<close>, the limits of its optimality in \<open>Search_Limits\<close>, and the network of the
      witnesses in \<open>Sample_Network\<close>; \<open>Path_Check\<close> and \<open>Validator\<close> (\<^verbatim>\<open>validator.go\<close>).
    \<^item> \<open>Zone\<close> (\<^verbatim>\<open>zone.go\<close>), \<open>Seat_Gate\<close> (\<^verbatim>\<open>luagate.go\<close>, \<^verbatim>\<open>seat_gate.lua\<close>, \<^verbatim>\<open>poller.go\<close>), \<open>Provider\<close> (\<^verbatim>\<open>provider.go\<close>),
      \<open>Syncer\<close> with \<open>Syncer_Properties\<close> (\<^verbatim>\<open>refresher.go\<close>); \<open>Seat_Pipeline\<close>: the workers and the refresh loop together, where a flag of the
      run, \<open>missed\<close>, records when the code may have passed entries over.
    \<^item> \<open>Config\<close> (\<^verbatim>\<open>config.go\<close>), \<open>Migrate\<close> (\<^verbatim>\<open>migrate.go\<close>), \<open>Http_Api\<close> (\<^verbatim>\<open>search.go\<close>, \<^verbatim>\<open>health.go\<close>, \<^verbatim>\<open>middleware.go\<close>) with
      \<open>Http_App\<close> (\<^verbatim>\<open>server.go\<close>), \<open>Boot\<close> (\<^verbatim>\<open>main.go\<close>).
    \<^item> \<open>Whole_System\<close>, \<open>Whole_Search\<close> and \<open>Whole_Seats\<close>: the properties that span components. \<open>Service\<close>: the running service, in which reloads,
      refreshes and the pieces of any number of requests interleave; the pieces of a validation share one breaker.
  Definitions carry the names of the code; where a name is taken in HOL or is a field of two
  records it has a prefix (\<open>c_\<close> for a setting, \<open>sc_\<close> for a setting of the syncer, \<open>validator_\<close>, \<open>config_\<close>).

  What the lemmas show.
    \<^item> Search: soundness of every leg, journey and transfer by an invariant over the rounds
      (locale \<open>search_invariant\<close>, interpreted three times); on a timed schedule no label of the destination is discarded when journeys
      are rebuilt (a trip that arrives before it left can make one that is) and the transfer time lies between two vehicles in integers; the answer is a sorted frontier of bounded size and does not depend on map order. Optimality is proved
      against \<open>journey_to\<close>, an inductive reference of what can be travelled, where transfers take no time,
      walks compose (as they do when the closure was not cut) and vehicles of a FIFO route do not leave a stop together; each of the
      three conditions is needed, by a published schedule for which the search misses a journey without it. With a transfer time the answer is optimal
      among the journeys that allow it after walks too (\<open>unhurried_to\<close>); a journey boards exactly one vehicle for each round it took, which
      also shows that the fingerprints never drop one.
    \<^item> Schedule: every published buffer is well formed after any sequence of reloads and failures; the
      closure holds exactly the shortest bounded walks; the heap is a priority queue (locale \<open>min_queue\<close>);
      the hash input is a prefix code (locale \<open>prefix_code\<close>) that determines a schedule the loader has built, its indexes and FIFO flags included; batches and
      migrations are atomic; a new version is loaded once; the
      seeder moves the version last.
    \<^item> Seats: a change is written and announced once; the fingerprint identifies the seats; the refresh loop
      never passes an entry it has not applied, and converges on a Redis at rest; with workers and loop interleaved command by command, and
      failing anywhere, no change of seats is lost while \<open>missed\<close> is not set, which only the faults that are named set; a failed poll frees
      its lock unless the \<open>DEL\<close> itself failed; a strict answer was confirmed by Redis; the breaker
      refines a three-state automaton (locale \<open>call_gate\<close>).
    \<^item> Interleaving: the journeys of an answer are those of a schedule, signals and a state of the validator that were current while
      the request was in flight; the status it carries may be that of a later state.
    \<^item> Process: accepted requests and settings are in range; routes are gated; every connection is
      closed in reverse order, while the workers may stop on a signal before readiness is withdrawn; cold starts are bounded.
    \<^item> Faults: what the code gets wrong is stated as theorems too, in the theory of its
      component: a failed cold start skips stream entries, a failed reload is not retried, an interrupted adoption
      blocks the boot, the gate does not restore a lost seat map, seeding leaves old
      fingerprints, a lock that a failed poll could not release makes the retry report success, redaction keeps two kinds of password.

  Termination, fuel and executions. The recursions of the engine and of the closure are structural or have a
  measure and need no fuel: the closure scans each station once because a settled label only falls. Loops that run
  as long as the process (\<open>WatcherLoop\<close>, \<open>RefreshLoop\<close>, \<open>zone_loop\<close>, the listener) are functions of the list of what they
  meet, one element for each iteration, so that a statement about all lists covers every finite prefix of
  every run. The breaker, the listener and the published schedule have reachable states as inductive predicates.

  Parameters: code that is not in the repository. Postgres is a function from statements to results or failures;
  Redis a record of commands whose documented laws are \<open>redis_laws\<close> (with an instance in memory for the witnesses) or the
  replies to the reads; SHA-256, JSON, URLs, the random generator, the HTTP client, the task queue and the web framework's accessors are
  functions; clocks, cancellations and map orders are arguments at each place where the code asks for them. The laws used of them are
  named hypotheses: \<open>redis_laws\<close>, \<open>orders_ok\<close>, \<open>faithful\<close>.

  Not modelled. Log messages; JSON field tags and the rendering of responses, their durations and time
  stamps; what the middleware of the framework does inside, beyond which request it answers; station coordinates; sleeping. \<^verbatim>\<open>float64\<close> values are rationals: fractions, time stamps in seconds and
  hours, where rounding does not cross a threshold the code compares with; the NaN and infinities that
  \<^verbatim>\<open>ParseFloat\<close> accepts are left out. Strings are byte strings and white space and case are those of ASCII. Concurrency is
  interleaving of whole operations: of methods under a mutex, of atomic loads and stores where readers can fall
  between two stores, and of the events of two goroutines; data races are outside the model.

  Left for later. The age of a signal against the pace of its zone; the search with labels that keep arrivals by vehicle and
  on foot apart, which would find the journeys that \<open>transfer_time_hides_walk\<close> shows to be missed.
\<close>

end
